(* ===== verification/Prelude.thy ===== *)
theory Prelude
  imports Main "HOL-Library.Word"
begin

text \<open>
  The vocabulary the components share: the C integer types of
  \<^verbatim>\<open>kernel/include/types.h\<close> at their i386 widths, the outcome of running a piece
  of kernel code, and the word and list lemmas that more than one component needs.

  A kernel function that always returns is an ordinary HOL function.  One that may stop
  the machine (\<^verbatim>\<open>assert\<close> and \<^verbatim>\<open>HALT_AND_CATCH_FIRE\<close> of
  \<^verbatim>\<open>kernel/core/panic.c\<close> disable interrupts and halt) or may loop forever returns a
  \<open>run\<close>: \<open>Some (Ret x)\<close> when it returns \<open>x\<close>, \<open>Some (Halt e)\<close> when it stops the
  machine for the reason \<open>e\<close>, and \<open>None\<close> when it never returns.
\<close>

unbundle bit_operations_syntax

named_theorems run_simps \<open>rewriting of sequenced kernel code\<close>
named_theorems mem_simps \<open>reading a memory that has just been written\<close>

section \<open>Integer types\<close>

type_synonym u8 = "8 word"
type_synonym u16 = "16 word"
type_synonym u32 = "32 word"

section \<open>Outcomes\<close>

datatype halt_reason =
    Assertion string  \<comment> \<open>\<^verbatim>\<open>assert_failed\<close>, with the text of the condition\<close>
  | Panic string      \<comment> \<open>\<^verbatim>\<open>halt_and_catch_fire\<close>, with its message\<close>
  | Undefined string  \<comment> \<open>an access outside an array or another operation that C leaves undefined\<close>

datatype 'a outcome = Ret 'a | Halt halt_reason

type_synonym 'a run = "'a outcome option"

abbreviation ret :: "'a \<Rightarrow> 'a run" where
  "ret x \<equiv> Some (Ret x)"

abbreviation halt :: "halt_reason \<Rightarrow> 'a run" where
  "halt e \<equiv> Some (Halt e)"

definition bind_run :: "'a run \<Rightarrow> ('a \<Rightarrow> 'b run) \<Rightarrow> 'b run" where
  "bind_run r f = (case r of None \<Rightarrow> None
     | Some q \<Rightarrow> (case q of Ret x \<Rightarrow> f x | Halt e \<Rightarrow> halt e))"

text \<open>The macro \<^verbatim>\<open>assert\<close> of \<^verbatim>\<open>system.h\<close>: a failed condition stops the machine.\<close>

definition assert_run :: "bool \<Rightarrow> string \<Rightarrow> unit run" where
  "assert_run b text = (if b then ret () else halt (Assertion text))"

lemma bind_ret [simp, run_simps]: "bind_run (ret x) f = f x"
  by (simp add: bind_run_def)

lemma bind_halt [simp, run_simps]: "bind_run (halt e) f = halt e"
  by (simp add: bind_run_def)

lemma bind_never [simp, run_simps]: "bind_run None f = None"
  by (simp add: bind_run_def)

lemma assert_True [simp, run_simps]: "assert_run True t = ret ()"
  by (simp add: assert_run_def)

lemma assert_False [simp, run_simps]: "assert_run False t = halt (Assertion t)"
  by (simp add: assert_run_def)

lemma bind_run_eq_ret:
  "bind_run r f = ret y \<longleftrightarrow> (\<exists>x. r = ret x \<and> f x = ret y)"
  by (auto simp: bind_run_def split: option.splits outcome.splits)

lemma bind_run_retE:
  assumes "bind_run r f = ret y"
  obtains x where "r = ret x" and "f x = ret y"
  using assms by (auto simp: bind_run_eq_ret)

lemma assert_run_eq_ret [simp]: "assert_run b t = ret u \<longleftrightarrow> b"
  by (simp add: assert_run_def)

lemma bind_run_assoc [run_simps]:
  "bind_run (bind_run r f) g = bind_run r (\<lambda>x. bind_run (f x) g)"
  by (auto simp: bind_run_def split: option.splits outcome.splits)

section \<open>Counted loops over words\<close>

lemma word_Suc_less: "i < (n::u32) \<Longrightarrow> unat (i + 1) = Suc (unat i)"
  by unat_arith

lemma word_Suc_le: "i < (n::u32) \<Longrightarrow> i + 1 \<le> n"
  by unat_arith

lemma word_Suc_le_iff: "i < (n::u32) \<Longrightarrow> i + 1 \<le> d \<longleftrightarrow> i \<le> d \<and> d \<noteq> i"
  by unat_arith

lemma word_eq_add_iff: "(x::u32) = a + i \<longleftrightarrow> x - a = i"
  by (auto simp: algebra_simps)

lemma loop_measure [intro]: "i < (n::u32) \<Longrightarrow> unat n - unat (i + 1) < unat n - unat i"
  by (simp add: word_Suc_less word_less_nat_alt)

lemma word_Suc_cases: "(i::u32) + 1 = 0 \<or> unat (i + 1) = Suc (unat i)"
  by unat_arith

section \<open>Recursion under \<open>bind_run\<close>\<close>

text \<open>Recursion under \<open>bind_run\<close> is monotone, so \<open>partial_function\<close> accepts it.\<close>

lemma bind_run_mono [partial_function_mono]:
  assumes "mono_option B" and "\<And>y. mono_option (\<lambda>f. C y f)"
  shows "mono_option (\<lambda>f. bind_run (B f) (\<lambda>y. C y f))"
proof -
  have "bind_run (B f) (\<lambda>y. C y f)
      = Option.bind (B f) (\<lambda>q. case q of Ret x \<Rightarrow> C x f | Halt e \<Rightarrow> halt e)" for f
    by (auto simp: bind_run_def split: option.splits)
  moreover have "mono_option (\<lambda>f. case q of Ret x \<Rightarrow> C x f | Halt e \<Rightarrow> halt e)" for q
    using assms(2) by (cases q) (auto simp: monotone_def option.leq_refl)
  ultimately show ?thesis
    using assms(1) by (simp add: bind_mono)
qed

section \<open>Distinct small offsets\<close>

lemma of_nat_inject_small:
  assumes "i < 2 ^ 32" and "j < 2 ^ 32"
  shows "(of_nat i :: u32) = of_nat j \<longleftrightarrow> i = j"
  using assms by (auto simp: word_unat_eq_iff unat_of_nat)

lemma unat_of_nat_small: "n < 2 ^ 32 \<Longrightarrow> unat (of_nat n :: u32) = n"
  by (simp add: unat_of_nat)

lemma unat_add_small: "unat (p :: u32) + n < 2 ^ 32 \<Longrightarrow> unat (p + of_nat n) = unat p + n"
  by (simp add: unat_word_ariths unat_of_nat)

lemma pos_signed_less: "0 \<le> (i::int) \<Longrightarrow> of_int i = (of_nat (nat i) :: u32)"
  by simp

lemma sint_small: "unat (w :: u32) < 2 ^ 31 \<Longrightarrow> sint w = int (unat w)"
proof -
  assume "unat w < 2 ^ 31"
  then have "int (unat w) < int (2 ^ 31)" by (simp only: of_nat_less_iff)
  then have less: "uint w < 2 ^ 31" by simp
  have "- (2 ^ 31) \<le> (0 :: int)" by simp
  also have "0 \<le> uint w" by simp
  finally have "signed_take_bit 31 (uint w) = uint w"
    using less by (rule signed_take_bit_int_eq_self)
  then show ?thesis by (simp add: sint_uint)
qed

end
