(* ===== verification/Memory.thy ===== *)
theory Memory
  imports Prelude
begin

text \<open>
  The machine the kernel runs on: a flat byte-addressed 32-bit memory, read and written
  little-endian as an i386 does, the I/O ports, and the control registers.  Addresses are
  \<^typ>\<open>u32\<close> and wrap around.  The device side of the ports is not code of the
  repository: it is the field \<open>env\<close>, the byte each port answers at the \<open>n\<close>-th port access.
\<close>

section \<open>Byte memory\<close>

type_synonym mem = "u32 \<Rightarrow> u8"

definition ld16 :: "mem \<Rightarrow> u32 \<Rightarrow> u16" where
  "ld16 m a = ucast (m a) OR push_bit 8 (ucast (m (a + 1)))"

definition st16 :: "mem \<Rightarrow> u32 \<Rightarrow> u16 \<Rightarrow> mem" where
  "st16 m a v = m(a := ucast v, a + 1 := ucast (drop_bit 8 v))"

definition ld32 :: "mem \<Rightarrow> u32 \<Rightarrow> u32" where
  "ld32 m a = ucast (m a) OR push_bit 8 (ucast (m (a + 1)))
     OR push_bit 16 (ucast (m (a + 2))) OR push_bit 24 (ucast (m (a + 3)))"

definition st32 :: "mem \<Rightarrow> u32 \<Rightarrow> u32 \<Rightarrow> mem" where
  "st32 m a v = m(a := ucast v, a + 1 := ucast (drop_bit 8 v),
     a + 2 := ucast (drop_bit 16 v), a + 3 := ucast (drop_bit 24 v))"

section \<open>Separation of accesses\<close>

text \<open>
  \<open>in_range p n a\<close>: the address \<open>a\<close> is one of the \<open>n\<close> bytes from \<open>p\<close> on.  The distance
  \<open>a - p\<close> is taken modulo \<open>2 ^ 32\<close>, so the range may wrap around.
\<close>

definition in_range :: "u32 \<Rightarrow> nat \<Rightarrow> u32 \<Rightarrow> bool" where
  "in_range p n a \<longleftrightarrow> unat (a - p) < n"

definition al4 :: "u32 \<Rightarrow> bool" where
  "al4 a \<longleftrightarrow> unat a mod 4 = 0"

lemma in_range_0 [simp]: "\<not> in_range p 0 a"
  by (simp add: in_range_def)

lemma in_range_self [simp]: "in_range p (Suc n) p"
  by (simp add: in_range_def)

lemma in_range_mono: "in_range p n a \<Longrightarrow> n \<le> k \<Longrightarrow> in_range p k a"
  by (simp add: in_range_def)

lemma in_range_offset [simp]: "n \<le> 2 ^ 32 \<Longrightarrow> k < n \<Longrightarrow> in_range p n (p + of_nat k)"
  by (simp add: in_range_def unat_of_nat)

lemma in_range_obtain:
  assumes "in_range p n a"
  obtains k where "k < n" and "a = p + of_nat k"
proof
  show "unat (a - p) < n" using assms by (simp add: in_range_def)
  show "a = p + of_nat (unat (a - p))" by simp
qed

text \<open>Two blocks that do not wrap around and lie one after the other are apart.\<close>

lemma range_apart:
  assumes "unat p + n \<le> 2 ^ 32" and "unat q + l \<le> 2 ^ 32"
    and "unat p + n \<le> unat q \<or> unat q + l \<le> unat p" and "k < l"
  shows "\<not> in_range p n (q + of_nat k)"
proof
  assume "in_range p n (q + of_nat k)"
  then obtain j where j: "j < n" "q + of_nat k = p + of_nat j" by (rule in_range_obtain)
  have "unat (q + of_nat k) = unat q + k" using assms(2,4) by (intro unat_add_small) linarith
  moreover have "unat (p + of_nat j) = unat p + j" using assms(1) j(1) by (intro unat_add_small) linarith
  ultimately show False using j assms(3,4) by simp
qed

section \<open>Reading back\<close>

lemma ld16_st16_same [simp, mem_simps]: "ld16 (st16 m a v) a = v"
  unfolding ld16_def st16_def
  by (rule bit_word_eqI) (auto simp: bit_simps)

lemma ld32_st32_same [simp, mem_simps]: "ld32 (st32 m a v) a = v"
proof (rule bit_word_eqI)
  fix n assume "n < LENGTH(32)"
  then consider "n < 8" | "8 \<le> n" "n < 16" | "16 \<le> n" "n < 24" | "24 \<le> n" "n < 32"
    by fastforce
  then show "bit (ld32 (st32 m a v) a) n \<longleftrightarrow> bit v n"
    by cases (auto simp: ld32_def st32_def bit_simps)
qed

lemma st32_apply:
  "st32 m a v x = (if x = a + 3 then ucast (drop_bit 24 v)
     else if x = a + 2 then ucast (drop_bit 16 v)
     else if x = a + 1 then ucast (drop_bit 8 v)
     else if x = a then ucast v else m x)"
  by (simp add: st32_def)

lemma in_range_4: "in_range a 4 x \<longleftrightarrow> x = a \<or> x = a + 1 \<or> x = a + 2 \<or> x = a + 3"
proof
  assume "in_range a 4 x"
  then obtain k where k: "k < 4" "x = a + of_nat k" by (rule in_range_obtain)
  from k(1) have "k = 0 \<or> k = 1 \<or> k = 2 \<or> k = 3" by arith
  with k(2) show "x = a \<or> x = a + 1 \<or> x = a + 2 \<or> x = a + 3" by auto
qed (auto simp: in_range_def)

lemma st32_outside [mem_simps]: "\<not> in_range a 4 x \<Longrightarrow> st32 m a v x = m x"
  by (simp add: st32_apply in_range_4)

lemma ld32_cong:
  assumes "\<And>x. in_range a 4 x \<Longrightarrow> m x = m' x"
  shows "ld32 m a = ld32 m' a"
  using assms by (simp add: ld32_def in_range_4)

lemma al4_div:
  assumes "al4 a" and "k < 4"
  shows "unat (a + of_nat k) div 4 = unat a div 4" and "unat (a + of_nat k) mod 4 = k"
proof -
  obtain q where q: "unat a = 4 * q" using assms(1) by (auto simp: al4_def)
  have lt: "unat a < 2 ^ 32" using unsigned_less [of a] by simp
  with q have "4 * q + k < 2 ^ 32" using assms(2) by simp
  moreover have "unat (of_nat k :: u32) = k" using assms(2) by (simp add: unat_of_nat)
  ultimately have "unat (a + of_nat k) = 4 * q + k"
    using q by (simp add: unat_word_ariths)
  then show "unat (a + of_nat k) div 4 = unat a div 4" and "unat (a + of_nat k) mod 4 = k"
    using q assms(2) by simp_all
qed

lemma al4_ranges_disjoint:
  assumes "al4 a" and "al4 b" and "a \<noteq> b" and "in_range b 4 x"
  shows "\<not> in_range a 4 x"
proof
  assume "in_range a 4 x"
  then obtain j where j: "j < 4" "x = a + of_nat j" by (rule in_range_obtain)
  obtain k where k: "k < 4" "x = b + of_nat k" using assms(4) by (rule in_range_obtain)
  have "unat a div 4 = unat b div 4"
    using al4_div(1) [OF assms(1) j(1)] al4_div(1) [OF assms(2) k(1)] j(2) k(2) by metis
  then have "unat a = unat b"
    using assms(1,2) unfolding al4_def by (metis div_mult_mod_eq)
  with assms(3) show False by (simp add: word_unat_eq_iff)
qed

lemma ld32_st32_aligned [mem_simps]:
  assumes "al4 a" and "al4 b"
  shows "ld32 (st32 m a v) b = (if b = a then v else ld32 m b)"
proof (cases "b = a")
  case False
  then have "ld32 (st32 m a v) b = ld32 m b"
    using assms al4_ranges_disjoint [OF assms] by (intro ld32_cong) (auto intro!: st32_outside)
  with False show ?thesis by simp
qed simp

lemma al4_0 [simp]: "al4 0" and al4_4 [simp]: "al4 4"
  by (simp_all add: al4_def)

lemma unat_add_mod4: "unat (a + b :: u32) mod 4 = (unat a + unat b) mod 4"
  by (simp add: unat_word_ariths mod_mod_cancel)

lemma al4_add [intro]:
  assumes "al4 a" and "al4 b"
  shows "al4 (a + b)"
proof -
  have "(unat a + unat b) mod 4 = 0" using assms by (auto simp: al4_def)
  then show ?thesis by (simp add: al4_def unat_add_mod4)
qed

lemma al4_times [simp]: "al4 (4 * x)"
  by (simp add: al4_def unat_word_ariths mod_mod_cancel)

section \<open>Arrays of 16-bit cells\<close>

lemma ld16_cong: "m a = m' a \<Longrightarrow> m (a + 1) = m' (a + 1) \<Longrightarrow> ld16 m a = ld16 m' a"
  by (simp add: ld16_def)

definition cell16 :: "mem \<Rightarrow> u32 \<Rightarrow> nat \<Rightarrow> u16" where
  "cell16 m base k = ld16 m (base + of_nat (2 * k))"

lemma cell16_st16:
  assumes "i < 2 ^ 31" and "k < 2 ^ 31"
  shows "cell16 (st16 m (base + of_nat (2 * i)) v) base k = (if k = i then v else cell16 m base k)"
proof (cases "k = i")
  case False
  have "base + of_nat (2 * k + a) \<noteq> base + of_nat (2 * i + b)" if "a < 2" "b < 2" for a b
  proof -
    have "2 * k + a \<noteq> 2 * i + b" using that False by presburger
    moreover have "2 * k + a < 2 ^ 32" using that assms by simp
    moreover have "2 * i + b < 2 ^ 32" using that assms by simp
    ultimately show ?thesis by (simp add: of_nat_inject_small del: of_nat_add)
  qed
  from this [of 0 0] this [of 0 1] this [of 1 0] this [of 1 1] False
  show ?thesis unfolding cell16_def
    by (auto intro!: ld16_cong simp: st16_def ac_simps)
qed (simp add: cell16_def)

section \<open>Arrays in memory\<close>

text \<open>The slots of \<open>c\<close> bytes each of an array at \<open>b\<close>, wherever it lies.\<close>

lemma slots_disjoint:
  assumes "c * i + c \<le> 2 ^ 32" and "c * j + c \<le> 2 ^ 32" and "i \<noteq> j" and "k < c"
  shows "\<not> in_range (b + of_nat (c * i)) c (b + of_nat (c * j) + of_nat k)"
proof
  assume "in_range (b + of_nat (c * i)) c (b + of_nat (c * j) + of_nat k)"
  then obtain l where l: "l < c" "b + of_nat (c * j) + of_nat k = b + of_nat (c * i) + of_nat l"
    by (rule in_range_obtain)
  then have "(of_nat (c * j + k) :: u32) = of_nat (c * i + l)" by (simp add: algebra_simps)
  moreover have "c * j + k < 2 ^ 32" "c * i + l < 2 ^ 32" using assms l(1) by linarith+
  ultimately have eq: "c * j + k = c * i + l" by (simp only: of_nat_inject_small)
  have "j = (c * j + k) div c" using assms(4) by simp
  also have "\<dots> = i" using l(1) by (simp add: eq)
  finally show False using assms(3) by simp
qed

text \<open>\<open>word_at m b i\<close>: the \<open>i\<close>-th 32-bit word of the array at \<open>b\<close>.\<close>

definition word_at :: "mem \<Rightarrow> u32 \<Rightarrow> nat \<Rightarrow> u32" where
  "word_at m b i = ld32 m (b + 4 * of_nat i)"

lemma word_at_st32 [mem_simps]:
  assumes "i < 2 ^ 30" and "j < 2 ^ 30"
  shows "word_at (st32 m (b + 4 * of_nat i) v) b j = (if j = i then v else word_at m b j)"
proof (cases "j = i")
  case False
  have "ld32 (st32 m (b + of_nat (4 * i)) v) (b + of_nat (4 * j)) = ld32 m (b + of_nat (4 * j))"
  proof (rule ld32_cong)
    fix x assume "in_range (b + of_nat (4 * j)) 4 x"
    then obtain k where "k < 4" "x = b + of_nat (4 * j) + of_nat k" by (rule in_range_obtain)
    then show "st32 m (b + of_nat (4 * i)) v x = m x"
      using slots_disjoint [of 4 i j k b] assms False by (intro st32_outside) simp
  qed
  with False show ?thesis by (simp add: word_at_def)
qed (simp add: word_at_def)

lemma word_at_cong:
  assumes "\<And>x. in_range (b + 4 * of_nat i) 4 x \<Longrightarrow> m x = m' x"
  shows "word_at m b i = word_at m' b i"
  using assms unfolding word_at_def by (rule ld32_cong)

section \<open>Images of words\<close>

lemma bytes_of_word:
  "ucast (ld32 m a) = m a" "ucast (drop_bit 8 (ld32 m a)) = m (a + 1)"
  "ucast (drop_bit 16 (ld32 m a)) = m (a + 2)" "ucast (drop_bit 24 (ld32 m a)) = m (a + 3)"
  unfolding ld32_def by (rule bit_eqI; auto simp: bit_simps dest: bit_imp_le_length)+

lemma byte_of_word:
  assumes "k < 4"
  shows "m (a + of_nat k) = ucast (drop_bit (8 * k) (ld32 m a))"
proof -
  have "k = 0 \<or> k = 1 \<or> k = 2 \<or> k = 3" using assms by linarith
  then show ?thesis using bytes_of_word [of m a] by (elim disjE) simp_all
qed

lemma half_of_word: "ld16 m a = ucast (ld32 m a)"
  unfolding ld16_def ld32_def by (rule bit_eqI) (auto simp: bit_simps)

definition word_image :: "(u32 \<times> u32) list \<Rightarrow> mem" where
  "word_image ws = fold (\<lambda>(a, w) m. st32 m a w) ws (\<lambda>_. 0)"

lemma ld32_zero: "ld32 (\<lambda>_. 0) a = 0"
  by (simp add: ld32_def)

lemma word_image_at:
  assumes "list_all (\<lambda>x. al4 (fst x)) ws" and "al4 a"
  shows "ld32 (word_image ws) a = (case map_of (rev ws) a of Some w \<Rightarrow> w | None \<Rightarrow> 0)"
proof -
  have "ld32 (fold (\<lambda>(a, w) m. st32 m a w) ws m) a = (case map_of (rev ws) a of Some w \<Rightarrow> w | None \<Rightarrow> ld32 m a)" for m
    using assms(1)
  proof (induction ws arbitrary: m)
    case (Cons x ws)
    obtain p w where "x = (p, w)" by (cases x)
    then show ?case using Cons assms(2)
      by (auto simp: ld32_st32_aligned map_add_def split: option.splits)
  qed simp
  then show ?thesis by (simp add: word_image_def ld32_zero split: option.split)
qed

section \<open>The machine state\<close>

record machine =
  mem :: mem
  ports_out :: "(u16 \<times> u8) list"    \<comment> \<open>every \<^verbatim>\<open>outb\<close> so far, oldest first\<close>
  io_clock :: nat                 \<comment> \<open>how many \<^verbatim>\<open>inb\<close> have been executed\<close>
  env :: "nat \<Rightarrow> u16 \<Rightarrow> u8"         \<comment> \<open>the byte the devices answer\<close>
  cr0 :: u32
  cr3 :: u32

end
