(* ===== verification/CString.thy ===== *)
theory CString
  imports Memory
begin

text \<open>
  The kernel's C library, \<^verbatim>\<open>kernel/core/system.c\<close>: block operations and NUL-terminated
  strings in the flat memory, and port I/O.  The loops over blocks are counted and total;
  the loops that look for a NUL are \<open>partial_function\<close>s, whose \<open>None\<close> is a scan that never
  ends.  \<^verbatim>\<open>memcpy\<close>, \<^verbatim>\<open>memset\<close> and \<^verbatim>\<open>memsetw\<close> return their first argument in C, which no
  caller reads; the model returns the new memory.
\<close>

section \<open>Block operations\<close>

function memcpy_loop :: "mem \<Rightarrow> u32 \<Rightarrow> u32 \<Rightarrow> u32 \<Rightarrow> u32 \<Rightarrow> mem" where
  "memcpy_loop m a b i count =
     (if i < count then memcpy_loop (m(a + i := m (b + i))) a b (i + 1) count else m)"
  by pat_completeness auto
termination
  by (relation "measure (\<lambda>(m, a, b, i, count). unat count - unat i)")
     auto

definition memcpy :: "mem \<Rightarrow> u32 \<Rightarrow> u32 \<Rightarrow> u32 \<Rightarrow> mem" where
  "memcpy m dest src count = memcpy_loop m dest src 0 count"

function memset_loop :: "mem \<Rightarrow> u32 \<Rightarrow> u32 \<Rightarrow> u32 \<Rightarrow> u32 \<Rightarrow> mem" where
  "memset_loop m dest val i count =
     (if i < count then memset_loop (m(dest + i := ucast val)) dest val (i + 1) count else m)"
  by pat_completeness auto
termination
  by (relation "measure (\<lambda>(m, a, b, i, count). unat count - unat i)")
     auto

definition memset :: "mem \<Rightarrow> u32 \<Rightarrow> u32 \<Rightarrow> u32 \<Rightarrow> mem" where
  "memset m b val count = memset_loop m b val 0 count"

function memsetw_loop :: "mem \<Rightarrow> u32 \<Rightarrow> u16 \<Rightarrow> int \<Rightarrow> int \<Rightarrow> mem" where
  "memsetw_loop m dest val i count =
     (if i < count then memsetw_loop (st16 m (dest + 2 * of_int i) val) dest val (i + 1) count
      else m)"
  by pat_completeness auto
termination
  by (relation "measure (\<lambda>(m, a, b, i, count). nat (count - i))") auto

definition memsetw :: "mem \<Rightarrow> u32 \<Rightarrow> u16 \<Rightarrow> int \<Rightarrow> mem" where
  "memsetw m dest val count = memsetw_loop m dest val 0 count"

declare memcpy_loop.simps [simp del] memset_loop.simps [simp del] memsetw_loop.simps [simp del]

section \<open>Strings\<close>

text \<open>\<^verbatim>\<open>char\<close> is signed on i386: comparisons read the bytes as two's complement.\<close>

partial_function (option) strcmp_loop :: "mem \<Rightarrow> u32 \<Rightarrow> u32 \<Rightarrow> u32 \<Rightarrow> int option" where
  "strcmp_loop m a b i =
     (if sint (m (a + i)) < sint (m (b + i)) then Some (- 1)
      else if sint (m (a + i)) > sint (m (b + i)) then Some 1
      else if m (a + i) = 0 then Some 0
      else strcmp_loop m a b (i + 1))"

definition strcmp :: "mem \<Rightarrow> u32 \<Rightarrow> u32 \<Rightarrow> int option" where
  "strcmp m a b = strcmp_loop m a b 0"

partial_function (option) strlen_loop :: "mem \<Rightarrow> u32 \<Rightarrow> u32 \<Rightarrow> u32 option" where
  "strlen_loop m str i = (if m (str + i) \<noteq> 0 then strlen_loop m str (i + 1) else Some i)"

definition strlen :: "mem \<Rightarrow> u32 \<Rightarrow> u32 option" where
  "strlen m str = strlen_loop m str 0"

text \<open>
  \<^verbatim>\<open>atoi\<close> as written: the index counts upwards from \<^verbatim>\<open>len\<close> and the loop ends only when it
  wraps around to 0, and the weight is multiplied by 80.
\<close>

function atoi_loop :: "mem \<Rightarrow> u32 \<Rightarrow> u32 \<Rightarrow> u32 \<Rightarrow> u32 \<Rightarrow> u32" where
  "atoi_loop m str i out pow =
     (if i > 0 then atoi_loop m str (i + 1) (out + (scast (m (str + (i - 1))) - 48) * pow)
                      (pow * 80)
      else out)"
  by pat_completeness auto
termination
proof (relation "measure (\<lambda>(m, str, i, out, pow). if i = 0 then 0 else 2 ^ 32 - unat i)", goal_cases)
  case (2 m str i out pow)
  then have "0 < unat i" and "unat i < 2 ^ 32"
    using unsigned_less [of i] by (simp_all add: unat_gt_0 word_gt_0)
  then show ?case using 2 word_Suc_cases [of i] by (auto simp: diff_less_mono2)
qed simp

definition atoi :: "mem \<Rightarrow> u32 \<Rightarrow> u32 option" where
  "atoi m str = (case strlen m str of None \<Rightarrow> None
     | Some len \<Rightarrow> Some (atoi_loop m str len 0 1))"

partial_function (option) strspn_acc :: "mem \<Rightarrow> u8 \<Rightarrow> u32 \<Rightarrow> u32 option" where
  "strspn_acc m c acc =
     (if m acc = 0 then Some acc else if c = m acc then Some acc else strspn_acc m c (acc + 1))"

partial_function (option) strspn_loop :: "mem \<Rightarrow> u32 \<Rightarrow> u32 \<Rightarrow> u32 \<Rightarrow> u32 option" where
  "strspn_loop m accept p sz =
     (if m p = 0 then Some sz
      else case strspn_acc m (m p) accept of None \<Rightarrow> None
           | Some acc \<Rightarrow> if m acc = 0 then Some sz
                        else strspn_loop m accept (p + 1) (sz + 1))"

definition strspn :: "mem \<Rightarrow> u32 \<Rightarrow> u32 \<Rightarrow> u32 option" where
  "strspn m str accept = strspn_loop m accept str 0"

partial_function (option) strpbrk_acc :: "mem \<Rightarrow> u8 \<Rightarrow> u32 \<Rightarrow> bool option" where
  "strpbrk_acc m c acc =
     (if m acc = 0 then Some False else if m acc = c then Some True
      else strpbrk_acc m c (acc + 1))"

partial_function (option) strpbrk :: "mem \<Rightarrow> u32 \<Rightarrow> u32 \<Rightarrow> u32 option" where
  "strpbrk m str accept =
     (if m str = 0 then Some 0
      else case strpbrk_acc m (m str) accept of None \<Rightarrow> None
           | Some hit \<Rightarrow> if hit then Some str else strpbrk m (str + 1) accept)"

partial_function (option) lfind_loop :: "mem \<Rightarrow> u32 \<Rightarrow> u8 \<Rightarrow> u32 \<Rightarrow> u32 option" where
  "lfind_loop m str accept i =
     (if m (str + i) \<noteq> accept then lfind_loop m str accept (i + 1) else Some (str + i))"

definition lfind :: "mem \<Rightarrow> u32 \<Rightarrow> u8 \<Rightarrow> u32 option" where
  "lfind m str accept = lfind_loop m str accept 0"

text \<open>
  \<^verbatim>\<open>strtok_r\<close> returns the token (0 for \<^verbatim>\<open>NULL\<close>), the new value of \<^verbatim>\<open>*saveptr\<close> and the
  memory with the terminator it writes.
\<close>

definition strtok_r :: "mem \<Rightarrow> u32 \<Rightarrow> u32 \<Rightarrow> u32 \<Rightarrow> (u32 \<times> u32 \<times> mem) option" where
  "strtok_r m str0 delim saveptr =
     (let str1 = (if str0 = 0 then saveptr else str0) in
      case strspn m str1 delim of None \<Rightarrow> None | Some n \<Rightarrow>
      (let token = str1 + n in
       if m token = 0 then Some (0, token, m)
       else case strpbrk m token delim of None \<Rightarrow> None | Some s \<Rightarrow>
         (if s = 0
          then case lfind m token 0 of None \<Rightarrow> None | Some e \<Rightarrow> Some (token, e, m)
          else Some (token, s + 1, m(s := 0)))))"

section \<open>Port I/O\<close>

definition inportb :: "u16 \<Rightarrow> 'a machine_scheme \<Rightarrow> u8 \<times> 'a machine_scheme" where
  "inportb port s = (env s (io_clock s) port, s\<lparr>io_clock := Suc (io_clock s)\<rparr>)"

definition outportb :: "u16 \<Rightarrow> u8 \<Rightarrow> 'a machine_scheme \<Rightarrow> 'a machine_scheme" where
  "outportb port data s = s\<lparr>ports_out := ports_out s @ [(port, data)]\<rparr>"

section \<open>What the block operations do\<close>

text \<open>
  A forward byte copy is a copy of the original source as long as no source byte is
  overwritten before it is read, that is unless the destination starts inside the source:
  \<open>unat (b - a) + unat count \<le> 2 ^ 32\<close> covers disjoint blocks and a destination below the
  source.
\<close>

lemma memcpy_loop_apply:
  assumes "unat (b - a) + unat count \<le> 2 ^ 32"
  shows "i \<le> count \<Longrightarrow> memcpy_loop m a b i count x =
    (if i \<le> x - a \<and> x - a < count then m (b + (x - a)) else m x)"
  using assms
proof (induction m a b i count rule: memcpy_loop.induct)
  case (1 m a b i count)
  show ?case
  proof (cases "i < count")
    case False
    with "1.prems" have "i = count" by simp
    then show ?thesis by (auto simp: memcpy_loop.simps [of m a b count count])
  next
    case True
    define m' where "m' = m(a + i := m (b + i))"
    have le: "i + 1 \<le> count" using True by (rule word_Suc_le)
    have "memcpy_loop m' a b (i + 1) count x =
        (if i + 1 \<le> x - a \<and> x - a < count then m' (b + (x - a)) else m' x)"
      unfolding m'_def by (rule "1.IH" [OF True le "1.prems"(2)])
    moreover have "memcpy_loop m a b i count = memcpy_loop m' a b (i + 1) count"
      using True by (simp only: memcpy_loop.simps [of m a b i count] m'_def if_True)
    ultimately have step: "memcpy_loop m a b i count x =
        (if i + 1 \<le> x - a \<and> x - a < count then m' (b + (x - a)) else m' x)"
      by simp
    have untouched: "m' (b + (x - a)) = m (b + (x - a))" if "i + 1 \<le> x - a" "x - a < count"
    proof -
      have "b + (x - a) \<noteq> a + i"
      proof
        assume "b + (x - a) = a + i"
        then have sum: "(b - a) + (x - a) = i" by (simp add: algebra_simps)
        have "unat (b - a) + unat (x - a) < 2 ^ 32"
          using "1.prems"(2) that(2) by (simp add: word_less_nat_alt)
        then have "unat i = unat (b - a) + unat (x - a)"
          using sum unat_add_lem [of "b - a" "x - a"] by simp
        moreover have "i < x - a" using that(1) True by (auto simp: word_Suc_le_iff)
        ultimately show False by (simp add: word_less_nat_alt)
      qed
      then show ?thesis by (simp add: m'_def)
    qed
    show ?thesis
      using step untouched True
      by (auto simp: m'_def word_Suc_le_iff word_eq_add_iff)
  qed
qed

lemma memset_loop_apply:
  "i \<le> count \<Longrightarrow> memset_loop m d v i count x =
    (if i \<le> x - d \<and> x - d < count then ucast v else m x)"
proof (induction m d v i count rule: memset_loop.induct)
  case (1 m d v i count)
  show ?case
  proof (cases "i < count")
    case False
    with "1.prems" have "i = count" by simp
    then show ?thesis by (auto simp: memset_loop.simps [of m d v count count])
  next
    case True
    define m' where "m' = m(d + i := ucast v)"
    have le: "i + 1 \<le> count" using True by (rule word_Suc_le)
    have "memset_loop m' d v (i + 1) count x =
        (if i + 1 \<le> x - d \<and> x - d < count then ucast v else m' x)"
      unfolding m'_def by (rule "1.IH" [OF True le])
    moreover have "memset_loop m d v i count = memset_loop m' d v (i + 1) count"
      using True by (simp only: memset_loop.simps [of m d v i count] m'_def if_True)
    ultimately show ?thesis
      using True by (auto simp: m'_def word_Suc_le_iff word_eq_add_iff)
  qed
qed

lemma memcpy_apply:
  assumes "unat (src - dest) + unat count \<le> 2 ^ 32"
  shows "memcpy m dest src count x =
    (if in_range dest (unat count) x then m (src + (x - dest)) else m x)"
  using memcpy_loop_apply [OF assms, of 0]
  by (simp add: memcpy_def in_range_def word_less_nat_alt)

lemma memset_apply:
  "memset m b v count x = (if in_range b (unat count) x then ucast v else m x)"
  using memset_loop_apply [of 0 count m b v x]
  by (simp add: memset_def in_range_def word_less_nat_alt)

lemma memcpy_outside [mem_simps]:
  assumes "unat (src - dest) + unat count \<le> 2 ^ 32" and "\<not> in_range dest (unat count) x"
  shows "memcpy m dest src count x = m x"
  using assms by (simp add: memcpy_apply)

lemma memset_outside [mem_simps]:
  "\<not> in_range b (unat count) x \<Longrightarrow> memset m b v count x = m x"
  by (simp add: memset_apply)

section \<open>NUL-terminated strings\<close>

text \<open>\<open>cstr m p s\<close>: the memory holds at \<open>p\<close> the bytes of \<open>s\<close>, none of them 0, then a NUL.\<close>

fun cstr :: "mem \<Rightarrow> u32 \<Rightarrow> u8 list \<Rightarrow> bool" where
  "cstr m p [] \<longleftrightarrow> m p = 0"
| "cstr m p (c # s) \<longleftrightarrow> m p = c \<and> c \<noteq> 0 \<and> cstr m (p + 1) s"

lemma cstr_unique: "cstr m p s \<Longrightarrow> cstr m p t \<Longrightarrow> s = t"
proof (induction s arbitrary: p t)
  case Nil
  then show ?case by (cases t) auto
next
  case (Cons c s)
  then show ?case by (cases t) auto
qed

lemma cstr_append:
  "cstr m p (s @ t) \<longleftrightarrow>
     (\<forall>k < length s. m (p + of_nat k) = s ! k \<and> s ! k \<noteq> 0) \<and> cstr m (p + of_nat (length s)) t"
proof (induction s arbitrary: p)
  case (Cons c s)
  have "(\<forall>k < length (c # s). m (p + of_nat k) = (c # s) ! k \<and> (c # s) ! k \<noteq> 0) \<longleftrightarrow>
      (m p = c \<and> c \<noteq> 0) \<and> (\<forall>k < length s. m (p + 1 + of_nat k) = s ! k \<and> s ! k \<noteq> 0)"
    by (simp add: All_less_Suc2 ac_simps)
  then show ?case using Cons [of "p + 1"] by (auto simp: ac_simps)
qed simp

lemma cstr_suffix: "cstr m p (s @ t) \<Longrightarrow> cstr m (p + of_nat (length s)) t"
  by (simp add: cstr_append)

lemma cstr_nth:
  "cstr m p s \<longleftrightarrow>
     (\<forall>k < length s. m (p + of_nat k) = s ! k \<and> s ! k \<noteq> 0) \<and> m (p + of_nat (length s)) = 0"
  using cstr_append [of m p s "[]"] by simp

lemma cstr_no_NUL: "cstr m p s \<Longrightarrow> 0 \<notin> set s"
  by (induction s arbitrary: p) auto

lemma cstr_cong:
  "(\<And>k. k \<le> length s \<Longrightarrow> m (p + of_nat k) = m' (p + of_nat k)) \<Longrightarrow> cstr m p s = cstr m' p s"
  by (simp add: cstr_nth)

text \<open>A string never fills the address space: it would have to contain its own terminator.\<close>

lemma cstr_length: "cstr m p s \<Longrightarrow> length s < 2 ^ 32"
proof (rule ccontr)
  assume c: "cstr m p s" and "\<not> length s < 2 ^ 32"
  then have le: "2 ^ 32 \<le> length s" by simp
  define k where "k = length s mod 2 ^ 32"
  have "k < 2 ^ 32" by (simp add: k_def)
  with le have "k < length s" by linarith
  with c have "m (p + of_nat k) \<noteq> 0" by (auto simp: cstr_nth)
  moreover have "(of_nat k :: u32) = of_nat (length s)"
    unfolding k_def by (rule word_unat_eq_iff [THEN iffD2]) (simp add: unat_of_nat)
  ultimately show False using c by (simp add: cstr_nth)
qed

section \<open>Length and search\<close>

lemma strlen_loop_cstr:
  "cstr m (p + i) s \<Longrightarrow> strlen_loop m p i = Some (i + of_nat (length s))"
proof (induction s arbitrary: i)
  case (Cons c s)
  then have "strlen_loop m p (i + 1) = Some (i + 1 + of_nat (length s))" by (simp add: ac_simps)
  with Cons.prems show ?case by (simp add: strlen_loop.simps [of m p i] ac_simps)
qed (simp add: strlen_loop.simps)

lemma strlen_cstr: "cstr m p s \<Longrightarrow> strlen m p = Some (of_nat (length s))"
  using strlen_loop_cstr [of m p 0 s] by (simp add: strlen_def)

lemma strlen_loop_NUL: "strlen_loop m p i = Some n \<Longrightarrow> m (p + n) = 0"
proof (rule strlen_loop.raw_induct [where P = "\<lambda>m p i n. m (p + n) = 0"])
  fix f m p i n
  assume "\<And>m p i n. f m p i = Some n \<Longrightarrow> m (p + n) = 0"
    and "(if m (p + i) \<noteq> 0 then f m p (i + 1) else Some i) = Some n"
  then show "m (p + n) = 0" by (auto split: if_splits)
qed

text \<open>Every memory with a zero byte somewhere holds a string at every address.\<close>

lemma cstr_exists:
  assumes "m a = 0"
  shows "\<exists>s. cstr m p s"
proof -
  define P where "P n \<longleftrightarrow> m (p + of_nat n) = 0" for n
  have "P (unat (a - p))" using assms by (simp add: P_def)
  then have least: "P (LEAST n. P n)" by (rule LeastI)
  have below: "k < (LEAST n. P n) \<Longrightarrow> \<not> P k" for k by (rule not_less_Least)
  define s where "s = map (\<lambda>n. m (p + of_nat n)) [0..<LEAST n. P n]"
  have "cstr m p s" using least below by (simp add: cstr_nth s_def P_def)
  then show ?thesis ..
qed

lemma strlen_returns_iff: "strlen m p \<noteq> None \<longleftrightarrow> (\<exists>a. m a = 0)"
proof
  assume "strlen m p \<noteq> None"
  then show "\<exists>a. m a = 0" by (auto simp: strlen_def dest: strlen_loop_NUL)
next
  assume "\<exists>a. m a = 0"
  then obtain s where "cstr m p s" using cstr_exists by blast
  then show "strlen m p \<noteq> None" by (simp add: strlen_cstr)
qed

lemma lfind_loop_end: "cstr m (p + i) s \<Longrightarrow> lfind_loop m p 0 i = Some (p + i + of_nat (length s))"
proof (induction s arbitrary: i)
  case (Cons c s)
  then have "lfind_loop m p 0 (i + 1) = Some (p + (i + 1) + of_nat (length s))"
    by (simp add: ac_simps)
  with Cons.prems show ?case by (simp add: lfind_loop.simps [of m p 0 i] ac_simps)
qed (simp add: lfind_loop.simps)

lemma lfind_end: "cstr m p s \<Longrightarrow> lfind m p 0 = Some (p + of_nat (length s))"
  using lfind_loop_end [of m p 0 s] by (simp add: lfind_def)

section \<open>Comparison\<close>

text \<open>What \<^verbatim>\<open>strcmp\<close> computes: the lexicographic comparison of the signed characters.\<close>

fun strcmp_spec :: "u8 list \<Rightarrow> u8 list \<Rightarrow> int" where
  "strcmp_spec [] [] = 0"
| "strcmp_spec [] (y # t) = (if 0 < sint y then - 1 else 1)"
| "strcmp_spec (x # s) [] = (if sint x < 0 then - 1 else 1)"
| "strcmp_spec (x # s) (y # t) =
     (if sint x < sint y then - 1 else if sint x > sint y then 1 else strcmp_spec s t)"

lemma sint_inject: "sint (x :: u8) = sint y \<longleftrightarrow> x = y"
  by (auto intro: signed_word_eqI)

lemma sint_eq_0_iff: "sint (x :: u8) = 0 \<longleftrightarrow> x = 0"
  using sint_inject [of x 0] by simp

lemma strcmp_loop_cstr:
  "cstr m (a + i) s \<Longrightarrow> cstr m (b + i) t \<Longrightarrow> strcmp_loop m a b i = Some (strcmp_spec s t)"
proof (induction s t arbitrary: i rule: strcmp_spec.induct)
  case (2 y t)
  then show ?case by (auto simp: strcmp_loop.simps [of m a b i] sint_eq_0_iff not_less le_less)
next
  case (3 x s)
  then show ?case by (auto simp: strcmp_loop.simps [of m a b i] sint_eq_0_iff not_less le_less)
next
  case (4 x s y t)
  show ?case
  proof (cases "x = y")
    case True
    with 4 have "strcmp_loop m a b (i + 1) = Some (strcmp_spec s t)" by (simp add: ac_simps)
    with 4 True show ?thesis by (simp add: strcmp_loop.simps [of m a b i])
  next
    case False
    then have "sint x \<noteq> sint y" by (simp add: sint_inject)
    with 4 show ?thesis by (auto simp: strcmp_loop.simps [of m a b i])
  qed
qed (simp add: strcmp_loop.simps)

lemma strcmp_cstr: "cstr m a s \<Longrightarrow> cstr m b t \<Longrightarrow> strcmp m a b = Some (strcmp_spec s t)"
  using strcmp_loop_cstr [of m a 0 s b t] by (simp add: strcmp_def)

lemma strcmp_spec_0 [simp]: "0 \<notin> set s \<Longrightarrow> 0 \<notin> set t \<Longrightarrow> strcmp_spec s t = 0 \<longleftrightarrow> s = t"
  by (induction s t rule: strcmp_spec.induct) (auto simp: sint_inject [symmetric])

lemma strcmp_spec_swap:
  "0 \<notin> set s \<Longrightarrow> 0 \<notin> set t \<Longrightarrow> strcmp_spec t s = - strcmp_spec s t"
  by (induction s t rule: strcmp_spec.induct) (auto simp: not_less le_less sint_eq_0_iff)

section \<open>Spans and tokens\<close>

lemma strspn_acc_cstr:
  "cstr m acc d \<Longrightarrow> c \<noteq> 0 \<Longrightarrow>
     \<exists>acc'. strspn_acc m c acc = Some acc' \<and> (m acc' = 0 \<longleftrightarrow> c \<notin> set d)"
proof (induction d arbitrary: acc)
  case (Cons x d)
  show ?case
  proof (cases "c = x")
    case True
    with Cons.prems show ?thesis by (intro exI [of _ acc]) (simp add: strspn_acc.simps)
  next
    case False
    with Cons show ?thesis by (auto simp: strspn_acc.simps [of m c acc])
  qed
qed (simp add: strspn_acc.simps)

lemma strspn_loop_cstr:
  assumes "cstr m d ds"
  shows "cstr m p s \<Longrightarrow>
    strspn_loop m d p n = Some (n + of_nat (length (takeWhile (\<lambda>c. c \<in> set ds) s)))"
proof (induction s arbitrary: p n)
  case (Cons c s)
  then have c: "m p = c" "c \<noteq> 0" and tl: "cstr m (p + 1) s" by auto
  obtain acc where acc: "strspn_acc m c d = Some acc" "m acc = 0 \<longleftrightarrow> c \<notin> set ds"
    using strspn_acc_cstr [OF assms c(2)] by blast
  show ?case
    using c acc Cons.IH [OF tl, of "n + 1"] by (auto simp: strspn_loop.simps [of m d p n] ac_simps)
qed (simp add: strspn_loop.simps)

lemma strspn_cstr:
  "cstr m d ds \<Longrightarrow> cstr m p s \<Longrightarrow>
     strspn m p d = Some (of_nat (length (takeWhile (\<lambda>c. c \<in> set ds) s)))"
  using strspn_loop_cstr [of m d ds p s 0] by (simp add: strspn_def)

lemma strpbrk_acc_cstr: "cstr m acc d \<Longrightarrow> strpbrk_acc m c acc = Some (c \<in> set d)"
proof (induction d arbitrary: acc)
  case (Cons x d)
  then show ?case by (auto simp: strpbrk_acc.simps [of m c acc])
qed (simp add: strpbrk_acc.simps)

lemma strpbrk_cstr:
  assumes "cstr m d ds"
  shows "cstr m p s \<Longrightarrow> strpbrk m p d =
    Some (if \<exists>c \<in> set s. c \<in> set ds
          then p + of_nat (length (takeWhile (\<lambda>c. c \<notin> set ds) s)) else 0)"
proof (induction s arbitrary: p)
  case (Cons c s)
  then have c: "m p = c" "c \<noteq> 0" and tl: "cstr m (p + 1) s" by auto
  show ?case
    using c Cons.IH [OF tl] strpbrk_acc_cstr [OF assms, of c]
    by (auto simp: strpbrk.simps [of m p d] ac_simps)
qed (simp add: strpbrk.simps)

text \<open>Overwriting one character of a string with a NUL cuts it in two.\<close>

lemma cstr_cut:
  assumes c: "cstr m p (s @ x # t)"
  defines "q \<equiv> p + of_nat (length s)"
  shows "cstr (m(q := 0)) p s" and "cstr (m(q := 0)) (q + 1) t"
proof -
  have len: "length s + length t + 1 < 2 ^ 32" using cstr_length [OF c] by simp
  have s: "\<forall>k < length s. m (p + of_nat k) = s ! k \<and> s ! k \<noteq> 0"
    and "cstr m q (x # t)"
    using c unfolding cstr_append q_def by blast+
  then have t: "cstr m (q + 1) t" by simp
  have "p + of_nat k \<noteq> q" if "k < length s" for k
    using that len by (simp add: q_def of_nat_inject_small)
  with s show "cstr (m(q := 0)) p s" by (simp add: cstr_nth q_def)
  have "q + 1 + of_nat k \<noteq> q" if "k \<le> length t" for k
  proof
    assume "q + 1 + of_nat k = q"
    then have "(of_nat (Suc k) :: u32) = of_nat 0" by (simp add: algebra_simps)
    then show False using that len by (subst (asm) of_nat_inject_small) auto
  qed
  then have "cstr (m(q := 0)) (q + 1) t = cstr m (q + 1) t"
    by (intro cstr_cong) simp
  with t show "cstr (m(q := 0)) (q + 1) t" by simp
qed

text \<open>
  The tokens of a string, as \<^verbatim>\<open>strtok_r\<close> yields them one by one: \<open>tok_skip\<close> delimiters are
  skipped, \<open>tok_word\<close> is the token, \<open>tok_rest\<close> what follows it, its delimiter first.
\<close>

definition tok_skip :: "u8 set \<Rightarrow> u8 list \<Rightarrow> u8 list" where
  "tok_skip D s = takeWhile (\<lambda>c. c \<in> D) s"

definition tok_word :: "u8 set \<Rightarrow> u8 list \<Rightarrow> u8 list" where
  "tok_word D s = takeWhile (\<lambda>c. c \<notin> D) (dropWhile (\<lambda>c. c \<in> D) s)"

definition tok_rest :: "u8 set \<Rightarrow> u8 list \<Rightarrow> u8 list" where
  "tok_rest D s = dropWhile (\<lambda>c. c \<notin> D) (dropWhile (\<lambda>c. c \<in> D) s)"

lemma tok_split: "tok_skip D s @ tok_word D s @ tok_rest D s = s"
  by (simp add: tok_skip_def tok_word_def tok_rest_def)

lemma tok_word_Nil_iff: "tok_word D s = [] \<longleftrightarrow> dropWhile (\<lambda>c. c \<in> D) s = []"
proof (cases "dropWhile (\<lambda>c. c \<in> D) s")
  case (Cons c t)
  then have "c \<notin> D" using hd_dropWhile [of "\<lambda>c. c \<in> D" s] by simp
  with Cons show ?thesis by (simp add: tok_word_def del: dropWhile_eq_Nil_conv)
next
  case Nil
  then show ?thesis by (simp add: tok_word_def del: dropWhile_eq_Nil_conv)
qed

lemma tok_word_Nil: "tok_word D s = [] \<Longrightarrow> tok_skip D s = s \<and> tok_rest D s = []"
  using tok_split [of D s]
  by (simp add: tok_word_Nil_iff [symmetric])
     (metis append_Nil2 dropWhile.simps(1) tok_rest_def tok_word_Nil_iff append_self_conv2)

lemma tok_length: "length (tok_skip D s) + (length (tok_word D s) + length (tok_rest D s)) = length s"
  using arg_cong [OF tok_split [of D s], of length] by simp

lemma tok_rest_shorter: "tok_word D s \<noteq> [] \<Longrightarrow> length (tl (tok_rest D s)) < length s"
  using tok_length [of D s] by (cases "tok_word D s") auto

function tokens :: "u8 set \<Rightarrow> u8 list \<Rightarrow> u8 list list" where
  "tokens D s =
     (if tok_word D s = [] then [] else tok_word D s # tokens D (tl (tok_rest D s)))"
  by pat_completeness auto
termination
  by (relation "measure (\<lambda>(D, s). length s)") (auto simp: tok_rest_shorter simp del: length_tl)

declare tokens.simps [simp del]

text \<open>One call of \<^verbatim>\<open>strtok_r\<close> on a string.\<close>

lemma strtok_r_none:
  assumes "cstr m d ds" and "cstr m p s" and "tok_word (set ds) s = []"
    and "(if str0 = 0 then save else str0) = p"
  shows "strtok_r m str0 d save = Some (0, p + of_nat (length s), m)"
proof -
  have "m (p + of_nat (length s)) = 0" using assms(2) by (simp add: cstr_nth)
  moreover have "strspn m p d = Some (of_nat (length s))"
    using tok_word_Nil [OF assms(3)] strspn_cstr [OF assms(1,2)]
    by (simp add: tok_skip_def del: takeWhile_eq_all_conv)
  ultimately show ?thesis using assms(4) by (simp add: strtok_r_def Let_def)
qed

lemma strtok_r_token:
  assumes d: "cstr m d ds" and p: "cstr m p s" and w: "tok_word (set ds) s \<noteq> []"
    and arg: "(if str0 = 0 then save else str0) = p"
    and nowrap: "unat p + length s < 2 ^ 32"
  defines "q \<equiv> p + of_nat (length (tok_skip (set ds) s))"
  defines "e \<equiv> q + of_nat (length (tok_word (set ds) s))"
  shows "strtok_r m str0 d save =
    Some (if tok_rest (set ds) s = [] then (q, e, m) else (q, e + 1, m(e := 0)))"
proof -
  let ?D = "set ds"
  let ?r = "tok_word ?D s @ tok_rest ?D s"
  have split: "cstr m p (tok_skip ?D s @ ?r)" using p by (simp add: tok_split)
  then have r: "cstr m q ?r" unfolding q_def by (rule cstr_suffix)
  have "m q \<noteq> 0" using r w by (cases "tok_word ?D s") auto
  have spn: "strspn m p d = Some (of_nat (length (tok_skip ?D s)))"
    using strspn_cstr [OF d p] by (simp add: tok_skip_def)
  have r_eq: "?r = dropWhile (\<lambda>c. c \<in> ?D) s" by (simp add: tok_word_def tok_rest_def)
  have hit: "(\<exists>c \<in> set ?r. c \<in> ?D) \<longleftrightarrow> tok_rest ?D s \<noteq> []"
  proof -
    have "(\<exists>c \<in> set (dropWhile (\<lambda>c. c \<in> ?D) s). c \<in> ?D) \<longleftrightarrow>
        dropWhile (\<lambda>c. c \<notin> ?D) (dropWhile (\<lambda>c. c \<in> ?D) s) \<noteq> []"
      unfolding dropWhile_eq_Nil_conv by blast
    then show ?thesis by (subst r_eq) (simp only: tok_rest_def)
  qed
  have "takeWhile (\<lambda>c. c \<notin> ?D) ?r = tok_word ?D s"
    unfolding r_eq by (simp add: tok_word_def)
  then have pbrk: "strpbrk m q d = Some (if tok_rest ?D s \<noteq> [] then e else 0)"
    using strpbrk_cstr [OF d r] by (simp only: hit e_def)
  have "length (tok_skip ?D s) + length (tok_word ?D s) \<le> length s"
    using tok_length [of ?D s] by simp
  then have "unat p + (length (tok_skip ?D s) + length (tok_word ?D s)) < 2 ^ 32"
    using nowrap by linarith
  then have "unat e = unat p + (length (tok_skip ?D s) + length (tok_word ?D s))"
    unfolding e_def q_def by (simp add: unat_word_ariths unat_of_nat)
  then have "e \<noteq> 0" using w by (auto simp: unat_0_iff [symmetric])
  have "lfind m q 0 = Some e" if "tok_rest ?D s = []"
    using lfind_end [OF r] that by (simp add: e_def)
  then show ?thesis
    using arg spn \<open>m q \<noteq> 0\<close> \<open>e \<noteq> 0\<close> pbrk by (simp add: strtok_r_def Let_def flip: q_def)
qed

lemma strtok_r_strings:
  fixes D :: "u8 set"
  assumes p: "cstr m p s"
  defines "q \<equiv> p + of_nat (length (tok_skip D s))"
  defines "e \<equiv> q + of_nat (length (tok_word D s))"
  shows "tok_rest D s = [] \<Longrightarrow> cstr m q (tok_word D s) \<and> cstr m e []"
    and "tok_rest D s \<noteq> [] \<Longrightarrow>
      cstr (m(e := 0)) q (tok_word D s) \<and> cstr (m(e := 0)) (e + 1) (tl (tok_rest D s))"
proof -
  have "cstr m p (tok_skip D s @ tok_word D s @ tok_rest D s)" using p by (simp add: tok_split)
  then have r: "cstr m q (tok_word D s @ tok_rest D s)" unfolding q_def by (rule cstr_suffix)
  show "cstr m q (tok_word D s) \<and> cstr m e []" if "tok_rest D s = []"
    using r that by (simp add: e_def cstr_nth)
  show "cstr (m(e := 0)) q (tok_word D s) \<and> cstr (m(e := 0)) (e + 1) (tl (tok_rest D s))"
    if "tok_rest D s \<noteq> []"
    using r that cstr_cut [of m q "tok_word D s"] by (cases "tok_rest D s") (auto simp: e_def)
qed

section \<open>What \<^verbatim>\<open>atoi\<close> computes\<close>

lemma atoi_loop_0 [simp]: "atoi_loop m p 0 out w = out"
  by (simp add: atoi_loop.simps)

lemma atoi_loop_Suc:
  "i \<noteq> 0 \<Longrightarrow> atoi_loop m p i out w =
     atoi_loop m p (i + 1) (out + (scast (m (p + (i - 1))) - 48) * w) (w * 80)"
  by (simp add: atoi_loop.simps [of m p i] word_gt_0)

declare atoi_loop.simps [simp del]

definition atoi_digit :: "mem \<Rightarrow> u32 \<Rightarrow> u32 \<Rightarrow> u32" where
  "atoi_digit m p i = scast (m (p + i)) - 48"

text \<open>Once the weight has wrapped to 0 the rest of the sweep changes nothing.\<close>

lemma atoi_loop_weight_0: "atoi_loop m p i out 0 = out"
proof (induction m p i out "0 :: u32" rule: atoi_loop.induct)
  case (1 m p i out)
  show ?case
  proof (cases "i = 0")
    case False
    then have "i > 0" by (simp add: word_gt_0)
    from "1" [OF this] have "atoi_loop m p (i + 1) out 0 = out" by simp
    with False show ?thesis by (subst atoi_loop_Suc) simp_all
  qed simp
qed

lemma atoi_loop_steps:
  "(\<And>k. k < n \<Longrightarrow> i + of_nat k \<noteq> 0) \<Longrightarrow> atoi_loop m p i out w =
     atoi_loop m p (i + of_nat n)
       (out + w * (\<Sum>k < n. atoi_digit m p (i - 1 + of_nat k) * 80 ^ k)) (w * 80 ^ n)"
proof (induction n)
  case (Suc n)
  then have "i + of_nat n \<noteq> 0" by blast
  with Suc show ?case by (simp add: atoi_loop_Suc atoi_digit_def algebra_simps)
qed simp

lemma atoi_loop_eight:
  assumes "i \<noteq> 0" and "unat i + 8 \<le> 2 ^ 32"
  shows "atoi_loop m p i out 1 = out + (\<Sum>k < 8. atoi_digit m p (i - 1 + of_nat k) * 80 ^ k)"
proof -
  have "i + of_nat k \<noteq> 0" if "k < 8" for k
  proof -
    have "unat i + k < 2 ^ 32" and "k < 2 ^ 32" using assms(2) that by linarith+
    then have "unat (i + of_nat k) = unat i + k"
      by (simp add: unat_word_ariths unat_of_nat)
    then show ?thesis using assms(1) by (auto simp: unat_0_iff [symmetric])
  qed
  then have "atoi_loop m p i out 1 = atoi_loop m p (i + of_nat 8)
      (out + (\<Sum>k < 8. atoi_digit m p (i - 1 + of_nat k) * 80 ^ k)) (80 ^ 8)"
    by (subst atoi_loop_steps [of 8 i]) simp_all
  moreover have "(80 :: u32) ^ 8 = 0" by (simp add: word_unat_eq_iff)
  ultimately show ?thesis by (simp only: atoi_loop_weight_0)
qed

section \<open>Tokens of a string\<close>

definition apart_from_string :: "u32 \<Rightarrow> u8 list \<Rightarrow> u32 \<Rightarrow> u8 list \<Rightarrow> bool" where
  "apart_from_string p s d ds \<longleftrightarrow>
     (\<forall>k \<le> length ds. \<not> in_range p (Suc (length s)) (d + of_nat k))"

text \<open>One call yields the first token, and leaves a string with the remaining tokens.\<close>

lemma strtok_r_first:
  assumes d: "cstr m d ds" and p: "cstr m p s" and arg: "(if str0 = 0 then save else str0) = p"
    and nowrap: "unat p + length s < 2 ^ 32" and nz: "p \<noteq> 0" and apart: "apart_from_string p s d ds"
    and toks: "tokens (set ds) s = w # ws"
  shows "\<exists>tok save' m' rest. strtok_r m str0 d save = Some (tok, save', m') \<and> tok \<noteq> 0 \<and>
    cstr m' tok w \<and> cstr m' save' rest \<and> tokens (set ds) rest = ws \<and> cstr m' d ds"
proof -
  let ?D = "set ds"
  define q where "q = p + of_nat (length (tok_skip ?D s))"
  define e where "e = q + of_nat (length (tok_word ?D s))"
  have w: "tok_word ?D s \<noteq> []" "w = tok_word ?D s" "ws = tokens ?D (tl (tok_rest ?D s))"
    using toks by (auto simp: tokens.simps [of ?D s] split: if_splits)
  note len = tok_length [of ?D s]
  have call: "strtok_r m str0 d save =
      Some (if tok_rest ?D s = [] then (q, e, m) else (q, e + 1, m(e := 0)))"
    unfolding e_def q_def using d p w(1) arg nowrap by (rule strtok_r_token)
  have "unat q = unat p + length (tok_skip ?D s)"
    using nowrap len unfolding q_def by (intro unat_add_small) linarith
  then have q: "q \<noteq> 0" using nz by (auto simp: unat_eq_0)
  have e: "e = p + of_nat (length (tok_skip ?D s) + length (tok_word ?D s))"
    by (simp add: e_def q_def)
  have "in_range p (Suc (length s)) e"
    unfolding e using len nowrap by (intro in_range_offset) linarith+
  then have d': "cstr (m(e := 0)) d ds"
    using d apart by (subst cstr_cong [where m' = m]) (auto simp: apart_from_string_def)
  show ?thesis
  proof (cases "tok_rest ?D s = []")
    case True
    then have "cstr m q w" "cstr m e []"
      using strtok_r_strings(1) [OF p, of ?D] w(2) by (simp_all add: q_def e_def)
    moreover have "tokens ?D [] = ws" using True w(3) by simp
    ultimately show ?thesis using call True q d
      by (intro exI [of _ q] exI [of _ e] exI [of _ m] exI [of _ "[]"]) simp
  next
    case False
    then have "cstr (m(e := 0)) q w" "cstr (m(e := 0)) (e + 1) (tl (tok_rest ?D s))"
      using strtok_r_strings(2) [OF p, of ?D] w(2) by (simp_all add: q_def e_def)
    then show ?thesis using call False q d' w(3) by auto
  qed
qed

lemma tokens_Nil_iff: "tokens D s = [] \<longleftrightarrow> tok_word D s = []"
  by (simp add: tokens.simps [of D s])

lemma atoi_formula:
  assumes "cstr m p s" and "s \<noteq> []" and "length s + 8 \<le> 2 ^ 32"
  shows "atoi m p = Some (\<Sum>k < 8. atoi_digit m p (of_nat (length s - 1 + k)) * 80 ^ k)"
proof -
  let ?n = "of_nat (length s) :: u32"
  have n: "unat ?n = length s" using assms(3) by (intro unat_of_nat_small) simp
  then have nz: "?n \<noteq> 0" using assms(2) by (metis length_0_conv unat_0)
  have "?n - 1 + of_nat k = of_nat (length s - 1 + k)" for k
    using assms(2) by (cases s) simp_all
  then show ?thesis
    using atoi_loop_eight [OF nz, of m p 0] assms(1,3) n
    by (simp add: atoi_def strlen_cstr del: of_nat_add)
qed

section \<open>Laying out a string\<close>

definition with_string :: "u32 \<Rightarrow> u8 list \<Rightarrow> mem \<Rightarrow> mem" where
  "with_string p cs m x =
     (if unat (x - p) < length cs then cs ! unat (x - p)
      else if unat (x - p) = length cs then 0 else m x)"

lemma cstr_with_string:
  assumes "0 \<notin> set cs" and "length cs < 2 ^ 32"
  shows "cstr (with_string p cs m) p cs"
proof -
  have "unat (of_nat k :: u32) = k" if "k \<le> length cs" for k
    using that assms(2) by (intro unat_of_nat_small) linarith
  then show ?thesis
    using assms(1) by (auto simp: cstr_nth with_string_def) (metis nth_mem)
qed

lemma with_string_outside:
  "\<not> in_range p (Suc (length cs)) x \<Longrightarrow> with_string p cs m x = m x"
  by (auto simp: with_string_def in_range_def)

section \<open>Properties\<close>

text \<open>\<^verbatim>\<open>memcpy\<close> copies the original source bytes to the destination, and changes no other
  byte, whenever the destination does not start inside the source; the blocks may wrap around
  the address space.\<close>

theorem memcpy_copies:
  assumes "unat (src - dest) + unat count \<le> 2 ^ 32"
  shows "memcpy m dest src count x =
    (if in_range dest (unat count) x then m (src + (x - dest)) else m x)"
  using assms by (rule memcpy_apply)

theorem memcpy_copies_witness:
  "memcpy (\<lambda>a. ucast a) 32 16 4 34 = (18 :: u8)"
  using memcpy_copies [of 16 32 4 "\<lambda>a. ucast a" 34] by (simp add: in_range_def)

text \<open>\<^verbatim>\<open>memset\<close> stores the low byte of its argument in exactly the bytes of the block.\<close>

theorem memset_fills:
  "memset m b v count x = (if in_range b (unat count) x then ucast v else m x)"
  by (rule memset_apply)

text \<open>C37: \<^verbatim>\<open>strlen\<close> returns \<open>n\<close> exactly when a string of \<open>n\<close> non-zero bytes and a terminator
  is at the address, and runs forever exactly when the whole memory holds no zero byte.\<close>

theorem strlen_exact:
  "(strlen m p = Some n \<longleftrightarrow> (\<exists>s. cstr m p s \<and> n = of_nat (length s))) \<and>
   (strlen m p = None \<longleftrightarrow> (\<forall>a. m a \<noteq> 0))"
proof (intro conjI iffI)
  assume len: "strlen m p = Some n"
  then obtain a where "m a = 0" using strlen_returns_iff [of m p] by auto
  then obtain s where "cstr m p s" using cstr_exists by blast
  then show "\<exists>s. cstr m p s \<and> n = of_nat (length s)" using len strlen_cstr [of m p s] by auto
qed (use strlen_returns_iff [of m p] in \<open>auto simp: strlen_cstr\<close>)

text \<open>on two strings \<^verbatim>\<open>strcmp\<close> returns; its result is 0 exactly for equal strings, it is
  negated when the arguments are swapped, and it is the lexicographic comparison of the
  characters as signed bytes.\<close>

theorem strcmp_orders:
  assumes "cstr m a s" and "cstr m b t"
  shows "strcmp m a b = Some (strcmp_spec s t) \<and> strcmp m b a = Some (- strcmp_spec s t) \<and>
    (strcmp_spec s t = 0 \<longleftrightarrow> s = t)"
  using strcmp_cstr [OF assms] strcmp_cstr [OF assms(2,1)] strcmp_spec_swap [of s t]
    cstr_no_NUL [OF assms(1)] cstr_no_NUL [OF assms(2)]
  by simp

definition two_strings :: mem where
  "two_strings = (\<lambda>_. 0)(16 := 0x61, 17 := 0x62, 32 := 0x61, 33 := 0xE9)"

theorem strcmp_orders_witness:
  "strcmp two_strings 16 32 = Some 1 \<and> strcmp two_strings 32 16 = Some (- 1)"
  using strcmp_orders [of two_strings 16 "[0x61, 0x62]" 32 "[0x61, 0xE9]"]
  by (simp add: two_strings_def)

text \<open>\<^verbatim>\<open>strtok_r\<close> yields the tokens of a string in order.  A call on a string with a token
  left returns a non-null pointer to the first token, now terminated, and leaves in
  \<^verbatim>\<open>*saveptr\<close> a string whose tokens are the remaining ones, without touching the
  delimiters; with no token left it returns NULL and changes nothing.\<close>

theorem strtok_r_tokens:
  assumes "cstr m d ds" and "cstr m p s" and "(if str0 = 0 then save else str0) = p"
    and "unat p + length s < 2 ^ 32" and "p \<noteq> 0" and "apart_from_string p s d ds"
  shows "case tokens (set ds) s of
      [] \<Rightarrow> strtok_r m str0 d save = Some (0, p + of_nat (length s), m)
    | w # ws \<Rightarrow> \<exists>tok save' m' rest. strtok_r m str0 d save = Some (tok, save', m') \<and> tok \<noteq> 0 \<and>
        cstr m' tok w \<and> cstr m' save' rest \<and> tokens (set ds) rest = ws \<and> cstr m' d ds"
proof (cases "tokens (set ds) s")
  case Nil
  then have "tok_word (set ds) s = []" by (simp add: tokens_Nil_iff)
  then show ?thesis using strtok_r_none [OF assms(1,2) _ assms(3)] by (simp add: Nil)
next
  case (Cons w ws)
  then show ?thesis using strtok_r_first [OF assms] by simp
qed

definition words_string :: mem where
  "words_string = (\<lambda>_. 0)(16 := 0x20, 17 := 0x61, 18 := 0x20, 19 := 0x62, 32 := 0x20)"

theorem strtok_r_tokens_witness:
  "\<exists>tok save' m'. strtok_r words_string 16 32 0 = Some (tok, save', m') \<and> cstr m' tok [0x61]"
  using strtok_r_tokens [of words_string 32 "[0x20]" 16 "[0x20, 0x61, 0x20, 0x62]" 16 0]
  by (auto simp: words_string_def apart_from_string_def in_range_def tokens.simps tok_word_def
        tok_rest_def le_Suc_eq)

text \<open>\<^verbatim>\<open>atoi\<close> is not the decimal value of its argument: it reads the eight bytes from the
  last character of the string on, past its terminator, and weighs them with powers of 80.\<close>

theorem atoi_reads_past_the_end:
  assumes "cstr m p s" and "s \<noteq> []" and "length s + 8 \<le> 2 ^ 32"
  shows "atoi m p = Some (\<Sum>k < 8. atoi_digit m p (of_nat (length s - 1 + k)) * 80 ^ k)"
  using assms by (rule atoi_formula)

theorem atoi_reads_past_the_end_witness:
  "atoi ((\<lambda>_. 0x30)(16 := 0x31, 17 := 0)) 16 = Some (1 - 48 * 80)"
proof -
  have eight: "{..<8 :: nat} = {0, 1, 2, 3, 4, 5, 6, 7}" by auto
  show ?thesis
    using atoi_reads_past_the_end [of "(\<lambda>_. 0x30)(16 := 0x31, 17 := 0)" 16 "[0x31]"]
    by (simp add: atoi_digit_def eight)
qed

end
