(* ===== verification/Console.thy ===== *)
theory Console
  imports CString
begin

text \<open>
  The serial port driver (\<^verbatim>\<open>kernel/core/serial.c\<close>) and the VGA text console
  (\<^verbatim>\<open>kernel/core/vga.c\<close>).  The text buffer is the part of the flat memory at
  \<open>textmemptr\<close>, 80 columns by 25 rows of 16-bit cells.  Every character written is also
  sent to the serial port, so \<open>writech\<close> returns only if the port accepts it.
\<close>

section \<open>serial.c\<close>

definition SERIAL_PORT_A :: u16 where
  "SERIAL_PORT_A = 0x3F8"

definition serial_rcvd :: "'a machine_scheme \<Rightarrow> u32 \<times> 'a machine_scheme" where
  "serial_rcvd s = (let (b, s) = inportb (SERIAL_PORT_A + 5) s in (ucast b AND 1, s))"

partial_function (option) serial_recv :: "'a machine_scheme \<Rightarrow> (u8 \<times> 'a machine_scheme) option" where
  "serial_recv s = (case serial_rcvd s of
     (r, s1) \<Rightarrow> if r = 0 then serial_recv s1 else Some (inportb SERIAL_PORT_A s1))"

definition serial_transmit_empty :: "'a machine_scheme \<Rightarrow> u32 \<times> 'a machine_scheme" where
  "serial_transmit_empty s =
     (let (b, s) = inportb (SERIAL_PORT_A + 5) s in (ucast b AND 0x20, s))"

partial_function (option) serial_send :: "u8 \<Rightarrow> 'a machine_scheme \<Rightarrow> 'a machine_scheme option" where
  "serial_send out s = (case serial_transmit_empty s of
     (r, s1) \<Rightarrow> if r = 0 then serial_send out s1 else Some (outportb SERIAL_PORT_A out s1))"

section \<open>vga.c\<close>

record console = machine +
  textmemptr :: u32
  attrib :: u32
  csr_x :: int
  csr_y :: int

definition blank_of :: "'a console_scheme \<Rightarrow> u16" where
  "blank_of s = ucast (0x20 OR push_bit 8 (attrib s))"

definition scroll :: "'a console_scheme \<Rightarrow> 'a console_scheme" where
  "scroll s = (if csr_y s \<ge> 25 then
     (let temp = (of_int (csr_y s) - 25 + 1 :: u32);
          t = textmemptr s;
          m1 = memcpy (mem s) t (t + 2 * (temp * 80)) ((25 - temp) * 80 * 2);
          m2 = memsetw m1 (t + 2 * ((25 - temp) * 80)) (blank_of s) 80
      in s\<lparr>mem := m2, csr_y := 25 - 1\<rparr>)
     else s)"

definition move_csr :: "'a console_scheme \<Rightarrow> 'a console_scheme" where
  "move_csr s =
     (let temp = (of_int (csr_y s * 80 + csr_x s) :: u32)
      in outportb 0x3D5 (ucast temp) (outportb 0x3D4 15
           (outportb 0x3D5 (ucast (drop_bit 8 temp)) (outportb 0x3D4 14 s))))"

fun cls_loop :: "nat \<Rightarrow> nat \<Rightarrow> 'a console_scheme \<Rightarrow> 'a console_scheme" where
  "cls_loop 0 i s = s"
| "cls_loop (Suc n) i s =
     cls_loop n (Suc i) (s\<lparr>mem := memsetw (mem s) (textmemptr s + 2 * (of_nat i * 80)) (blank_of s) 80\<rparr>)"

definition cls :: "'a console_scheme \<Rightarrow> 'a console_scheme" where
  "cls s = move_csr ((cls_loop 25 0 s)\<lparr>csr_x := 0, csr_y := 0\<rparr>)"

text \<open>\<^verbatim>\<open>placech\<close> as written: the shifted attribute \<^verbatim>\<open>att\<close> is computed but \<^verbatim>\<open>attr\<close> is stored.\<close>

definition placech :: "u8 \<Rightarrow> int \<Rightarrow> int \<Rightarrow> u32 \<Rightarrow> 'a console_scheme \<Rightarrow> 'a console_scheme" where
  "placech c x y attr s =
     s\<lparr>mem := st16 (mem s) (textmemptr s + 2 * of_int (y * 80 + x)) (ucast (ucast c OR attr))\<rparr>"

definition writechf :: "u8 \<Rightarrow> 'a console_scheme \<Rightarrow> 'a console_scheme" where
  "writechf c s =
     (let s1 = placech c (csr_x s) (csr_y s) (attrib s) s;
          s2 = s1\<lparr>csr_x := csr_x s1 + 1\<rparr>;
          s3 = (if csr_x s2 \<ge> 80 then s2\<lparr>csr_x := 0, csr_y := csr_y s2 + 1\<rparr> else s2)
      in move_csr (scroll s3))"

definition writech_char :: "u8 \<Rightarrow> 'a console_scheme \<Rightarrow> 'a console_scheme" where
  "writech_char c s =
     (let att = push_bit 8 (attrib s) in
      if c = 0x08 then (if csr_x s \<noteq> 0 then s\<lparr>csr_x := csr_x s - 1\<rparr> else s)
      else if c = 0x09 then s\<lparr>csr_x := (csr_x s + 8) AND NOT (8 - 1)\<rparr>
      else if c = 13 then s\<lparr>csr_x := 0\<rparr>
      else if c = 10 then s\<lparr>csr_x := 0, csr_y := csr_y s + 1\<rparr>
      else if c \<ge> 0x20 then
        s\<lparr>mem := st16 (mem s) (textmemptr s + 2 * of_int (csr_y s * 80 + csr_x s))
                  (ucast (ucast c OR att)),
          csr_x := csr_x s + 1\<rparr>
      else s)"

definition writech :: "u8 \<Rightarrow> 'a console_scheme \<Rightarrow> 'a console_scheme option" where
  "writech c s =
     (case serial_send c (writech_char c s) of None \<Rightarrow> None
      | Some s1 \<Rightarrow>
          (let s2 = (if csr_x s1 \<ge> 80 then s1\<lparr>csr_x := 0, csr_y := csr_y s1 + 1\<rparr> else s1)
           in Some (move_csr (scroll s2))))"

fun puts_loop :: "nat \<Rightarrow> u32 \<Rightarrow> u32 \<Rightarrow> 'a console_scheme \<Rightarrow> 'a console_scheme option" where
  "puts_loop 0 text i s = Some s"
| "puts_loop (Suc n) text i s =
     (case writech (mem s (text + i)) s of None \<Rightarrow> None
      | Some s1 \<Rightarrow> puts_loop n text (i + 1) s1)"

definition puts :: "u32 \<Rightarrow> 'a console_scheme \<Rightarrow> 'a console_scheme option" where
  "puts text s = (case strlen (mem s) text of None \<Rightarrow> None
     | Some len \<Rightarrow> puts_loop (nat (sint len)) text 0 s)"

definition settextcolor :: "u8 \<Rightarrow> u8 \<Rightarrow> 'a console_scheme \<Rightarrow> 'a console_scheme" where
  "settextcolor forecolor backcolor s =
     s\<lparr>attrib := push_bit 4 (ucast backcolor) OR (ucast forecolor AND 0x0F)\<rparr>"

definition resettextcolor :: "'a console_scheme \<Rightarrow> 'a console_scheme" where
  "resettextcolor s = settextcolor 15 0 s"

definition init_video :: "'a console_scheme \<Rightarrow> 'a console_scheme" where
  "init_video s = move_csr (s\<lparr>textmemptr := 0xB8000, csr_y := 10\<rparr>)"

section \<open>The serial port\<close>

text \<open>
  The port is ready at the \<open>n\<close>-th access when its line status register has the transmit
  bit set.  \<open>serial_send\<close> polls until then, and returns exactly when that happens.
\<close>

definition tx_ready :: "'a machine_scheme \<Rightarrow> nat \<Rightarrow> bool" where
  "tx_ready s n \<longleftrightarrow> (ucast (env s n (SERIAL_PORT_A + 5)) AND 0x20 :: u32) \<noteq> 0"

definition uart_live :: "'a machine_scheme \<Rightarrow> bool" where
  "uart_live s \<longleftrightarrow> (\<forall>n. \<exists>k \<ge> n. tx_ready s k)"

lemma serial_send_step:
  "serial_send out s = (if tx_ready s (io_clock s)
     then Some (outportb SERIAL_PORT_A out (s\<lparr>io_clock := Suc (io_clock s)\<rparr>))
     else serial_send out (s\<lparr>io_clock := Suc (io_clock s)\<rparr>))"
  by (subst serial_send.simps)
     (simp add: serial_transmit_empty_def inportb_def tx_ready_def)

lemma tx_ready_clock [simp]: "tx_ready (s\<lparr>io_clock := n\<rparr>) = tx_ready s"
  by (simp add: tx_ready_def fun_eq_iff)

lemma serial_send_waits:
  "(\<And>k. k < n \<Longrightarrow> \<not> tx_ready s (io_clock s + k)) \<Longrightarrow>
     serial_send out s = serial_send out (s\<lparr>io_clock := io_clock s + n\<rparr>)"
proof (induction n)
  case (Suc n)
  then have "\<not> tx_ready s (io_clock s + n)" by blast
  with Suc show ?case by (simp add: serial_send_step [of _ "s\<lparr>io_clock := _\<rparr>"])
qed simp

lemma serial_send_ready:
  assumes "tx_ready s (io_clock s + n)" and "\<And>k. k < n \<Longrightarrow> \<not> tx_ready s (io_clock s + k)"
  shows "serial_send out s =
    Some (outportb SERIAL_PORT_A out (s\<lparr>io_clock := Suc (io_clock s + n)\<rparr>))"
  using assms(1) serial_send_waits [of n s, OF assms(2)]
  by (simp add: serial_send_step [of _ "s\<lparr>io_clock := _\<rparr>"])

lemma serial_send_returns:
  assumes "serial_send out s = Some s'"
  shows "\<exists>n. tx_ready s (io_clock s + n) \<and> (\<forall>k < n. \<not> tx_ready s (io_clock s + k))"
proof -
  have "\<exists>n. tx_ready s (io_clock s + n)"
  proof (rule serial_send.raw_induct [where P = "\<lambda>out s s'. \<exists>n. tx_ready s (io_clock s + n)",
        OF _ assms])
    fix f :: "u8 \<Rightarrow> 'a machine_scheme \<Rightarrow> 'a machine_scheme option"
    fix out s s'
    assume IH: "\<And>out s s'. f out s = Some s' \<Longrightarrow> \<exists>n. tx_ready s (io_clock s + n)"
      and eq: "(case serial_transmit_empty s of (r, s1) \<Rightarrow>
          if r = 0 then f out s1 else Some (outportb SERIAL_PORT_A out s1)) = Some s'"
    show "\<exists>n. tx_ready s (io_clock s + n)"
    proof (cases "tx_ready s (io_clock s)")
      case True
      then show ?thesis by (intro exI [of _ 0]) simp
    next
      case False
      then have "f out (s\<lparr>io_clock := Suc (io_clock s)\<rparr>) = Some s'"
        using eq by (simp add: serial_transmit_empty_def inportb_def tx_ready_def)
      then obtain n where "tx_ready s (io_clock s + Suc n)" using IH by force
      then show ?thesis ..
    qed
  qed
  then show ?thesis using exists_least_iff [of "\<lambda>n. tx_ready s (io_clock s + n)"] by blast
qed

lemma serial_send_unique:
  assumes "serial_send out s = Some s'"
  obtains n where "s' = outportb SERIAL_PORT_A out (s\<lparr>io_clock := n\<rparr>)"
  using serial_send_returns [OF assms] serial_send_ready assms by (metis option.inject)

lemma serial_send_live:
  assumes "uart_live s"
  obtains n where "serial_send out s = Some (outportb SERIAL_PORT_A out (s\<lparr>io_clock := n\<rparr>))"
proof -
  obtain k where "k \<ge> io_clock s" "tx_ready s k" using assms unfolding uart_live_def by blast
  then have "\<exists>n. tx_ready s (io_clock s + n)" by (metis le_Suc_ex)
  then obtain n where "tx_ready s (io_clock s + n)" "\<forall>k < n. \<not> tx_ready s (io_clock s + k)"
    using exists_least_iff [of "\<lambda>n. tx_ready s (io_clock s + n)"] by blast
  then have "serial_send out s =
      Some (outportb SERIAL_PORT_A out (s\<lparr>io_clock := Suc (io_clock s + n)\<rparr>))"
    by (intro serial_send_ready) auto
  then show ?thesis by (rule that)
qed

lemma uart_live_cong: "env s' = env s \<Longrightarrow> uart_live s' = uart_live s"
  by (simp add: uart_live_def tx_ready_def)

section \<open>Cells of the text buffer\<close>

lemma memsetw_cells:
  assumes "j + n < 2 ^ 31" and "k < 2 ^ 31"
  shows "i \<le> n \<Longrightarrow> cell16 (memsetw_loop m (b + of_nat (2 * j)) v (int i) (int n)) b k =
    (if j + i \<le> k \<and> k < j + n then v else cell16 m b k)"
proof (induction "n - i" arbitrary: m i)
  case 0
  then show ?case by (auto simp: memsetw_loop.simps)
next
  case (Suc d)
  then have i: "i < n" by simp
  have at: "b + of_nat (2 * j) + 2 * of_int (int i) = b + of_nat (2 * (j + i))" by simp
  let ?m = "st16 m (b + of_nat (2 * (j + i))) v"
  have "memsetw_loop m (b + of_nat (2 * j)) v (int i) (int n) =
      memsetw_loop ?m (b + of_nat (2 * j)) v (int (Suc i)) (int n)"
    using i by (subst memsetw_loop.simps) (simp add: algebra_simps)
  moreover have "cell16 (memsetw_loop ?m (b + of_nat (2 * j)) v (int (Suc i)) (int n)) b k =
      (if j + Suc i \<le> k \<and> k < j + n then v else cell16 ?m b k)"
    using Suc by (intro Suc.hyps(1)) simp_all
  moreover have "cell16 ?m b k = (if k = j + i then v else cell16 m b k)"
    using assms i by (intro cell16_st16) simp_all
  ultimately show ?case using i by auto
qed

lemma memsetw_cell16:
  assumes "j + n < 2 ^ 31" and "k < 2 ^ 31"
  shows "cell16 (memsetw m (b + of_nat (2 * j)) v (int n)) b k =
    (if j \<le> k \<and> k < j + n then v else cell16 m b k)"
  using memsetw_cells [OF assms, of 0] by (simp add: memsetw_def)

lemma st16_outside:
  assumes "\<not> in_range b L x" and "k + 1 < L" and "L \<le> 2 ^ 32"
  shows "st16 m (b + of_nat k) v x = m x"
proof -
  have "in_range b L (b + of_nat k)" and "in_range b L (b + of_nat (Suc k))"
    using assms(2,3) by (simp_all del: of_nat_Suc)
  then have "x \<noteq> b + of_nat k" "x \<noteq> b + of_nat k + 1" using assms(1) by (auto simp: ac_simps)
  then show ?thesis by (simp add: st16_def)
qed

lemma memsetw_outside_loop:
  assumes "\<not> in_range b L x" and "2 * (j + n) \<le> L" and "L \<le> 2 ^ 32"
  shows "i \<le> n \<Longrightarrow> memsetw_loop m (b + of_nat (2 * j)) v (int i) (int n) x = m x"
proof (induction "n - i" arbitrary: m i)
  case 0
  then show ?case by (simp add: memsetw_loop.simps)
next
  case (Suc d)
  then have i: "i < n" by simp
  let ?m = "st16 m (b + of_nat (2 * (j + i))) v"
  have "memsetw_loop m (b + of_nat (2 * j)) v (int i) (int n) =
      memsetw_loop ?m (b + of_nat (2 * j)) v (int (Suc i)) (int n)"
    using i by (subst memsetw_loop.simps) (simp add: algebra_simps)
  moreover have "memsetw_loop ?m (b + of_nat (2 * j)) v (int (Suc i)) (int n) x = ?m x"
    using Suc by (intro Suc.hyps(1)) simp_all
  moreover have "?m x = m x"
    using assms i by (intro st16_outside) simp_all
  ultimately show ?case by simp
qed

lemma memsetw_outside:
  assumes "\<not> in_range b L x" and "2 * (j + n) \<le> L" and "L \<le> 2 ^ 32"
  shows "memsetw m (b + of_nat (2 * j)) v (int n) x = m x"
  using memsetw_outside_loop [OF assms, of 0] by (simp add: memsetw_def)

lemma memcpy_cell16:
  assumes copy: "unat (src - dest) + unat count \<le> 2 ^ 32"
    and k: "2 * k + 1 < unat count"
  shows "cell16 (memcpy m dest src count) dest k = cell16 m src k"
proof -
  have "unat count < 2 ^ 32" using unsigned_less [of count] by simp
  then have *: "in_range dest (unat count) (dest + of_nat (2 * k))"
    "in_range dest (unat count) (dest + of_nat (2 * k) + 1)"
    using k in_range_offset [of "unat count" "2 * k" dest]
      in_range_offset [of "unat count" "Suc (2 * k)" dest] by (simp_all add: ac_simps)
  show ?thesis
    unfolding cell16_def ld16_def memcpy_apply [OF copy] using *
    by (simp add: algebra_simps)
qed

lemma scroll_cells:
  assumes "csr_y s = 25" and k: "k < 2000"
  shows "cell16 (mem (scroll s)) (textmemptr s) k =
    (if k < 1920 then cell16 (mem s) (textmemptr s) (k + 80) else blank_of s)"
proof -
  let ?t = "textmemptr s"
  let ?m = "memcpy (mem s) ?t (?t + 160) 3840"
  have mem: "mem (scroll s) = memsetw ?m (?t + of_nat (2 * 1920)) (blank_of s) (int 80)"
    using assms by (simp add: scroll_def Let_def)
  have "cell16 (mem (scroll s)) ?t k = (if 1920 \<le> k then blank_of s else cell16 ?m ?t k)"
    unfolding mem using k by (subst memsetw_cell16) simp_all
  moreover have "cell16 ?m ?t k = cell16 (mem s) (?t + 160) k" if "k < 1920"
    using that by (intro memcpy_cell16) simp_all
  moreover have "cell16 (mem s) (?t + 160) k = cell16 (mem s) ?t (k + 80)"
    by (simp add: cell16_def algebra_simps)
  ultimately show ?thesis by simp
qed

lemma scroll_outside:
  assumes "csr_y s \<le> 25" and "\<not> in_range (textmemptr s) 4000 x"
  shows "mem (scroll s) x = mem s x"
proof (cases "csr_y s = 25")
  case True
  let ?t = "textmemptr s"
  let ?m = "memcpy (mem s) ?t (?t + 160) 3840"
  have "mem (scroll s) = memsetw ?m (?t + of_nat (2 * 1920)) (blank_of s) (int 80)"
    using True by (simp add: scroll_def Let_def)
  moreover have "memsetw ?m (?t + of_nat (2 * 1920)) (blank_of s) (int 80) x = ?m x"
    using assms(2) by (intro memsetw_outside [of _ 4000]) simp_all
  moreover have "?m x = mem s x"
  proof -
    have "\<not> in_range ?t (unat (3840 :: u32)) x"
      using assms(2) in_range_mono [of ?t "unat (3840 :: u32)" x 4000] by auto
    then show ?thesis by (intro memcpy_outside) simp_all
  qed
  ultimately show ?thesis by simp
qed (use assms in \<open>simp add: scroll_def\<close>)

lemma scroll_still [simp]: "csr_y s < 25 \<Longrightarrow> scroll s = s"
  by (simp add: scroll_def)

lemma scroll_fields [simp]:
  "textmemptr (scroll s) = textmemptr s" "attrib (scroll s) = attrib s"
  "csr_x (scroll s) = csr_x s" "csr_y (scroll s) = (if csr_y s \<ge> 25 then 24 else csr_y s)"
  "ports_out (scroll s) = ports_out s" "env (scroll s) = env s" "io_clock (scroll s) = io_clock s"
  by (simp_all add: scroll_def Let_def)

lemma outportb_fields [simp]:
  "mem (outportb p v s) = mem s" "env (outportb p v s) = env s"
  "io_clock (outportb p v s) = io_clock s"
  "ports_out (outportb p v s) = ports_out s @ [(p, v)]"
  by (simp_all add: outportb_def)

lemma outportb_console [simp]:
  "textmemptr (outportb p v s) = textmemptr s" "attrib (outportb p v s) = attrib s"
  "csr_x (outportb p v s) = csr_x s" "csr_y (outportb p v s) = csr_y s"
  by (simp_all add: outportb_def)

text \<open>The four port writes that move the hardware cursor to cell \<open>n\<close>.\<close>

definition cursor_trace :: "u32 \<Rightarrow> (u16 \<times> u8) list" where
  "cursor_trace n = [(0x3D4, 14), (0x3D5, ucast (drop_bit 8 n)), (0x3D4, 15), (0x3D5, ucast n)]"

lemma move_csr_fields [simp]:
  "mem (move_csr s) = mem s" "env (move_csr s) = env s" "textmemptr (move_csr s) = textmemptr s"
  "attrib (move_csr s) = attrib s" "csr_x (move_csr s) = csr_x s" "csr_y (move_csr s) = csr_y s"
  "ports_out (move_csr s) = ports_out s @ cursor_trace (of_int (csr_y s * 80 + csr_x s))"
  by (simp_all add: move_csr_def Let_def cursor_trace_def)

section \<open>An abstract terminal\<close>

text \<open>
  What the console promises: a 25 by 80 grid, a cursor, and a colour.  \<open>term_put\<close> is the
  behaviour of one character on it; the theorem below says \<^verbatim>\<open>writech\<close> refines it.
\<close>

record terminal =
  grid :: "nat \<Rightarrow> nat \<Rightarrow> u16"
  cur_x :: nat
  cur_y :: nat
  colour :: u32

definition term_blank :: "terminal \<Rightarrow> u16" where
  "term_blank t = ucast (0x20 OR push_bit 8 (colour t))"

definition term_newline :: "terminal \<Rightarrow> terminal" where
  "term_newline t =
     (if cur_y t = 24
      then t\<lparr>grid := (\<lambda>r c. if r < 24 then grid t (Suc r) c
                          else if r = 24 \<and> c < 80 then term_blank t else 0), cur_x := 0\<rparr>
      else t\<lparr>cur_x := 0, cur_y := Suc (cur_y t)\<rparr>)"

definition term_advance :: "nat \<Rightarrow> terminal \<Rightarrow> terminal" where
  "term_advance x t = (if x < 80 then t\<lparr>cur_x := x\<rparr> else term_newline t)"

definition term_put :: "u8 \<Rightarrow> terminal \<Rightarrow> terminal" where
  "term_put c t =
     (if c = 8 then t\<lparr>cur_x := cur_x t - 1\<rparr>
      else if c = 9 then term_advance (8 * (cur_x t div 8 + 1)) t
      else if c = 13 then t\<lparr>cur_x := 0\<rparr>
      else if c = 10 then term_newline t
      else if c \<ge> 0x20 then
        term_advance (Suc (cur_x t))
          (t\<lparr>grid := (grid t)(cur_y t := (grid t (cur_y t))(cur_x t :=
                 ucast (ucast c OR push_bit 8 (colour t))))\<rparr>)
      else t)"

definition term_of :: "'a console_scheme \<Rightarrow> terminal" where
  "term_of s = \<lparr>
     grid = (\<lambda>r c. if r < 25 \<and> c < 80 then cell16 (mem s) (textmemptr s) (80 * r + c) else 0),
     cur_x = nat (csr_x s), cur_y = nat (csr_y s), colour = attrib s\<rparr>"

definition console_ok :: "'a console_scheme \<Rightarrow> bool" where
  "console_ok s \<longleftrightarrow> 0 \<le> csr_x s \<and> csr_x s < 80 \<and> 0 \<le> csr_y s \<and> csr_y s < 25"

section \<open>The console refines the terminal\<close>

lemma int_tab_stop: "(a :: int) AND - 8 = 8 * (a div 8)"
proof -
  have "a AND NOT (mask 3) = push_bit 3 (drop_bit 3 a)"
    by (rule bit_eqI) (auto simp: bit_simps)
  then show ?thesis by (simp add: push_bit_eq_mult drop_bit_eq_div mask_numeral)
qed

lemma term_of_newline:
  assumes "0 \<le> csr_y s" and "csr_y s < 25"
  shows "term_of (scroll (s\<lparr>csr_x := 0, csr_y := csr_y s + 1\<rparr>)) = term_newline (term_of s)"
proof (cases "csr_y s = 24")
  case True
  let ?s = "s\<lparr>csr_x := 0, csr_y := csr_y s + 1\<rparr>"
  have "cell16 (mem (scroll ?s)) (textmemptr s) (80 * r + c) =
      (if r < 24 then cell16 (mem s) (textmemptr s) (80 * Suc r + c) else blank_of s)"
    if "r < 25" "c < 80" for r c
    using scroll_cells [of ?s "80 * r + c"] that True by (auto simp: blank_of_def algebra_simps)
  note cells = this this [of 24, simplified]
  show ?thesis
    using True cells
    by (auto simp: term_of_def term_newline_def term_blank_def blank_of_def fun_eq_iff)
next
  case False
  with assms have "csr_y s + 1 < 25" by simp
  then show ?thesis
    using assms False
    by (auto simp: term_of_def term_newline_def nat_add_distrib fun_eq_iff)
qed

lemma term_of_advance:
  assumes "0 \<le> csr_y s" and "csr_y s < 25" and "0 \<le> csr_x s"
  shows "term_of (scroll (if csr_x s \<ge> 80 then s\<lparr>csr_x := 0, csr_y := csr_y s + 1\<rparr> else s)) =
    term_advance (nat (csr_x s)) (term_of s)"
  using assms term_of_newline [OF assms(1,2)]
  by (simp add: term_advance_def) (simp add: term_of_def)

lemma term_of_cong:
  "mem s = mem s' \<Longrightarrow> textmemptr s = textmemptr s' \<Longrightarrow> csr_x s = csr_x s' \<Longrightarrow> csr_y s = csr_y s' \<Longrightarrow>
     attrib s = attrib s' \<Longrightarrow> term_of s = term_of s'"
  by (simp add: term_of_def cong: if_cong)

lemma term_of_outportb [simp]: "term_of (outportb p v s) = term_of s"
  by (rule term_of_cong) simp_all

lemma term_of_clock [simp]: "term_of (s\<lparr>io_clock := n\<rparr>) = term_of s"
  by (rule term_of_cong) simp_all

lemma term_of_move_csr [simp]: "term_of (move_csr s) = term_of s"
  by (rule term_of_cong) simp_all

lemma cell_address:
  assumes "0 \<le> x" and "0 \<le> y"
  shows "(p :: u32) + 2 * of_int (y * 80 + x) = p + of_nat (2 * (80 * nat y + nat x))"
proof -
  have "y * 80 + x = int (80 * nat y + nat x)" using assms by simp
  then show ?thesis by (simp only: of_int_of_nat_eq) simp
qed

lemma grid_position: "c < 80 \<Longrightarrow> x < 80 \<Longrightarrow> 80 * r + c = 80 * y + (x::nat) \<longleftrightarrow> r = y \<and> c = x"
proof
  assume "c < 80" "x < 80" and eq: "80 * r + c = 80 * y + x"
  then have "(80 * r + c) div 80 = r" "(80 * y + x) div 80 = y" by simp_all
  with eq have "r = y" by simp
  with eq show "r = y \<and> c = x" by simp
qed simp

lemma term_of_store:
  assumes "console_ok s"
  shows "term_of (s\<lparr>mem := st16 (mem s) (textmemptr s + 2 * of_int (csr_y s * 80 + csr_x s)) v\<rparr>) =
    (term_of s)\<lparr>grid := (grid (term_of s))(cur_y (term_of s) :=
       (grid (term_of s) (cur_y (term_of s)))(cur_x (term_of s) := v))\<rparr>"
proof -
  let ?x = "nat (csr_x s)" and ?y = "nat (csr_y s)"
  have xy: "?x < 80" "?y < 25" "0 \<le> csr_x s" "0 \<le> csr_y s"
    using assms by (auto simp: console_ok_def)
  have "cell16 (st16 (mem s) (textmemptr s + 2 * of_int (csr_y s * 80 + csr_x s)) v)
      (textmemptr s) (80 * r + c)
    = (if r = ?y \<and> c = ?x then v else cell16 (mem s) (textmemptr s) (80 * r + c))"
    if "r < 25" "c < 80" for r c
    unfolding cell_address [OF xy(3,4)] using that xy
    by (subst cell16_st16) (simp_all add: grid_position)
  then show ?thesis using xy by (auto simp: term_of_def fun_eq_iff)
qed

text \<open>The state between the character and the line wrap: the port has been written.\<close>

definition wrap_line :: "'a console_scheme \<Rightarrow> 'a console_scheme" where
  "wrap_line s = scroll (if csr_x s \<ge> 80 then s\<lparr>csr_x := 0, csr_y := csr_y s + 1\<rparr> else s)"

lemma writech_eq:
  assumes "writech c s = Some s'"
  obtains n where "s' = move_csr (wrap_line
    (outportb SERIAL_PORT_A c ((writech_char c s)\<lparr>io_clock := n\<rparr>)))"
proof -
  from assms obtain s1 where s1: "serial_send c (writech_char c s) = Some s1"
    and s': "s' = move_csr (wrap_line s1)"
    by (auto simp: writech_def wrap_line_def Let_def split: option.splits)
  from s1 obtain n where "s1 = outportb SERIAL_PORT_A c ((writech_char c s)\<lparr>io_clock := n\<rparr>)"
    by (rule serial_send_unique)
  with s' show ?thesis using that by blast
qed

lemma scroll_mem_cong:
  "mem s = mem s' \<Longrightarrow> textmemptr s = textmemptr s' \<Longrightarrow> csr_y s = csr_y s' \<Longrightarrow>
     attrib s = attrib s' \<Longrightarrow> mem (scroll s) = mem (scroll s')"
  by (simp add: scroll_def blank_of_def Let_def)

lemma wrap_line_cong:
  "mem s = mem s' \<Longrightarrow> textmemptr s = textmemptr s' \<Longrightarrow> csr_x s = csr_x s' \<Longrightarrow> csr_y s = csr_y s' \<Longrightarrow>
     attrib s = attrib s' \<Longrightarrow> term_of (wrap_line s) = term_of (wrap_line s')"
  using scroll_mem_cong [of s s']
    scroll_mem_cong [of "s\<lparr>csr_x := 0, csr_y := csr_y s + 1\<rparr>" "s'\<lparr>csr_x := 0, csr_y := csr_y s' + 1\<rparr>"]
  unfolding wrap_line_def by (intro term_of_cong) simp_all

lemma wrap_line_step:
  "term_of (wrap_line (outportb p v (s\<lparr>io_clock := n\<rparr>))) = term_of (wrap_line s)"
  by (rule wrap_line_cong) simp_all

lemma wrap_line_advance:
  assumes "0 \<le> csr_y s" and "csr_y s < 25" and "0 \<le> csr_x s"
  shows "term_of (wrap_line s) = term_advance (nat (csr_x s)) (term_of s)"
  using term_of_advance [OF assms] by (simp add: wrap_line_def)

lemma term_of_x: "0 \<le> x \<Longrightarrow> term_of (s\<lparr>csr_x := x\<rparr>) = (term_of s)\<lparr>cur_x := nat x\<rparr>"
  by (simp add: term_of_def cong: if_cong)

lemma term_advance_x: "term_advance x (t\<lparr>cur_x := y\<rparr>) = term_advance x t"
  by (simp add: term_advance_def term_newline_def term_blank_def cong: if_cong)

lemma wrap_line_x:
  assumes "console_ok s" and "0 \<le> x"
  shows "term_of (wrap_line (s\<lparr>csr_x := x\<rparr>)) = term_advance (nat x) (term_of s)"
  using assms wrap_line_advance [of "s\<lparr>csr_x := x\<rparr>"]
  by (simp add: console_ok_def term_of_x term_advance_x)

lemma wrap_line_term:
  assumes ok: "console_ok s"
  shows "term_of (wrap_line (writech_char c s)) = term_put c (term_of s)"
proof -
  have xy: "0 \<le> csr_x s" "csr_x s < 80" "0 \<le> csr_y s" "csr_y s < 25"
    using ok by (auto simp: console_ok_def)
  have cur: "cur_x (term_of s) = nat (csr_x s)" "colour (term_of s) = attrib s"
    by (simp_all add: term_of_def)
  consider "c = 8" | "c = 9" | "c = 13" | "c = 10" | "c \<notin> {8, 9, 10, 13}" "c \<ge> 0x20"
    | "c \<notin> {8, 9, 10, 13}" "\<not> c \<ge> 0x20" by blast
  then show ?thesis
  proof cases
    case 1
    then have "writech_char c s = (if csr_x s \<noteq> 0 then s\<lparr>csr_x := csr_x s - 1\<rparr> else s\<lparr>csr_x := 0\<rparr>)"
      by (simp add: writech_char_def Let_def)
    with 1 show ?thesis using wrap_line_x [OF ok, of "csr_x s - 1"] wrap_line_x [OF ok, of 0] xy cur
      by (simp add: term_put_def term_advance_def nat_diff_distrib')
  next
    case 2
    then have "writech_char c s = s\<lparr>csr_x := 8 * (csr_x s div 8 + 1)\<rparr>"
      using div_add_self2 [of 8 "csr_x s"] by (simp add: writech_char_def Let_def int_tab_stop)
    with 2 show ?thesis using wrap_line_x [OF ok, of "8 * (csr_x s div 8 + 1)"] xy cur
      by (simp add: term_put_def nat_mult_distrib nat_add_distrib nat_div_distrib add.commute)
  next
    case 3
    then have "writech_char c s = s\<lparr>csr_x := 0\<rparr>" by (simp add: writech_char_def Let_def)
    with 3 show ?thesis using wrap_line_x [OF ok, of 0] by (simp add: term_put_def term_advance_def)
  next
    case 4
    then have "writech_char c s = s\<lparr>csr_x := 0, csr_y := csr_y s + 1\<rparr>"
      by (simp add: writech_char_def Let_def)
    with 4 show ?thesis using term_of_newline [OF xy(3,4)]
      by (simp add: term_put_def wrap_line_def)
  next
    case 5
    define v :: u16 where "v = ucast (ucast c OR push_bit 8 (attrib s))"
    define s' where "s' = s\<lparr>mem :=
      st16 (mem s) (textmemptr s + 2 * of_int (csr_y s * 80 + csr_x s)) v\<rparr>"
    have w: "writech_char c s = s'\<lparr>csr_x := csr_x s + 1\<rparr>"
      using 5 by (simp add: writech_char_def Let_def s'_def v_def)
    have ok': "console_ok s'" using ok by (simp add: console_ok_def s'_def)
    have "term_of s' = (term_of s)\<lparr>grid := (grid (term_of s))(cur_y (term_of s) :=
        (grid (term_of s) (cur_y (term_of s)))(cur_x (term_of s) := v))\<rparr>"
      unfolding s'_def by (rule term_of_store [OF ok])
    then show ?thesis
      unfolding w using 5 wrap_line_x [OF ok', of "csr_x s + 1"] xy cur
      by (simp add: term_put_def nat_add_distrib v_def)
  next
    case 6
    then have "writech_char c s = s\<lparr>csr_x := csr_x s\<rparr>" by (simp add: writech_char_def Let_def)
    with 6 show ?thesis using wrap_line_x [OF ok, of "csr_x s"] xy cur
      by (simp add: term_put_def term_advance_def)
  qed
qed

lemma writech_char_bounds:
  assumes "console_ok s"
  shows "0 \<le> csr_x (writech_char c s)" "csr_x (writech_char c s) \<le> 80"
    "0 \<le> csr_y (writech_char c s)" "csr_y (writech_char c s) \<le> 25"
    "csr_y (writech_char c s) = 25 \<Longrightarrow> csr_x (writech_char c s) = 0"
    "textmemptr (writech_char c s) = textmemptr s" "env (writech_char c s) = env s"
    "ports_out (writech_char c s) = ports_out s"
  using assms by (auto simp: console_ok_def writech_char_def Let_def int_tab_stop split: if_splits)

lemma wrap_line_ok:
  assumes "0 \<le> csr_x s" "csr_x s \<le> 80" "0 \<le> csr_y s" "csr_y s \<le> 25" "csr_y s = 25 \<Longrightarrow> csr_x s = 0"
  shows "console_ok (wrap_line s)"
  using assms by (auto simp: console_ok_def wrap_line_def)

lemma console_ok_io [simp]:
  "console_ok (move_csr s) = console_ok s" "console_ok (outportb p v s) = console_ok s"
  "console_ok (s\<lparr>io_clock := n\<rparr>) = console_ok s"
  by (simp_all add: console_ok_def)

lemma writech_ok:
  assumes "console_ok s" and "writech c s = Some s'"
  shows "console_ok s'"
  using assms(2)
proof (rule writech_eq)
  fix n assume "s' = move_csr (wrap_line
      (outportb SERIAL_PORT_A c ((writech_char c s)\<lparr>io_clock := n\<rparr>)))"
  then show ?thesis using writech_char_bounds [OF assms(1), of c] by (auto intro!: wrap_line_ok)
qed

lemma writech_term:
  assumes "console_ok s" and "writech c s = Some s'"
  shows "term_of s' = term_put c (term_of s)"
  using assms(2)
proof (rule writech_eq)
  fix n assume "s' = move_csr (wrap_line
      (outportb SERIAL_PORT_A c ((writech_char c s)\<lparr>io_clock := n\<rparr>)))"
  then show ?thesis by (simp add: wrap_line_step wrap_line_term [OF assms(1)])
qed

section \<open>What a character leaves alone\<close>

definition outside_buffer :: "'a console_scheme \<Rightarrow> mem" where
  "outside_buffer s = (\<lambda>x. if in_range (textmemptr s) 4000 x then 0 else mem s x)"

lemma outside_bufferD:
  "outside_buffer s' = outside_buffer s \<Longrightarrow> textmemptr s' = textmemptr s \<Longrightarrow>
     \<not> in_range (textmemptr s) 4000 x \<Longrightarrow> mem s' x = mem s x"
  unfolding outside_buffer_def by (drule fun_cong [of _ _ x]) simp

lemma writech_char_outside:
  assumes "console_ok s" and "\<not> in_range (textmemptr s) 4000 x"
  shows "mem (writech_char c s) x = mem s x"
proof -
  have xy: "0 \<le> csr_x s" "csr_x s < 80" "0 \<le> csr_y s" "csr_y s < 25"
    using assms(1) by (auto simp: console_ok_def)
  have "st16 (mem s) (textmemptr s + 2 * of_int (csr_y s * 80 + csr_x s)) v x = mem s x" for v
    unfolding cell_address [OF xy(1,3)]
    using xy assms(2) by (intro st16_outside [of _ 4000]) auto
  then show ?thesis by (simp add: writech_char_def Let_def)
qed

lemma wrap_line_outside:
  assumes "csr_y s \<le> 25" and "csr_y s = 25 \<Longrightarrow> csr_x s < 80"
    and "\<not> in_range (textmemptr s) 4000 x"
  shows "mem (wrap_line s) x = mem s x"
proof (cases "csr_x s \<ge> 80")
  case True
  then have "csr_y s + 1 \<le> 25" using assms(1,2) by linarith
  with True assms(3) show ?thesis by (simp add: wrap_line_def scroll_outside)
next
  case False
  with assms show ?thesis by (simp add: wrap_line_def scroll_outside)
qed

lemma wrap_line_fields [simp]:
  "textmemptr (wrap_line s) = textmemptr s" "attrib (wrap_line s) = attrib s"
  "env (wrap_line s) = env s" "ports_out (wrap_line s) = ports_out s"
  by (simp_all add: wrap_line_def)

lemma writech_fields:
  assumes "console_ok s" and "writech c s = Some s'"
  shows "textmemptr s' = textmemptr s" and "env s' = env s"
    and "outside_buffer s' = outside_buffer s"
    and "\<exists>n. ports_out s' = ports_out s @ (SERIAL_PORT_A, c) # cursor_trace n"
proof -
  obtain n where s': "s' = move_csr (wrap_line
      (outportb SERIAL_PORT_A c ((writech_char c s)\<lparr>io_clock := n\<rparr>)))"
    using assms(2) by (rule writech_eq)
  note b = writech_char_bounds [OF assms(1), of c]
  show "textmemptr s' = textmemptr s" and "env s' = env s"
    and "\<exists>n. ports_out s' = ports_out s @ (SERIAL_PORT_A, c) # cursor_trace n"
    using b by (auto simp: s')
  have "mem s' x = mem s x" if "\<not> in_range (textmemptr s) 4000 x" for x
  proof -
    let ?s = "outportb SERIAL_PORT_A c ((writech_char c s)\<lparr>io_clock := n\<rparr>)"
    have "mem (wrap_line ?s) x = mem ?s x"
      using b that by (intro wrap_line_outside) auto
    then show ?thesis using that by (simp add: s' writech_char_outside [OF assms(1)])
  qed
  then show "outside_buffer s' = outside_buffer s"
    by (auto simp: outside_buffer_def \<open>textmemptr s' = textmemptr s\<close> fun_eq_iff)
qed

lemma writech_returns:
  assumes "uart_live s"
  shows "\<exists>s'. writech c s = Some s'"
proof -
  have "env (writech_char c s) = env s" by (simp add: writech_char_def Let_def)
  then have "uart_live (writech_char c s)" using assms by (rule uart_live_cong [THEN iffD2])
  then obtain n where "serial_send c (writech_char c s) =
      Some (outportb SERIAL_PORT_A c ((writech_char c s)\<lparr>io_clock := n\<rparr>))"
    by (rule serial_send_live)
  then show ?thesis by (simp add: writech_def Let_def)
qed

section \<open>Character devices\<close>

text \<open>
  The interface \<^verbatim>\<open>puts\<close> and the printing code above it use: an operation that accepts a
  character, refines a step of an abstract device, and always returns.
\<close>

fun send_all :: "(u8 \<Rightarrow> 's \<Rightarrow> 's option) \<Rightarrow> u8 list \<Rightarrow> 's \<Rightarrow> 's option" where
  "send_all put [] s = Some s"
| "send_all put (c # cs) s = (case put c s of None \<Rightarrow> None | Some s' \<Rightarrow> send_all put cs s')"

locale char_device =
  fixes put :: "u8 \<Rightarrow> 's \<Rightarrow> 's option"
    and ok :: "'s \<Rightarrow> bool"
    and view :: "'s \<Rightarrow> 'v"
    and step :: "u8 \<Rightarrow> 'v \<Rightarrow> 'v"
  assumes put_returns: "ok s \<Longrightarrow> \<exists>s'. put c s = Some s'"
    and put_ok: "ok s \<Longrightarrow> put c s = Some s' \<Longrightarrow> ok s'"
    and put_view: "ok s \<Longrightarrow> put c s = Some s' \<Longrightarrow> view s' = step c (view s)"
begin

lemma put_obtain:
  assumes "ok s"
  obtains s' where "put c s = Some s'" and "ok s'" and "view s' = step c (view s)"
  using put_returns [OF assms, of c] put_ok [OF assms] put_view [OF assms] by blast

lemma send_all_view:
  "ok s \<Longrightarrow> \<exists>s'. send_all put cs s = Some s' \<and> ok s' \<and> view s' = fold step cs (view s)"
proof (induction cs arbitrary: s)
  case (Cons c cs)
  obtain s' where s': "put c s = Some s'" "ok s'" "view s' = step c (view s)"
    using Cons.prems by (rule put_obtain)
  from Cons.IH [OF s'(2)] s' show ?case by simp
qed simp

end

definition console_live :: "'a console_scheme \<Rightarrow> bool" where
  "console_live s \<longleftrightarrow> console_ok s \<and> uart_live s"

text \<open>What a client of the console can rely on: the screen, and the rest of the memory.\<close>

definition console_view :: "'a console_scheme \<Rightarrow> terminal \<times> u32 \<times> mem" where
  "console_view s = (term_of s, textmemptr s, outside_buffer s)"

definition console_step :: "u8 \<Rightarrow> terminal \<times> u32 \<times> mem \<Rightarrow> terminal \<times> u32 \<times> mem" where
  "console_step c v = (term_put c (fst v), snd v)"

interpretation vga: char_device writech console_live console_view console_step
proof unfold_locales
  fix s :: "'a console_scheme" and c s'
  assume live: "console_live s"
  then have ok: "console_ok s" and uart: "uart_live s" by (simp_all add: console_live_def)
  show "\<exists>s'. writech c s = Some s'" using uart by (rule writech_returns)
  assume w: "writech c s = Some s'"
  show "console_live s'"
    using writech_ok [OF ok w] uart_live_cong [OF writech_fields(2) [OF ok w]] uart
    by (simp add: console_live_def)
  show "console_view s' = console_step c (console_view s)"
    using writech_fields [OF ok w] writech_term [OF ok w]
    by (simp add: console_view_def console_step_def)
qed

lemma console_step_fold: "fold console_step cs (t, v) = (fold term_put cs t, v)"
  by (induction cs arbitrary: t) (simp_all add: console_step_def)

lemma send_console:
  assumes "console_live s"
  obtains s' where "send_all writech cs s = Some s'" and "console_live s'"
    and "term_of s' = fold term_put cs (term_of s)" and "textmemptr s' = textmemptr s"
    and "outside_buffer s' = outside_buffer s"
proof -
  obtain s' where "send_all writech cs s = Some s'" "console_live s'"
    "console_view s' = fold console_step cs (console_view s)"
    using vga.send_all_view [OF assms] by blast
  then show ?thesis using that by (simp add: console_view_def console_step_fold)
qed

text \<open>\<^verbatim>\<open>puts\<close> sends the characters of its string, re-reading the memory before each of them.\<close>

lemma puts_loop_send_all:
  assumes "console_live s" and "\<And>k. k < length cs \<Longrightarrow> mem s (text + i + of_nat k) = cs ! k"
    and "\<And>k. k < length cs \<Longrightarrow> \<not> in_range (textmemptr s) 4000 (text + i + of_nat k)"
  shows "puts_loop (length cs) text i s = send_all writech cs s"
  using assms
proof (induction cs arbitrary: s i)
  case (Cons c cs)
  obtain s' where s': "writech c s = Some s'" "console_live s'"
    "console_view s' = console_step c (console_view s)"
    using Cons.prems(1) by (rule vga.put_obtain)
  then have same: "textmemptr s' = textmemptr s" "outside_buffer s' = outside_buffer s"
    by (simp_all add: console_view_def console_step_def)
  have "puts_loop (length cs) text (i + 1) s' = send_all writech cs s'"
  proof (rule Cons.IH [OF s'(2)])
    fix k assume "k < length cs"
    then have "Suc k < length (c # cs)" by simp
    from Cons.prems(2) [OF this] Cons.prems(3) [OF this]
    show "mem s' (text + (i + 1) + of_nat k) = cs ! k"
      and "\<not> in_range (textmemptr s') 4000 (text + (i + 1) + of_nat k)"
      by (simp_all add: outside_bufferD [OF same(2,1)] same(1) ac_simps)
  qed
  moreover have "mem s (text + i) = c" using Cons.prems(2) [of 0] by simp
  ultimately show ?case by (simp add: s'(1))
qed simp

lemma puts_send_all:
  assumes "console_live s" and "cstr (mem s) text cs" and "length cs < 2 ^ 31"
    and "\<And>k. k < length cs \<Longrightarrow> \<not> in_range (textmemptr s) 4000 (text + of_nat k)"
  shows "puts text s = send_all writech cs s"
proof -
  have "nat (sint (of_nat (length cs) :: u32)) = length cs"
    using assms(3) by (simp add: signed_of_nat signed_take_bit_int_eq_self)
  moreover have "puts_loop (length cs) text 0 s = send_all writech cs s"
    using assms by (intro puts_loop_send_all) (simp_all add: cstr_nth)
  ultimately show ?thesis
    using strlen_cstr [OF assms(2)] by (simp add: puts_def)
qed

section \<open>Extensions of the console state\<close>

text \<open>The state of the components above the console is the \<open>more\<close> part of its record.\<close>

lemma scroll_more [simp]: "console.more (scroll s) = console.more s"
  by (simp add: scroll_def Let_def)

lemma move_csr_more [simp]: "console.more (move_csr s) = console.more s"
  by (cases s) (simp add: move_csr_def outportb_def Let_def)

lemma writech_char_more [simp]: "console.more (writech_char c s) = console.more s"
  by (simp add: writech_char_def Let_def)

lemma outportb_more [simp]: "console.more (outportb p v s) = console.more s"
  by (cases s) (simp add: outportb_def)

lemma clock_more [simp]: "console.more (s\<lparr>io_clock := n\<rparr>) = console.more s"
  by (cases s) simp

lemma writech_more:
  assumes "writech c s = Some s'"
  shows "console.more s' = console.more s"
  using assms by (rule writech_eq) (simp add: wrap_line_def)

lemma send_all_more:
  "send_all writech cs s = Some s' \<Longrightarrow> console.more s' = console.more s"
  by (induction cs arbitrary: s) (auto split: option.splits dest: writech_more)

text \<open>Two states with the same cells in the text buffer show the same screen.\<close>

lemma term_of_mem_cong:
  assumes "\<And>x. in_range (textmemptr s) 4000 x \<Longrightarrow> mem s x = mem s' x"
    and "textmemptr s' = textmemptr s" "csr_x s' = csr_x s" "csr_y s' = csr_y s" "attrib s' = attrib s"
  shows "term_of s' = term_of s"
proof -
  have "cell16 (mem s) (textmemptr s) (80 * r + c) = cell16 (mem s') (textmemptr s) (80 * r + c)"
    if "r < 25" "c < 80" for r c
  proof -
    have "in_range (textmemptr s) 4000 (textmemptr s + of_nat (2 * (80 * r + c)))"
      and "in_range (textmemptr s) 4000 (textmemptr s + of_nat (Suc (2 * (80 * r + c))))"
      using that by (intro in_range_offset; simp)+
    then show ?thesis
      using assms(1) unfolding cell16_def by (intro ld16_cong) (simp_all add: ac_simps)
  qed
  then show ?thesis using assms(2-) by (auto simp: term_of_def fun_eq_iff)
qed

section \<open>Clearing the screen\<close>

lemma cls_loop_fields [simp]:
  "textmemptr (cls_loop n i s) = textmemptr s" "attrib (cls_loop n i s) = attrib s"
  by (induction n arbitrary: i s) simp_all

lemma cls_loop_cells:
  "i + n \<le> 25 \<Longrightarrow> k < 2000 \<Longrightarrow> cell16 (mem (cls_loop n i s)) (textmemptr s) k =
     (if 80 * i \<le> k \<and> k < 80 * (i + n) then blank_of s else cell16 (mem s) (textmemptr s) k)"
proof (induction n arbitrary: i s)
  case (Suc n)
  let ?s = "s\<lparr>mem := memsetw (mem s) (textmemptr s + 2 * (of_nat i * 80)) (blank_of s) 80\<rparr>"
  have at: "textmemptr s + 2 * (of_nat i * 80) = textmemptr s + of_nat (2 * (80 * i))"
    by (simp add: mult.commute)
  have "cell16 (mem ?s) (textmemptr s) k =
      (if 80 * i \<le> k \<and> k < 80 * i + 80 then blank_of s else cell16 (mem s) (textmemptr s) k)"
    using memsetw_cell16 [of "80 * i" 80 k "mem s" "textmemptr s" "blank_of s"] Suc.prems
    by (simp add: at)
  moreover have "blank_of ?s = blank_of s" by (simp add: blank_of_def)
  ultimately show ?case using Suc.IH [of "Suc i" ?s] Suc.prems by auto
qed auto

lemma cls_term:
  "term_of (cls s) = \<lparr>grid = (\<lambda>r c. if r < 25 \<and> c < 80 then blank_of s else 0),
     cur_x = 0, cur_y = 0, colour = attrib s\<rparr>"
  using cls_loop_cells [of 0 25 _ s]
  by (auto simp: cls_def term_of_def fun_eq_iff)

section \<open>Properties\<close>

text \<open>C36: \<^verbatim>\<open>serial_send\<close> returns exactly when the line status register reports an empty
  transmitter at some later poll; it then has polled up to the first such time and written
  the character once.  With a transmitter that is never empty it does not return.\<close>

theorem serial_send_exact:
  "serial_send out s = Some s' \<longleftrightarrow>
     (\<exists>n. tx_ready s (io_clock s + n) \<and> (\<forall>k < n. \<not> tx_ready s (io_clock s + k)) \<and>
        s' = outportb SERIAL_PORT_A out (s\<lparr>io_clock := Suc (io_clock s + n)\<rparr>))"
proof
  assume sent: "serial_send out s = Some s'"
  then obtain n where n: "tx_ready s (io_clock s + n)" "\<forall>k < n. \<not> tx_ready s (io_clock s + k)"
    using serial_send_returns by blast
  then have "s' = outportb SERIAL_PORT_A out (s\<lparr>io_clock := Suc (io_clock s + n)\<rparr>)"
    using sent serial_send_ready [of s n out] by simp
  then show "\<exists>n. tx_ready s (io_clock s + n) \<and> (\<forall>k < n. \<not> tx_ready s (io_clock s + k)) \<and>
      s' = outportb SERIAL_PORT_A out (s\<lparr>io_clock := Suc (io_clock s + n)\<rparr>)"
    using n by blast
qed (use serial_send_ready in blast)

text \<open>C27: every character written to the console returns (on a serial port that keeps becoming
  ready), moves the screen as the abstract terminal does, scrolling included, keeps the cursor
  on the screen, and changes no byte outside the text buffer.\<close>

theorem writech_refines_terminal:
  assumes "console_ok s" and "uart_live s"
  shows "\<exists>s'. writech c s = Some s' \<and> console_ok s' \<and> uart_live s' \<and>
    term_of s' = term_put c (term_of s) \<and>
    (\<forall>x. \<not> in_range (textmemptr s) 4000 x \<longrightarrow> mem s' x = mem s x)"
proof -
  have "console_live s" using assms by (simp add: console_live_def)
  then obtain s' where s': "writech c s = Some s'" "console_live s'"
    "console_view s' = console_step c (console_view s)" by (rule vga.put_obtain)
  then have "textmemptr s' = textmemptr s" "outside_buffer s' = outside_buffer s"
    "term_of s' = term_put c (term_of s)"
    by (simp_all add: console_view_def console_step_def)
  then show ?thesis using s' outside_bufferD [of s' s] by (auto simp: console_live_def)
qed

text \<open>A machine with zeroed memory whose serial port is always ready.\<close>

definition demo_console :: console where
  "demo_console = \<lparr>mem = (\<lambda>_. 0), ports_out = [], io_clock = 0, env = (\<lambda>_ _. 0x20), cr0 = 0,
     cr3 = 0, textmemptr = 0xB8000, attrib = 0x0F, csr_x = 79, csr_y = 24\<rparr>"

lemma demo_console_live: "console_ok demo_console" "uart_live demo_console"
  by (auto simp: demo_console_def console_ok_def uart_live_def tx_ready_def)

lemma demo_console_put:
  "cur_x (term_put 0x41 (term_of demo_console)) = 0"
  "cur_y (term_put 0x41 (term_of demo_console)) = 24"
  "grid (term_put 0x41 (term_of demo_console)) 23 79 = 0x0F41"
  by (simp_all add: demo_console_def term_of_def term_put_def term_advance_def term_newline_def)

theorem serial_send_exact_witness:
  "serial_send 0x41 demo_console =
     Some (outportb SERIAL_PORT_A 0x41 (demo_console\<lparr>io_clock := 1\<rparr>))"
  unfolding serial_send_exact
  by (intro exI [of _ 0]) (simp add: demo_console_def tx_ready_def)

theorem writech_refines_terminal_witness:
  "\<exists>s'. writech 0x41 demo_console = Some s' \<and> cur_x (term_of s') = 0 \<and> cur_y (term_of s') = 24 \<and>
     grid (term_of s') 23 79 = 0x0F41"
  using writech_refines_terminal [OF demo_console_live, of "0x41"] demo_console_put by auto

text \<open>\<^verbatim>\<open>puts\<close> writes the characters of its string one after another, when the string does not
  lie in the text buffer it is changing.\<close>

theorem puts_prints:
  assumes "console_ok s" and "uart_live s" and "cstr (mem s) text cs" and "length cs < 2 ^ 31"
    and "\<forall>k < length cs. \<not> in_range (textmemptr s) 4000 (text + of_nat k)"
  shows "\<exists>s'. puts text s = Some s' \<and> console_ok s' \<and>
    term_of s' = fold term_put cs (term_of s) \<and>
    (\<forall>x. \<not> in_range (textmemptr s) 4000 x \<longrightarrow> mem s' x = mem s x)"
proof -
  have live: "console_live s" using assms(1,2) by (simp add: console_live_def)
  then obtain s' where s': "send_all writech cs s = Some s'" "console_live s'"
    "term_of s' = fold term_put cs (term_of s)" "textmemptr s' = textmemptr s"
    "outside_buffer s' = outside_buffer s" by (rule send_console)
  moreover have "puts text s = send_all writech cs s"
    using live assms(3-5) by (intro puts_send_all) auto
  ultimately show ?thesis using outside_bufferD [of s' s] by (auto simp: console_live_def)
qed

definition demo_console_text :: console where
  "demo_console_text = demo_console\<lparr>mem := (\<lambda>_. 0)(0x1000 := 0x41)\<rparr>"

lemma demo_console_text_live: "console_ok demo_console_text" "uart_live demo_console_text"
  by (auto simp: demo_console_text_def demo_console_def console_ok_def uart_live_def tx_ready_def)

lemma demo_console_text_put: "cur_x (term_put 0x41 (term_of demo_console_text)) = 0"
  by (simp add: demo_console_text_def demo_console_def term_of_def term_put_def term_advance_def
      term_newline_def)

theorem puts_prints_witness:
  "\<exists>s'. puts 0x1000 demo_console_text = Some s' \<and> cur_x (term_of s') = 0"
proof -
  have "cstr (mem demo_console_text) 0x1000 [0x41]" by (simp add: demo_console_text_def)
  moreover have "\<forall>k < length [0x41 :: u8].
      \<not> in_range (textmemptr demo_console_text) 4000 (0x1000 + of_nat k)"
    by (simp add: demo_console_text_def demo_console_def in_range_def)
  ultimately show ?thesis
    using puts_prints [OF demo_console_text_live, of "0x1000" "[0x41]"] demo_console_text_put by auto
qed

text \<open>\<^verbatim>\<open>cls\<close> leaves a blank screen in the current colour with the cursor at its origin,
  whatever the state was.\<close>

theorem cls_blanks:
  "term_of (cls s) = \<lparr>grid = (\<lambda>r c. if r < 25 \<and> c < 80 then blank_of s else 0),
     cur_x = 0, cur_y = 0, colour = attrib s\<rparr>"
  by (rule cls_term)

text \<open>\<^verbatim>\<open>placech\<close> stores the attribute it was given unshifted, so the colour byte of the
  cell is 0 for every attribute below 256 and the low byte is the character mixed with it.\<close>

theorem placech_loses_colour:
  assumes "unat attr < 256"
  shows "mem (placech c x y attr s) (textmemptr s + 2 * of_int (y * 80 + x) + 1) = 0 \<and>
    mem (placech c x y attr s) (textmemptr s + 2 * of_int (y * 80 + x)) = c OR ucast attr"
proof -
  have "(ucast (drop_bit 8 (ucast (ucast c OR attr) :: u16)) :: u8) = 0"
  proof (rule bit_word_eqI)
    fix n assume "n < LENGTH(8)"
    have "attr = take_bit 8 attr"
      using assms by (simp add: word_unat_eq_iff unsigned_take_bit_eq take_bit_nat_eq_self)
    then have "\<not> bit attr (8 + n)" by (metis bit_take_bit_iff not_add_less1)
    then show "bit (ucast (drop_bit 8 (ucast (ucast c OR attr) :: u16)) :: u8) n = bit (0 :: u8) n"
      by (auto simp: bit_simps dest: bit_imp_le_length)
  qed
  moreover have "(ucast (ucast (ucast c OR attr) :: u16) :: u8) = c OR ucast attr"
    by (rule bit_word_eqI) (auto simp: bit_simps)
  ultimately show ?thesis by (simp add: placech_def st16_def)
qed

theorem placech_loses_colour_witness:
  "mem (placech 0x41 2 1 0x0F demo_console) (0xB8000 + 164 + 1) = 0"
  using placech_loses_colour [of "0x0F" "0x41" 2 1 demo_console] by (simp add: demo_console_def)

end
