(* ===== verification/Kprintf.thy ===== *)
theory Kprintf
  imports Console
begin

text \<open>
  Formatted output and line input, \<^verbatim>\<open>kernel/core/kprintf.c\<close>.  The static output buffer
  \<^verbatim>\<open>buf[1024]\<close> lies at the address \<open>kbuf\<close> the linker chose; nothing in the code bounds
  the index \<^verbatim>\<open>ptr\<close>, and nothing in the model does.  The variadic arguments are the words
  the caller pushed; reading more of them than there are is \<open>Undefined\<close>.
\<close>

datatype kb_handler = kgets_handler_fn  \<comment> \<open>the functions \<^verbatim>\<open>keyboard_buffer_handler\<close> can point to\<close>

record kprintf_state = console +
  kbuf :: u32
  ptr :: u32
  kgets_buffer :: u32
  kgets_collected :: int
  kgets_want :: int
  kgets_newline :: int
  kgets_cancel :: int
  keyboard_buffer_handler :: "kb_handler option"

definition put_buf :: "u8 \<Rightarrow> 'a kprintf_state_scheme \<Rightarrow> 'a kprintf_state_scheme" where
  "put_buf c s = s\<lparr>mem := (mem s)(kbuf s + ptr s := c), ptr := ptr s + 1\<rparr>"

text \<open>\<^verbatim>\<open>parse_num\<close>; a division by a zero base traps and does not return.\<close>

partial_function (option) parse_num ::
  "u32 \<Rightarrow> u32 \<Rightarrow> 'a kprintf_state_scheme \<Rightarrow> 'a kprintf_state_scheme option" where
  "parse_num value base s =
     (if base = 0 then None
      else let n0 = value div base; r0 = value mod base;
               r = (if sint r0 < 0 then r0 + base else r0);
               n = (if sint r0 < 0 then n0 - 1 else n0)
           in Option.bind (if value \<ge> base then parse_num n base s else Some s)
                (\<lambda>s1. Some (put_buf (ucast (r + 0x30)) s1)))"

definition hex_digits :: "u8 list" where
  "hex_digits = [0x30, 0x31, 0x32, 0x33, 0x34, 0x35, 0x36, 0x37, 0x38, 0x39,
                 0x61, 0x62, 0x63, 0x64, 0x65, 0x66]"

fun parse_hex_loop :: "nat \<Rightarrow> u32 \<Rightarrow> 'a kprintf_state_scheme \<Rightarrow> 'a kprintf_state_scheme" where
  "parse_hex_loop 0 value s = s"
| "parse_hex_loop (Suc i) value s =
     parse_hex_loop i value
       (put_buf (hex_digits ! unat (drop_bit (i * 4) value AND 0xF)) s)"

definition parse_hex :: "u32 \<Rightarrow> 'a kprintf_state_scheme \<Rightarrow> 'a kprintf_state_scheme" where
  "parse_hex value s = parse_hex_loop 8 value s"

text \<open>The \<^verbatim>\<open>%s\<close> loop: it reads the memory it is writing to.\<close>

partial_function (option) copy_str ::
  "u32 \<Rightarrow> 'a kprintf_state_scheme \<Rightarrow> 'a kprintf_state_scheme option" where
  "copy_str p s = (if mem s p = 0 then Some s else copy_str (p + 1) (put_buf (mem s p) s))"

definition backslash_char :: "u8 \<Rightarrow> u8 option" where
  "backslash_char c =
     (if c = 0x61 then Some 7 else if c = 0x62 then Some 8 else if c = 0x74 then Some 9
      else if c = 0x6E then Some 10 else if c = 0x72 then Some 13
      else if c = 0x5C then Some 0x5C else None)"

definition va_arg :: "u32 list \<Rightarrow> (u32 \<times> u32 list) run" where
  "va_arg args = (case args of [] \<Rightarrow> halt (Undefined ''va_arg'') | a # as \<Rightarrow> ret (a, as))"

definition lift_run :: "'a option \<Rightarrow> 'a run" where
  "lift_run r = map_option Ret r"

definition percent_conv ::
  "u8 \<Rightarrow> u32 list \<Rightarrow> 'a kprintf_state_scheme \<Rightarrow> (u32 list \<times> 'a kprintf_state_scheme) run" where
  "percent_conv c args s =
     (if c = 0x73 then bind_run (va_arg args) (\<lambda>(a, as).
        bind_run (lift_run (copy_str a s)) (\<lambda>s1. ret (as, s1)))
      else if c = 0x63 then bind_run (va_arg args) (\<lambda>(a, as). ret (as, put_buf (ucast a) s))
      else if c = 0x78 then bind_run (va_arg args) (\<lambda>(a, as). ret (as, parse_hex a s))
      else if c = 0x64 then bind_run (va_arg args) (\<lambda>(a, as).
        bind_run (lift_run (parse_num a 10 s)) (\<lambda>s1. ret (as, s1)))
      else if c = 0x25 then ret (args, put_buf 0x25 s)
      else ret (args, put_buf c s))"

partial_function (option) kprintf_loop ::
  "u32 \<Rightarrow> u32 \<Rightarrow> u32 list \<Rightarrow> 'a kprintf_state_scheme \<Rightarrow> 'a kprintf_state_scheme run" where
  "kprintf_loop fmt i args s =
     (let c = mem s (fmt + i) in
      if c = 0 then ret s
      else if c \<noteq> 0x25 \<and> c \<noteq> 0x5C then kprintf_loop fmt (i + 1) args (put_buf c s)
      else if c = 0x5C then
        kprintf_loop fmt (i + 2) args
          (case backslash_char (mem s (fmt + (i + 1))) of None \<Rightarrow> s | Some e \<Rightarrow> put_buf e s)
      else bind_run (percent_conv (mem s (fmt + (i + 1))) args s)
             (\<lambda>r. kprintf_loop fmt (i + 2) (fst r) (snd r)))"

definition kprintf :: "u32 \<Rightarrow> u32 list \<Rightarrow> 'a kprintf_state_scheme \<Rightarrow> 'a kprintf_state_scheme run" where
  "kprintf fmt args s =
     bind_run (kprintf_loop fmt 0 args (s\<lparr>ptr := 0\<rparr>)) (\<lambda>s1.
       let s2 = s1\<lparr>mem := (mem s1)(kbuf s1 + ptr s1 := 0)\<rparr>
       in lift_run (puts (kbuf s2) s2))"

section \<open>Line input\<close>

text \<open>
  \<^verbatim>\<open>kgets_handler\<close> runs in interrupt context for every character typed.  \<^verbatim>\<open>char\<close> is signed:
  \<^verbatim>\<open>ch < 0x20\<close> also holds for the bytes from 0x80 on.
\<close>

definition kgets_handler ::
  "u8 \<Rightarrow> 'a kprintf_state_scheme \<Rightarrow> 'a kprintf_state_scheme option" where
  "kgets_handler ch s =
     (let store = (\<lambda>s. if kgets_collected s < kgets_want s
            then s\<lparr>mem := (mem s)(kgets_buffer s + of_int (kgets_collected s) := ch),
                   kgets_collected := kgets_collected s + 1\<rparr>
            else s) in
      if ch = 0x08 then
        (if kgets_collected s \<noteq> 0 then
           Option.bind (writech 0x08 s) (\<lambda>s. Option.bind (writech 0x20 s) (\<lambda>s.
             Option.bind (writech 0x08 s) (\<lambda>s.
               Some (s\<lparr>mem := (mem s)(kgets_buffer s + of_int (kgets_collected s) := 0),
                       kgets_collected := kgets_collected s - 1\<rparr>))))
         else Some s)
      else if ch = 10 then Option.bind (Some (s\<lparr>kgets_newline := 1\<rparr>)) (writech 10)
      else if sint ch < 0x20 then
        Option.bind (writech 0x5E s) (\<lambda>s. writech (ch + 0x40) s)
      else Option.bind (writech ch s) (\<lambda>s. Some (store s)))"

definition kgets_start :: "u32 \<Rightarrow> int \<Rightarrow> 'a kprintf_state_scheme \<Rightarrow> 'a kprintf_state_scheme" where
  "kgets_start buffer sz s = s\<lparr>kgets_buffer := buffer, kgets_collected := 0, kgets_want := sz,
     kgets_newline := 0, keyboard_buffer_handler := Some kgets_handler_fn\<rparr>"

text \<open>
  The loop \<^verbatim>\<open>while ((kgets_collected < size) && (!kgets_newline)) hlt\<close>: each \<^verbatim>\<open>hlt\<close> ends when
  an interrupt has delivered the next character; with none left it never ends.
\<close>

fun kgets_wait ::
  "int \<Rightarrow> u8 list \<Rightarrow> 'a kprintf_state_scheme \<Rightarrow> (u8 list \<times> 'a kprintf_state_scheme) option" where
  "kgets_wait sz chars s =
     (if kgets_collected s < sz \<and> kgets_newline s = 0
      then (case chars of [] \<Rightarrow> None
            | ch # cs \<Rightarrow> Option.bind (kgets_handler ch s) (kgets_wait sz cs))
      else Some (chars, s))"

definition kgets_finish :: "u32 \<Rightarrow> 'a kprintf_state_scheme \<Rightarrow> int \<times> 'a kprintf_state_scheme" where
  "kgets_finish buffer s =
     (let s1 = s\<lparr>mem := (mem s)(buffer + of_int (kgets_collected s) := 0),
                keyboard_buffer_handler := None\<rparr>
      in (kgets_collected s1, s1))"

definition kgets :: "u32 \<Rightarrow> int \<Rightarrow> u8 list \<Rightarrow> 'a kprintf_state_scheme \<Rightarrow>
    (int \<times> u8 list \<times> 'a kprintf_state_scheme) option" where
  "kgets buffer sz chars s =
     Option.bind (kgets_wait sz chars (kgets_start buffer sz s)) (\<lambda>(rest, s1).
       case kgets_finish buffer s1 of (n, s2) \<Rightarrow> Some (n, rest, s2))"

section \<open>Digits\<close>

text \<open>What the two converters emit, as functions of the value alone.\<close>

function dec_digits :: "nat \<Rightarrow> u8 list" where
  "dec_digits v = (if v < 10 then [of_nat (v + 0x30)]
     else dec_digits (v div 10) @ [of_nat (v mod 10 + 0x30)])"
  by pat_completeness auto
termination by (relation "measure id") auto

declare dec_digits.simps [simp del]

definition hex_string :: "u32 \<Rightarrow> u8 list" where
  "hex_string v = map (\<lambda>i. hex_digits ! unat (drop_bit (i * 4) v AND 0xF)) [7, 6, 5, 4, 3, 2, 1, 0]"

text \<open>Reading digits back, most significant first.\<close>

definition dec_value :: "u8 list \<Rightarrow> nat" where
  "dec_value ds = foldl (\<lambda>acc d. 10 * acc + (unat d - 0x30)) 0 ds"

definition hex_digit_value :: "u8 \<Rightarrow> nat" where
  "hex_digit_value d = (if unat d < 0x61 then unat d - 0x30 else unat d - 0x61 + 10)"

definition hex_value :: "u8 list \<Rightarrow> nat" where
  "hex_value ds = foldl (\<lambda>acc d. 16 * acc + hex_digit_value d) 0 ds"

lemma unat_dec_digit: "d < 10 \<Longrightarrow> unat (of_nat (d + 0x30) :: u8) = d + 0x30"
  by (simp add: unat_of_nat del: of_nat_add)

lemma dec_value_digits: "dec_value (dec_digits v) = v"
proof (induction v rule: dec_digits.induct)
  case (1 v)
  show ?case
  proof (cases "v < 10")
    case True
    then have "dec_value (dec_digits v) = unat (of_nat (v + 0x30) :: u8) - 0x30"
      by (simp add: dec_digits.simps [of v] dec_value_def)
    then show ?thesis using True unat_dec_digit [of v] by simp
  next
    case False
    have "dec_value (dec_digits v) =
        10 * dec_value (dec_digits (v div 10)) + (unat (of_nat (v mod 10 + 0x30) :: u8) - 0x30)"
      using False by (subst dec_digits.simps) (simp add: dec_value_def)
    also have "\<dots> = 10 * (v div 10) + v mod 10"
      using 1 False unat_dec_digit [of "v mod 10"] by simp
    finally show ?thesis by simp
  qed
qed

lemma dec_digits_range: "d \<in> set (dec_digits v) \<Longrightarrow> 0x30 \<le> unat d \<and> unat d \<le> 0x39"
proof (induction v rule: dec_digits.induct)
  case (1 v)
  then show ?case
    using unat_dec_digit [of v] unat_dec_digit [of "v mod 10"]
    by (subst (asm) (2) dec_digits.simps) (auto split: if_splits)
qed

text \<open>A 32-bit value has at most ten decimal digits, and the first is 0 only for 0.\<close>

lemma dec_digits_length: "0 < k \<Longrightarrow> v < 10 ^ k \<Longrightarrow> length (dec_digits v) \<le> k"
proof (induction k arbitrary: v)
  case (Suc k)
  show ?case
  proof (cases "v < 10")
    case True
    then show ?thesis by (simp add: dec_digits.simps)
  next
    case False
    with Suc.prems have "0 < k" by (cases k) auto
    moreover have "v div 10 < 10 ^ k" using Suc.prems by (simp add: less_mult_imp_div_less mult.commute)
    ultimately have "length (dec_digits (v div 10)) \<le> k" by (rule Suc.IH)
    with False show ?thesis by (subst dec_digits.simps) simp
  qed
qed simp

lemma dec_digits_nonempty: "dec_digits v \<noteq> []"
  by (subst dec_digits.simps) simp

text \<open>Emitting a whole string into the buffer.\<close>

definition put_bufs :: "u8 list \<Rightarrow> 'a kprintf_state_scheme \<Rightarrow> 'a kprintf_state_scheme" where
  "put_bufs cs s = fold put_buf cs s"

lemma put_bufs_simps [simp]:
  "put_bufs [] s = s" "put_bufs (c # cs) s = put_bufs cs (put_buf c s)"
  "put_bufs (cs @ ds) s = put_bufs ds (put_bufs cs s)"
  by (simp_all add: put_bufs_def)

lemma ucast_of_nat_u8: "n < 2 ^ 32 \<Longrightarrow> (ucast (of_nat n :: u32) :: u8) = of_nat n"
  by (simp add: unsigned_of_nat take_bit_nat_eq_self)

lemma dec_digit_word:
  "(ucast (v mod 10 + 0x30 :: u32) :: u8) = of_nat (unat v mod 10 + 0x30)"
proof -
  have "v mod 10 + 0x30 = of_nat (unat v mod 10 + 0x30)"
    by (simp add: word_arith_nat_mod [of v])
  then show ?thesis by (simp only:) (rule ucast_of_nat_u8, simp)
qed

lemma sint_mod_10: "\<not> sint (v mod 10 :: u32) < 0"
proof -
  have "unat (v mod 10) < 2 ^ 31" by (simp add: unat_mod_distrib less_trans [of _ 10])
  then show ?thesis by (simp add: sint_small)
qed

lemma parse_num_10: "parse_num v 10 s = Some (put_bufs (dec_digits (unat v)) s)"
proof (induction "unat v" arbitrary: v rule: less_induct)
  case less
  show ?case
  proof (cases "v \<ge> 10")
    case True
    then have "unat (v div 10) < unat v" by (simp add: unat_div_distrib word_le_nat_alt)
    with less have "parse_num (v div 10) 10 s = Some (put_bufs (dec_digits (unat (v div 10))) s)"
      by blast
    with True show ?thesis
      by (subst parse_num.simps, subst dec_digits.simps)
         (simp add: sint_mod_10 dec_digit_word unat_div_distrib word_le_nat_alt Let_def)
  next
    case False
    then have "unat v < 10" "v mod 10 = v"
      by (simp_all add: word_le_nat_alt word_unat_eq_iff unat_mod_distrib)
    with False show ?thesis
      using dec_digit_word [of v] sint_mod_10 [of v]
      by (subst parse_num.simps, subst dec_digits.simps) (simp add: Let_def)
  qed
qed

lemma parse_hex_loop_bufs:
  "parse_hex_loop n v s =
     put_bufs (map (\<lambda>i. hex_digits ! unat (drop_bit (i * 4) v AND 0xF)) (rev [0..<n])) s"
  by (induction n arbitrary: s) simp_all

lemma parse_hex_bufs: "parse_hex v s = put_bufs (hex_string v) s"
  unfolding parse_hex_def parse_hex_loop_bufs hex_string_def
  by (simp add: upt_rec numeral_eq_Suc)

lemma hex_digit_value: "n < 16 \<Longrightarrow> hex_digit_value (hex_digits ! n) = n"
proof -
  have "\<forall>n < 16. hex_digit_value (hex_digits ! n) = n" by code_simp
  then show "n < 16 \<Longrightarrow> hex_digit_value (hex_digits ! n) = n" by blast
qed

lemma nibble: "unat (drop_bit (i * 4) v AND 0xF :: u32) = unat v div 16 ^ i mod 16"
proof -
  have "drop_bit (i * 4) v AND 0xF = take_bit 4 (drop_bit (i * 4) v)"
    by (simp add: take_bit_eq_mask mask_numeral)
  then have "unat (drop_bit (i * 4) v AND 0xF) = take_bit 4 (drop_bit (i * 4) (unat v))"
    by (simp only: unsigned_take_bit_eq unat_drop_bit_eq)
  then have "unat (drop_bit (i * 4) v AND 0xF) = unat v div 2 ^ (i * 4) mod 2 ^ 4"
    by (simp only: take_bit_eq_mod drop_bit_eq_div)
  moreover have "(2 :: nat) ^ (i * 4) = 16 ^ i"
    using power_mult [of "2 :: nat" 4 i] by (simp add: mult.commute)
  ultimately show ?thesis by simp
qed

lemma hex_fold:
  fixes v :: u32
  shows "foldl (\<lambda>acc d. 16 * acc + hex_digit_value d) acc
     (map (\<lambda>i. hex_digits ! (unat v div 16 ^ i mod 16)) (rev [0..<n]))
   = acc * 16 ^ n + unat v mod 16 ^ n"
proof (induction n arbitrary: acc)
  case (Suc n)
  have "unat v mod (16 ^ n * 16) = 16 ^ n * (unat v div 16 ^ n mod 16) + unat v mod 16 ^ n"
    by (rule mod_mult2_eq)
  moreover have "foldl (\<lambda>acc d. 16 * acc + hex_digit_value d) acc
      (map (\<lambda>i. hex_digits ! (unat v div 16 ^ i mod 16)) (rev [0..<Suc n]))
    = (16 * acc + unat v div 16 ^ n mod 16) * 16 ^ n + unat v mod 16 ^ n"
    using hex_digit_value [of "unat v div 16 ^ n mod 16"] by (simp add: Suc.IH)
  ultimately show ?case by (simp add: algebra_simps)
qed simp

lemma hex_string_rev:
  "hex_string v = map (\<lambda>i. hex_digits ! unat (drop_bit (i * 4) v AND 0xF)) (rev [0..<8])"
  by (simp add: hex_string_def upt_rec numeral_eq_Suc)

lemma hex_value_string: "hex_value (hex_string v) = unat v"
proof -
  have "unat v < 16 ^ 8" using unsigned_less [of v] by simp
  then show ?thesis unfolding hex_value_def hex_string_rev nibble hex_fold by simp
qed

section \<open>What a format produces\<close>

text \<open>
  The text of a format string with its arguments, where \<open>str a\<close> is the string at the address
  \<open>a\<close>: \<open>None\<close> when the format ends inside a directive, runs out of arguments, or converts an
  argument that is not the address of a string.
\<close>

definition conv_text :: "(u32 \<rightharpoonup> u8 list) \<Rightarrow> u8 \<Rightarrow> u32 \<Rightarrow> u8 list option" where
  "conv_text str d a = (if d = 0x73 then str a else if d = 0x63 then Some [ucast a]
     else if d = 0x78 then Some (hex_string a) else Some (dec_digits (unat a)))"

fun render :: "(u32 \<rightharpoonup> u8 list) \<Rightarrow> u8 list \<Rightarrow> u32 list \<Rightarrow> u8 list option" where
  "render str [] args = Some []"
| "render str [c] args = (if c = 0x25 \<or> c = 0x5C then None else Some [c])"
| "render str (c # d # f) args =
     (if c = 0x5C then
        map_option ((@) (case backslash_char d of None \<Rightarrow> [] | Some e \<Rightarrow> [e])) (render str f args)
      else if c \<noteq> 0x25 then map_option ((#) c) (render str (d # f) args)
      else if d = 0x73 \<or> d = 0x63 \<or> d = 0x78 \<or> d = 0x64 then
        (case args of [] \<Rightarrow> None
         | a # as \<Rightarrow> (case conv_text str d a of None \<Rightarrow> None
             | Some t \<Rightarrow> map_option ((@) t) (render str f as)))
      else map_option ((#) d) (render str f args))"

lemma put_buf_fields [simp]:
  "kbuf (put_buf c s) = kbuf s" "ptr (put_buf c s) = ptr s + 1"
  "textmemptr (put_buf c s) = textmemptr s" "console_live (put_buf c s) = console_live s"
  by (simp_all add: put_buf_def console_live_def console_ok_def uart_live_def tx_ready_def)

lemma put_bufs_fields [simp]:
  "kbuf (put_bufs cs s) = kbuf s" "ptr (put_bufs cs s) = ptr s + of_nat (length cs)"
  "textmemptr (put_bufs cs s) = textmemptr s" "console_live (put_bufs cs s) = console_live s"
  by (induction cs arbitrary: s) simp_all

lemma put_bufs_console [simp]:
  "csr_x (put_bufs cs s) = csr_x s" "csr_y (put_bufs cs s) = csr_y s"
  "attrib (put_bufs cs s) = attrib s"
  by (induction cs arbitrary: s; simp add: put_buf_def)+

lemma live_update [simp]:
  "console_live (s\<lparr>mem := m\<rparr>) = console_live s" "console_live (s\<lparr>ptr := n\<rparr>) = console_live s"
  by (simp_all add: console_live_def console_ok_def uart_live_def tx_ready_def)

definition in_kbuf :: "'a kprintf_state_scheme \<Rightarrow> u32 \<Rightarrow> bool" where
  "in_kbuf s x \<longleftrightarrow> in_range (kbuf s) 1024 x"

lemma put_bufs_mem:
  "unat (ptr s) + length cs \<le> 1024 \<Longrightarrow> mem (put_bufs cs s) x =
     (if unat (ptr s) \<le> unat (x - kbuf s) \<and> unat (x - kbuf s) < unat (ptr s) + length cs
      then cs ! (unat (x - kbuf s) - unat (ptr s)) else mem s x)"
proof (induction cs arbitrary: s)
  case (Cons c cs)
  have ptr: "unat (ptr s + 1) = Suc (unat (ptr s))"
    using Cons.prems by (simp add: unat_word_ariths)
  have here: "x = kbuf s + ptr s \<longleftrightarrow> unat (x - kbuf s) = unat (ptr s)"
    unfolding word_eq_add_iff by (rule word_unat_eq_iff)
  have "mem (put_bufs cs (put_buf c s)) x =
      (if Suc (unat (ptr s)) \<le> unat (x - kbuf s) \<and>
          unat (x - kbuf s) < Suc (unat (ptr s)) + length cs
       then cs ! (unat (x - kbuf s) - Suc (unat (ptr s))) else mem (put_buf c s) x)"
    using Cons.IH [of "put_buf c s"] Cons.prems by (simp add: ptr)
  moreover have "mem (put_buf c s) x = (if x = kbuf s + ptr s then c else mem s x)"
    by (simp add: put_buf_def)
  ultimately show ?case using here by (auto simp: nth_Cons' Suc_diff_le)
qed auto

lemma put_bufs_outside:
  "unat (ptr s) + length cs \<le> 1024 \<Longrightarrow> \<not> in_kbuf s x \<Longrightarrow> mem (put_bufs cs s) x = mem s x"
  by (simp add: put_bufs_mem in_kbuf_def in_range_def)

text \<open>A string that lies outside the output buffer.\<close>

definition str_apart :: "'a kprintf_state_scheme \<Rightarrow> u32 \<Rightarrow> u8 list \<Rightarrow> bool" where
  "str_apart s p cs \<longleftrightarrow> cstr (mem s) p cs \<and> (\<forall>k \<le> length cs. \<not> in_kbuf s (p + of_nat k))"

lemma str_apart_Cons:
  "str_apart s p (c # cs) \<longleftrightarrow>
     mem s p = c \<and> c \<noteq> 0 \<and> \<not> in_kbuf s p \<and> str_apart s (p + 1) cs"
  by (auto simp: str_apart_def All_less_Suc2 less_Suc_eq_le [symmetric] ac_simps)

lemma str_apart_put:
  "str_apart s p cs \<Longrightarrow> unat (ptr s) + length ds \<le> 1024 \<Longrightarrow> str_apart (put_bufs ds s) p cs"
  by (auto simp: str_apart_def in_kbuf_def put_bufs_outside
        intro: cstr_cong [THEN iffD1, rotated])

lemma copy_str_bufs:
  "str_apart s p cs \<Longrightarrow> unat (ptr s) + length cs \<le> 1024 \<Longrightarrow>
     copy_str p s = Some (put_bufs cs s)"
proof (induction cs arbitrary: p s)
  case Nil
  then show ?case by (simp add: str_apart_def copy_str.simps)
next
  case (Cons c cs)
  then have hd: "mem s p = c" "c \<noteq> 0" and tl: "str_apart s (p + 1) cs"
    by (simp_all add: str_apart_Cons)
  have "str_apart (put_buf c s) (p + 1) cs"
    using str_apart_put [OF tl, of "[c]"] Cons.prems by simp
  moreover have "unat (ptr (put_buf c s)) + length cs \<le> 1024"
    using Cons.prems by (simp add: unat_word_ariths)
  ultimately have "copy_str (p + 1) (put_buf c s) = Some (put_bufs cs (put_buf c s))"
    by (rule Cons.IH)
  with hd show ?case by (simp add: copy_str.simps [of p s])
qed

definition strings_apart :: "'a kprintf_state_scheme \<Rightarrow> (u32 \<rightharpoonup> u8 list) \<Rightarrow> bool" where
  "strings_apart s str \<longleftrightarrow> (\<forall>a cs. str a = Some cs \<longrightarrow> str_apart s a cs)"

lemma strings_apart_put:
  "strings_apart s str \<Longrightarrow> unat (ptr s) + length ds \<le> 1024 \<Longrightarrow> strings_apart (put_bufs ds s) str"
  by (auto simp: strings_apart_def intro: str_apart_put)

lemma ptr_put_bufs:
  "unat (ptr s) + length cs \<le> 1024 \<Longrightarrow> unat (ptr (put_bufs cs s)) = unat (ptr s) + length cs"
  by (simp add: unat_add_small)

lemma percent_conv_text:
  assumes "d = 0x73 \<or> d = 0x63 \<or> d = 0x78 \<or> d = 0x64" and "conv_text str d a = Some t"
    and "strings_apart s str" and "unat (ptr s) + length t \<le> 1024"
  shows "percent_conv d (a # as) s = ret (as, put_bufs t s)"
  using assms copy_str_bufs [of s a t]
  by (auto simp: percent_conv_def va_arg_def conv_text_def lift_run_def parse_num_10
        parse_hex_bufs strings_apart_def)

lemma str_apart_next:
  "str_apart s (fmt + i) (c # d # f) \<Longrightarrow>
     mem s (fmt + i) = c \<and> c \<noteq> 0 \<and> mem s (fmt + (i + 1)) = d \<and> d \<noteq> 0 \<and>
     str_apart s (fmt + (i + 1)) (d # f) \<and> str_apart s (fmt + (i + 2)) f"
  using str_apart_Cons [of s "fmt + i" c "d # f"] str_apart_Cons [of s "fmt + i + 1" d f]
  by (simp add: ac_simps)

lemma kprintf_loop_render:
  fixes s :: "'a kprintf_state_scheme"
  assumes "render str f args = Some out" and "str_apart s (fmt + i) f" and "strings_apart s str"
    and "unat (ptr s) + length out \<le> 1024"
  shows "kprintf_loop fmt i args s = ret (put_bufs out s)"
  using assms
proof (induction str f args arbitrary: i s out rule: render.induct)
  case (1 str args)
  then show ?case by (simp add: kprintf_loop.simps str_apart_def)
next
  case (2 str c args)
  then have c: "mem s (fmt + i) = c" "c \<noteq> 0" "c \<noteq> 0x25" "c \<noteq> 0x5C" "out = [c]"
    and nul: "mem s (fmt + i + 1) = 0" "\<not> in_kbuf s (fmt + i + 1)"
    by (auto simp: str_apart_Cons split: if_splits) (auto simp: str_apart_def)
  have "mem (put_buf c s) (fmt + (i + 1)) = 0"
    using put_bufs_outside [of s "[c]" "fmt + i + 1"] nul 2(4) c(5) by (simp add: ac_simps)
  then have "kprintf_loop fmt (i + 1) args (put_buf c s) = ret (put_buf c s)"
    by (simp add: kprintf_loop.simps)
  with c show ?case by (simp add: kprintf_loop.simps [of fmt i])
next
  case (3 str c d f args)
  note at = str_apart_next [OF "3.prems"(2)]
  have step: "kprintf_loop fmt (i + k) args' (put_bufs t s) = ret (put_bufs (t @ rest) s)"
    if ih: "\<And>i (s :: 'a kprintf_state_scheme) out. render str f' args' = Some out \<Longrightarrow> str_apart s (fmt + i) f' \<Longrightarrow>
        strings_apart s str \<Longrightarrow> unat (ptr s) + length out \<le> 1024 \<Longrightarrow>
        kprintf_loop fmt i args' s = ret (put_bufs out s)"
      and "render str f' args' = Some rest" "out = t @ rest" "str_apart s (fmt + (i + k)) f'"
    for f' args' t rest k
    using that(2-) "3.prems"(3,4) str_apart_put [OF that(4), of t]
      strings_apart_put [OF "3.prems"(3), of t] ptr_put_bufs [of s t]
    by (subst ih) simp_all
  consider "c = 0x5C" | "c \<noteq> 0x5C" "c \<noteq> 0x25"
    | "c = 0x25" "d = 0x73 \<or> d = 0x63 \<or> d = 0x78 \<or> d = 0x64"
    | "c = 0x25" "\<not> (d = 0x73 \<or> d = 0x63 \<or> d = 0x78 \<or> d = 0x64)" by blast
  then show ?case
  proof cases
    case 1
    let ?t = "case backslash_char d of None \<Rightarrow> [] | Some e \<Rightarrow> [e]"
    obtain rest where rest: "render str f args = Some rest" "out = ?t @ rest"
      using "3.prems"(1) 1 by auto
    have "kprintf_loop fmt i args s = kprintf_loop fmt (i + 2) args (put_bufs ?t s)"
      using at 1
      by (cases "backslash_char d")
         (simp_all add: kprintf_loop.simps [of fmt i args s] Let_def del: add.commute)
    also have "\<dots> = ret (put_bufs (?t @ rest) s)"
      by (rule step [OF "3.IH"(1) [OF 1] rest]) (use at in simp_all)
    finally show ?thesis by (simp only: rest(2))
  next
    case 2
    then obtain rest where rest: "render str (d # f) args = Some rest" "out = [c] @ rest"
      using "3.prems"(1) by auto
    have "kprintf_loop fmt i args s = kprintf_loop fmt (i + 1) args (put_bufs [c] s)"
      using at 2 by (simp add: kprintf_loop.simps [of fmt i args s] Let_def)
    also have "\<dots> = ret (put_bufs ([c] @ rest) s)"
      by (rule step [OF "3.IH"(2) [OF 2] rest]) (use at in simp_all)
    finally show ?thesis by (simp only: rest(2))
  next
    case 3
    then obtain a as t rest where args: "args = a # as" and t: "conv_text str d a = Some t"
      and rest: "render str f as = Some rest" "out = t @ rest"
      using "3.prems"(1) by (auto split: list.splits option.splits)
    have "percent_conv d args s = ret (as, put_bufs t s)"
      unfolding args using 3(2) t "3.prems"(3,4) rest(2) by (intro percent_conv_text) simp_all
    then have "kprintf_loop fmt i args s = kprintf_loop fmt (i + 2) as (put_bufs t s)"
      using at 3 by (simp add: kprintf_loop.simps [of fmt i args s] Let_def)
    also have "\<dots> = ret (put_bufs (t @ rest) s)"
    proof (rule step [OF _ rest])
      show "kprintf_loop fmt i as s' = ret (put_bufs out s')"
        if "render str f as = Some out" "str_apart s' (fmt + i) f" "strings_apart s' str"
          "unat (ptr s') + length out \<le> 1024" for i out and s' :: "'a kprintf_state_scheme"
        using "3.IH"(3) [OF _ _ 3(2) args t that] 3(1) by simp
    qed (use at in simp_all)
    finally show ?thesis by (simp only: rest(2))
  next
    case 4
    then obtain rest where rest: "render str f args = Some rest" "out = [d] @ rest"
      using "3.prems"(1) by auto
    have "percent_conv d args s = ret (args, put_bufs [d] s)"
      using 4 by (simp add: percent_conv_def)
    then have "kprintf_loop fmt i args s = kprintf_loop fmt (i + 2) args (put_bufs [d] s)"
      using at 4 by (simp add: kprintf_loop.simps [of fmt i args s] Let_def)
    also have "\<dots> = ret (put_bufs ([d] @ rest) s)"
    proof (rule step [OF _ rest])
      show "kprintf_loop fmt i args s' = ret (put_bufs out s')"
        if "render str f args = Some out" "str_apart s' (fmt + i) f" "strings_apart s' str"
          "unat (ptr s') + length out \<le> 1024" for i out and s' :: "'a kprintf_state_scheme"
        using "3.IH"(4) [OF _ _ 4(2) that] 4(1) by simp
    qed (use at in simp_all)
    finally show ?thesis by (simp only: rest(2))
  qed
qed

text \<open>The output buffer and the text buffer do not overlap.\<close>

definition kbuf_apart :: "'a kprintf_state_scheme \<Rightarrow> bool" where
  "kbuf_apart s \<longleftrightarrow> (\<forall>x. in_kbuf s x \<longrightarrow> \<not> in_range (textmemptr s) 4000 x)"

lemma ptr_reset [simp]:
  "str_apart (s\<lparr>ptr := n\<rparr>) = str_apart s" "strings_apart (s\<lparr>ptr := n\<rparr>) = strings_apart s"
  "in_kbuf (s\<lparr>ptr := n\<rparr>) = in_kbuf s"
  by (simp_all add: str_apart_def strings_apart_def in_kbuf_def fun_eq_iff)

lemma put_bufs_term:
  assumes "kbuf_apart s" and "unat (ptr s) + length cs \<le> 1024"
  shows "term_of (put_bufs cs s) = term_of s"
proof (rule term_of_mem_cong)
  fix x assume "in_range (textmemptr s) 4000 x"
  then have "\<not> in_kbuf s x" using assms(1) by (auto simp: kbuf_apart_def)
  then show "mem s x = mem (put_bufs cs s) x" using put_bufs_outside [OF assms(2)] by simp
qed simp_all

lemma put_bufs_cstr:
  assumes "ptr s = 0" and "length cs < 1024" and "0 \<notin> set cs"
  shows "cstr (mem (put_bufs (cs @ [0]) s)) (kbuf s) cs"
proof -
  have "mem (put_bufs (cs @ [0]) s) (kbuf s + of_nat k) = (cs @ [0]) ! k" if "k \<le> length cs" for k
    using that assms by (simp add: put_bufs_mem unat_of_nat_small del: put_bufs_simps)
  then show ?thesis
    using assms(3)
    by (auto simp: cstr_nth nth_append simp del: put_bufs_simps) (metis nth_mem)
qed

lemma kprintf_fields_more:
  fixes s s' :: "'a kprintf_state_scheme"
  assumes "console.more s' = console.more s"
  shows "kbuf s' = kbuf s" "ptr s' = ptr s" "kgets_buffer s' = kgets_buffer s"
    "kgets_collected s' = kgets_collected s" "kgets_want s' = kgets_want s"
    "kgets_newline s' = kgets_newline s" "kgets_cancel s' = kgets_cancel s"
    "keyboard_buffer_handler s' = keyboard_buffer_handler s"
  using assms by (cases s; cases s'; simp)+

lemma kprintf_more_more:
  fixes s s' :: "'a kprintf_state_scheme"
  assumes "console.more s' = console.more s"
  shows "kprintf_state.more s' = kprintf_state.more s"
  using assms by (cases s; cases s'; simp)

lemma put_bufs_more: "kprintf_state.more (put_bufs cs s) = kprintf_state.more s"
  by (induction cs arbitrary: s) (simp_all add: put_buf_def)

lemma kprintf_render:
  assumes live: "console_live s" and apart: "kbuf_apart s"
    and out: "render str f args = Some out" "length out < 1024" "0 \<notin> set out"
    and fmt: "str_apart s fmt f" "strings_apart s str"
  obtains s' where "kprintf fmt args s = ret s'" and "console_live s'"
    and "term_of s' = fold term_put out (term_of s)"
    and "\<And>x. \<not> in_kbuf s x \<Longrightarrow> \<not> in_range (textmemptr s) 4000 x \<Longrightarrow> mem s' x = mem s x"
    and "textmemptr s' = textmemptr s" and "kbuf s' = kbuf s"
    and "kprintf_state.more s' = kprintf_state.more s"
proof -
  define s0 where "s0 = s\<lparr>ptr := 0\<rparr>"
  define s1 where "s1 = put_bufs out s0"
  define s2 where "s2 = s1\<lparr>mem := (mem s1)(kbuf s1 + ptr s1 := 0)\<rparr>"
  have loop: "kprintf_loop fmt 0 args s0 = ret s1"
    unfolding s1_def using out fmt by (intro kprintf_loop_render) (simp_all add: s0_def)
  have ptr0: "ptr s0 = 0" and kb: "kbuf s0 = kbuf s" and ap0: "kbuf_apart s0"
    using apart by (simp_all add: s0_def kbuf_apart_def)
  have mem2: "mem s2 = mem (put_bufs (out @ [0]) s0)"
    by (simp add: s2_def s1_def put_buf_def)
  have same: "console_live s2 = console_live s" "textmemptr s2 = textmemptr s" "kbuf s2 = kbuf s"
    by (simp_all add: s2_def s1_def s0_def)
  have "term_of s2 = term_of (put_bufs (out @ [0]) s0)"
    by (rule term_of_cong) (simp_all add: s2_def s1_def put_buf_def)
  also have "\<dots> = term_of s0" using ap0 out(2) ptr0 by (intro put_bufs_term) simp_all
  also have "\<dots> = term_of s" by (rule term_of_cong) (simp_all add: s0_def)
  finally have term2: "term_of s2 = term_of s" .
  have live2: "console_live s2" using live same(1) by simp
  have str2: "cstr (mem s2) (kbuf s2) out"
    using put_bufs_cstr [OF ptr0 out(2,3)] by (simp only: mem2 same(3) kb)
  have "\<not> in_range (textmemptr s2) 4000 (kbuf s2 + of_nat k)" if "k < length out" for k
  proof -
    have "in_kbuf s (kbuf s + of_nat k)" using that out(2) by (simp add: in_kbuf_def)
    then show ?thesis using apart same by (simp add: kbuf_apart_def)
  qed
  then have puts: "puts (kbuf s2) s2 = send_all writech out s2"
    using live2 str2 out(2) by (intro puts_send_all) simp_all
  obtain s' where s': "send_all writech out s2 = Some s'" "console_live s'"
    "term_of s' = fold term_put out (term_of s2)" "textmemptr s' = textmemptr s2"
    "outside_buffer s' = outside_buffer s2"
    using live2 by (rule send_console)
  show ?thesis
  proof (rule that)
    show "kprintf fmt args s = ret s'"
    proof -
      have "kbuf s1 = kbuf s2" by (simp add: s2_def)
      then have "puts (kbuf s1) s2 = Some s'" using puts s'(1) by simp
      then show ?thesis using loop by (simp add: kprintf_def Let_def lift_run_def flip: s0_def s2_def)
    qed
    show "mem s' x = mem s x" if "\<not> in_kbuf s x" "\<not> in_range (textmemptr s) 4000 x" for x
    proof -
      have "mem s' x = mem s2 x" using outside_bufferD [OF s'(5,4)] that(2) same(2) by simp
      also have "\<dots> = mem s x"
        unfolding mem2 using that(1) out(2) ptr0
        by (subst put_bufs_outside) (simp_all add: s0_def)
      finally show ?thesis .
    qed
    have more: "console.more s' = console.more s2" using s'(1) by (rule send_all_more)
    then show "kbuf s' = kbuf s" using kprintf_fields_more(1) same(3) by metis
    have "kprintf_state.more s2 = kprintf_state.more s"
      by (simp add: s2_def s1_def s0_def put_bufs_more)
    then show "kprintf_state.more s' = kprintf_state.more s"
      using kprintf_more_more [OF more] by simp
  qed (use s' term2 same in simp_all)
qed

section \<open>Line editing\<close>

text \<open>
  The abstract line editor: the text typed so far, of at most \<open>n\<close> characters.  \<open>edit_char\<close>
  is the effect of one character other than newline, \<open>edit_line\<close> the line that a sequence
  of characters produces and the characters it leaves unread.
\<close>

definition edit_char :: "nat \<Rightarrow> u8 \<Rightarrow> u8 list \<Rightarrow> u8 list" where
  "edit_char n ch typed =
     (if ch = 8 then butlast typed
      else if ch = 10 \<or> sint ch < 0x20 then typed
      else if length typed < n then typed @ [ch] else typed)"

fun edit_line :: "nat \<Rightarrow> u8 list \<Rightarrow> u8 list \<Rightarrow> (u8 list \<times> u8 list) option" where
  "edit_line n typed chars =
     (if n \<le> length typed then Some (typed, chars)
      else case chars of [] \<Rightarrow> None
        | ch # cs \<Rightarrow> if ch = 10 then Some (typed, cs) else edit_line n (edit_char n ch typed) cs)"

text \<open>What the screen shows of it: the erased characters, and control characters after a \<^verbatim>\<open>^\<close>.\<close>

definition echo_char :: "u8 list \<Rightarrow> u8 \<Rightarrow> u8 list" where
  "echo_char typed ch =
     (if ch = 8 then (if typed = [] then [] else [8, 0x20, 8])
      else if ch = 10 then [10] else if sint ch < 0x20 then [0x5E, ch + 0x40] else [ch])"

fun echo_line :: "nat \<Rightarrow> u8 list \<Rightarrow> u8 list \<Rightarrow> u8 list" where
  "echo_line n typed chars =
     (if n \<le> length typed then []
      else case chars of [] \<Rightarrow> []
        | ch # cs \<Rightarrow> echo_char typed ch @ (if ch = 10 then [] else echo_line n (edit_char n ch typed) cs))"

declare edit_line.simps [simp del] echo_line.simps [simp del] kgets_wait.simps [simp del]

lemma edit_char_length: "length typed \<le> n \<Longrightarrow> length (edit_char n ch typed) \<le> n"
  by (auto simp: edit_char_def)

lemma edit_char_printable:
  "\<forall>c \<in> set typed. 0x20 \<le> sint c \<Longrightarrow> \<forall>c \<in> set (edit_char n ch typed). 0x20 \<le> sint c"
  by (auto simp: edit_char_def dest: in_set_butlastD)

text \<open>
  \<open>kgets_ok s typed\<close>: the line \<open>typed\<close> has been collected in the caller's buffer of
  \<open>kgets_want + 1\<close> bytes, which lies outside the text buffer of the screen.
\<close>

definition kgets_ok :: "'a kprintf_state_scheme \<Rightarrow> u8 list \<Rightarrow> bool" where
  "kgets_ok s typed \<longleftrightarrow> console_live s \<and> kgets_want s < 2 ^ 31 \<and>
     kgets_collected s = int (length typed) \<and> int (length typed) \<le> kgets_want s \<and>
     (\<forall>k < length typed. mem s (kgets_buffer s + of_nat k) = typed ! k) \<and>
     (\<forall>k \<le> nat (kgets_want s). \<not> in_range (textmemptr s) 4000 (kgets_buffer s + of_nat k)) \<and>
     (\<forall>c \<in> set typed. 0x20 \<le> sint c)"

text \<open>\<open>kgets_frame s s'\<close>: nothing outside of the caller's buffer and the text buffer has changed.\<close>

definition kgets_frame :: "'a kprintf_state_scheme \<Rightarrow> 'a kprintf_state_scheme \<Rightarrow> bool" where
  "kgets_frame s s' \<longleftrightarrow> kgets_buffer s' = kgets_buffer s \<and> kgets_want s' = kgets_want s \<and>
     textmemptr s' = textmemptr s \<and> kbuf s' = kbuf s \<and> kprintf_state.more s' = kprintf_state.more s \<and>
     (\<forall>x. \<not> in_range (textmemptr s) 4000 x \<and> \<not> in_range (kgets_buffer s) (Suc (nat (kgets_want s))) x \<longrightarrow>
       mem s' x = mem s x)"

lemma kgets_frame_refl [simp]: "kgets_frame s s"
  by (simp add: kgets_frame_def)

lemma kgets_frame_trans: "kgets_frame s s' \<Longrightarrow> kgets_frame s' s'' \<Longrightarrow> kgets_frame s s''"
  by (simp add: kgets_frame_def)

lemma writech_kgets:
  fixes s :: "'a kprintf_state_scheme"
  assumes ok: "kgets_ok s typed"
  obtains s' where "writech c s = Some s'" and "kgets_ok s' typed"
    and "console.more s' = console.more s" and "term_of s' = term_put c (term_of s)" and "kgets_frame s s'"
proof -
  have live: "console_live s" using ok by (simp add: kgets_ok_def)
  then obtain s' where s': "writech c s = Some s'" "console_live s'"
    and view: "console_view s' = console_step c (console_view s)"
    by (rule vga.put_obtain)
  have more: "console.more s' = console.more s" using s'(1) by (rule writech_more)
  have same: "textmemptr s' = textmemptr s" "outside_buffer s' = outside_buffer s"
    and screen: "term_of s' = term_put c (term_of s)"
    using view by (simp_all add: console_view_def console_step_def)
  have "mem s' (kgets_buffer s + of_nat k) = mem s (kgets_buffer s + of_nat k)"
    if "k < length typed" for k
  proof (rule outside_bufferD [OF same(2,1)])
    have "k \<le> nat (kgets_want s)" using that ok by (auto simp: kgets_ok_def)
    then show "\<not> in_range (textmemptr s) 4000 (kgets_buffer s + of_nat k)"
      using ok by (simp add: kgets_ok_def)
  qed
  then have "kgets_ok s' typed"
    using ok s'(2) same(1) kprintf_fields_more [OF more] by (simp add: kgets_ok_def)
  moreover have "kgets_frame s s'"
    using kprintf_fields_more [OF more] kprintf_more_more [OF more] same(1) outside_bufferD [OF same(2,1)]
    by (simp add: kgets_frame_def)
  ultimately show ?thesis using s'(1) more screen that by blast
qed

text \<open>Writing a byte of the caller's buffer.\<close>

lemma kgets_poke:
  fixes s :: "'a kprintf_state_scheme"
  assumes ok: "kgets_ok s typed" and "i \<le> nat (kgets_want s)"
  shows "term_of (s\<lparr>mem := (mem s)(kgets_buffer s + of_nat i := v)\<rparr>) = term_of s"
    and "kgets_frame s (s\<lparr>mem := (mem s)(kgets_buffer s + of_nat i := v)\<rparr>)"
proof -
  have "\<not> in_range (textmemptr s) 4000 (kgets_buffer s + of_nat i)" using assms by (simp add: kgets_ok_def)
  then show "term_of (s\<lparr>mem := (mem s)(kgets_buffer s + of_nat i := v)\<rparr>) = term_of s"
    by (intro term_of_mem_cong) auto
  have "nat (kgets_want s) < 2 ^ 31" using ok by (auto simp: kgets_ok_def)
  then have "in_range (kgets_buffer s) (Suc (nat (kgets_want s))) (kgets_buffer s + of_nat i)"
    using assms(2) by (intro in_range_offset) simp_all
  then show "kgets_frame s (s\<lparr>mem := (mem s)(kgets_buffer s + of_nat i := v)\<rparr>)"
    unfolding kgets_frame_def by auto
qed

lemma kgets_poke_count:
  fixes s :: "'a kprintf_state_scheme"
  assumes ok: "kgets_ok s typed"
  shows "term_of (s\<lparr>mem := (mem s)(kgets_buffer s + of_int (kgets_collected s) := v), kgets_collected := n\<rparr>) = term_of s"
    and "kgets_frame s (s\<lparr>mem := (mem s)(kgets_buffer s + of_int (kgets_collected s) := v), kgets_collected := n\<rparr>)"
proof -
  have c: "kgets_collected s = int (length typed)" "length typed \<le> nat (kgets_want s)"
    using ok by (auto simp: kgets_ok_def)
  let ?m = "(mem s)(kgets_buffer s + of_nat (length typed) := v)"
  have "term_of (s\<lparr>mem := ?m, kgets_collected := n\<rparr>) = term_of (s\<lparr>mem := ?m\<rparr>)" by (rule term_of_cong) simp_all
  with kgets_poke [OF ok c(2), of v]
  show "term_of (s\<lparr>mem := (mem s)(kgets_buffer s + of_int (kgets_collected s) := v), kgets_collected := n\<rparr>) = term_of s"
    and "kgets_frame s (s\<lparr>mem := (mem s)(kgets_buffer s + of_int (kgets_collected s) := v), kgets_collected := n\<rparr>)"
    by (simp_all add: c(1) kgets_frame_def)
qed

lemma kgets_ok_store:
  assumes "kgets_ok s typed" and "int (length typed) < kgets_want s" and "0x20 \<le> sint ch"
  shows "kgets_ok (s\<lparr>mem := (mem s)(kgets_buffer s + of_int (kgets_collected s) := ch),
    kgets_collected := kgets_collected s + 1\<rparr>) (typed @ [ch])"
proof -
  have "length typed < 2 ^ 32" using assms(1,2) by (auto simp: kgets_ok_def)
  moreover have "k < 2 ^ 32" if "k < length typed" for k using calculation that by linarith
  ultimately show ?thesis
    using assms
    by (auto simp: kgets_ok_def less_Suc_eq nth_append of_nat_inject_small console_live_def
          console_ok_def uart_live_def tx_ready_def)
qed

lemma kgets_ok_erase:
  assumes "kgets_ok s typed" and "typed \<noteq> []"
  shows "kgets_ok (s\<lparr>mem := (mem s)(kgets_buffer s + of_int (kgets_collected s) := 0),
    kgets_collected := kgets_collected s - 1\<rparr>) (butlast typed)"
proof -
  have "length typed < 2 ^ 32" using assms(1) by (auto simp: kgets_ok_def)
  moreover have "k < 2 ^ 32" if "k < length typed" for k using calculation that by linarith
  ultimately show ?thesis
    using assms
    by (auto simp: kgets_ok_def nth_butlast of_nat_inject_small console_live_def of_nat_diff
          console_ok_def uart_live_def tx_ready_def Suc_le_eq dest: in_set_butlastD)
qed

lemma kgets_handler_step:
  fixes s :: "'a kprintf_state_scheme"
  assumes ok: "kgets_ok s typed"
  obtains s' where "kgets_handler ch s = Some s'"
    and "kgets_ok s' (edit_char (nat (kgets_want s)) ch typed)" and "kgets_frame s s'"
    and "kgets_newline s' = (if ch = 10 then 1 else kgets_newline s)"
    and "term_of s' = fold term_put (echo_char typed ch) (term_of s)"
proof -
  have len: "kgets_collected s = int (length typed)" using ok by (simp add: kgets_ok_def)
  consider "ch = 8" "typed = []" | "ch = 8" "typed \<noteq> []" | "ch = 10"
    | "ch \<noteq> 8" "ch \<noteq> 10" "sint ch < 0x20" | "ch \<noteq> 8" "ch \<noteq> 10" "\<not> sint ch < 0x20" by blast
  then show ?thesis
  proof cases
    case 1
    with ok len that [of s] show ?thesis
      by (simp add: kgets_handler_def Let_def edit_char_def echo_char_def)
  next
    case 2
    obtain s1 where s1: "writech 8 s = Some s1" "kgets_ok s1 typed" "console.more s1 = console.more s"
      "term_of s1 = term_put 8 (term_of s)" "kgets_frame s s1"
      using ok by (rule writech_kgets)
    obtain s2 where s2: "writech 0x20 s1 = Some s2" "kgets_ok s2 typed" "console.more s2 = console.more s1"
      "term_of s2 = term_put 0x20 (term_of s1)" "kgets_frame s1 s2"
      using s1(2) by (rule writech_kgets)
    obtain s3 where s3: "writech 8 s2 = Some s3" "kgets_ok s3 typed" "console.more s3 = console.more s2"
      "term_of s3 = term_put 8 (term_of s2)" "kgets_frame s2 s3"
      using s2(2) by (rule writech_kgets)
    have more: "console.more s3 = console.more s" using s1 s2 s3 by simp
    have frame: "kgets_frame s s3" using s1(5) s2(5) s3(5) kgets_frame_trans by blast
    let ?s = "s3\<lparr>mem := (mem s3)(kgets_buffer s3 + of_int (kgets_collected s3) := 0), kgets_collected := kgets_collected s3 - 1\<rparr>"
    note poke = kgets_poke_count [OF s3(2), where v = 0 and n = "kgets_collected s3 - 1"]
    have "kgets_handler ch s = Some ?s" using 2 s1(1) s2(1) s3(1) len by (simp add: kgets_handler_def Let_def)
    moreover have "kgets_ok ?s (edit_char (nat (kgets_want s)) ch typed)"
      using 2 kgets_ok_erase [OF s3(2) 2(2)] by (simp add: edit_char_def)
    moreover have "term_of ?s = fold term_put (echo_char typed ch) (term_of s)"
      using 2 s1(4) s2(4) s3(4) poke(1) by (simp add: echo_char_def)
    moreover have "kgets_newline ?s = (if ch = 10 then 1 else kgets_newline s)"
      using 2 kprintf_fields_more [OF more] by simp
    ultimately show ?thesis using that [of ?s] kgets_frame_trans [OF frame poke(2)] by blast
  next
    case 3
    let ?s = "s\<lparr>kgets_newline := 1\<rparr>"
    have "kgets_ok ?s typed"
      using ok by (simp add: kgets_ok_def console_live_def console_ok_def uart_live_def tx_ready_def)
    then obtain s1 where s1: "writech 10 ?s = Some s1" "kgets_ok s1 typed"
      "console.more s1 = console.more ?s" "term_of s1 = term_put 10 (term_of ?s)" "kgets_frame ?s s1"
      by (rule writech_kgets)
    moreover have "term_of ?s = term_of s" by (rule term_of_cong) simp_all
    moreover have "kgets_frame s ?s" by (simp add: kgets_frame_def)
    ultimately show ?thesis
      using 3 that [of s1] kprintf_fields_more [OF s1(3)] kgets_frame_trans [of s ?s s1]
      by (simp add: kgets_handler_def Let_def edit_char_def echo_char_def)
  next
    case 4
    obtain s1 where s1: "writech 0x5E s = Some s1" "kgets_ok s1 typed" "console.more s1 = console.more s"
      "term_of s1 = term_put 0x5E (term_of s)" "kgets_frame s s1"
      using ok by (rule writech_kgets)
    obtain s2 where s2: "writech (ch + 0x40) s1 = Some s2" "kgets_ok s2 typed"
      "console.more s2 = console.more s1" "term_of s2 = term_put (ch + 0x40) (term_of s1)" "kgets_frame s1 s2"
      using s1(2) by (rule writech_kgets)
    have "console.more s2 = console.more s" using s1 s2 by simp
    then show ?thesis using 4 that [of s2] s1(1,4) s2 kprintf_fields_more [of s2 s] kgets_frame_trans [OF s1(5) s2(5)]
      by (simp add: kgets_handler_def Let_def edit_char_def echo_char_def)
  next
    case 5
    obtain s1 where s1: "writech ch s = Some s1" "kgets_ok s1 typed" "console.more s1 = console.more s"
      "term_of s1 = term_put ch (term_of s)" "kgets_frame s s1"
      using ok by (rule writech_kgets)
    have f: "kgets_collected s1 = kgets_collected s" "kgets_want s1 = kgets_want s"
      "kgets_buffer s1 = kgets_buffer s" "kgets_newline s1 = kgets_newline s"
      using kprintf_fields_more [OF s1(3)] by simp_all
    have echo: "echo_char typed ch = [ch]" using 5 by (simp add: echo_char_def)
    show ?thesis
    proof (cases "int (length typed) < kgets_want s")
      case True
      let ?s = "s1\<lparr>mem := (mem s1)(kgets_buffer s1 + of_int (kgets_collected s1) := ch), kgets_collected := kgets_collected s1 + 1\<rparr>"
      note poke = kgets_poke_count [OF s1(2), where v = ch and n = "kgets_collected s1 + 1"]
      have "kgets_handler ch s = Some ?s" using 5 s1(1) f len True by (simp add: kgets_handler_def Let_def)
      moreover have "length typed < nat (kgets_want s)" using True by linarith
      then have "kgets_ok ?s (edit_char (nat (kgets_want s)) ch typed)"
        using 5 True f kgets_ok_store [OF s1(2), of ch] by (simp add: edit_char_def)
      moreover have "kgets_newline ?s = (if ch = 10 then 1 else kgets_newline s)" using 5 f by simp
      moreover have "term_of ?s = fold term_put (echo_char typed ch) (term_of s)" using poke(1) s1(4) by (simp add: echo)
      ultimately show ?thesis using that [of ?s] kgets_frame_trans [OF s1(5) poke(2)] by blast
    next
      case False
      moreover have "\<not> length typed < nat (kgets_want s)" using False by linarith
      ultimately show ?thesis using 5 s1 f len echo that [of s1]
        by (simp add: kgets_handler_def Let_def edit_char_def)
    qed
  qed
qed

lemma kgets_wait_edit:
  fixes s :: "'a kprintf_state_scheme"
  assumes "kgets_ok s typed" and "kgets_newline s = 0"
  shows "case edit_line (nat (kgets_want s)) typed chars of
      None \<Rightarrow> kgets_wait (kgets_want s) chars s = None
    | Some (line, rest) \<Rightarrow> \<exists>s'. kgets_wait (kgets_want s) chars s = Some (rest, s') \<and>
        kgets_ok s' line \<and> kgets_frame s s' \<and>
        term_of s' = fold term_put (echo_line (nat (kgets_want s)) typed chars) (term_of s)"
  using assms
proof (induction chars arbitrary: s typed)
  case Nil
  then show ?case
    by (auto simp: edit_line.simps [of _ typed] echo_line.simps [of _ typed] kgets_wait.simps [of _ "[]"] kgets_ok_def)
next
  case (Cons ch cs)
  show ?case
  proof (cases "int (length typed) < kgets_want s")
    case False
    then have full: "nat (kgets_want s) \<le> length typed" by linarith
    have "\<not> kgets_collected s < kgets_want s" using False Cons.prems by (simp add: kgets_ok_def)
    then have "kgets_wait (kgets_want s) (ch # cs) s = Some (ch # cs, s)"
      by (simp add: kgets_wait.simps [of _ "ch # cs"])
    with full show ?thesis using Cons.prems
      by (simp add: edit_line.simps [of _ typed] echo_line.simps [of _ typed])
  next
    case True
    obtain s' where s': "kgets_handler ch s = Some s'"
      "kgets_ok s' (edit_char (nat (kgets_want s)) ch typed)" "kgets_frame s s'"
      "kgets_newline s' = (if ch = 10 then 1 else kgets_newline s)"
      "term_of s' = fold term_put (echo_char typed ch) (term_of s)"
      using Cons.prems(1) by (rule kgets_handler_step)
    have wait: "kgets_wait (kgets_want s) (ch # cs) s = kgets_wait (kgets_want s) cs s'"
      using True Cons.prems s'(1)
      by (simp add: kgets_wait.simps [of _ "ch # cs"] kgets_ok_def)
    have want: "kgets_want s' = kgets_want s" using s'(3) by (simp add: kgets_frame_def)
    show ?thesis
    proof (cases "ch = 10")
      case True
      then have "kgets_wait (kgets_want s) cs s' = Some (cs, s')"
        using s'(4) by (simp add: kgets_wait.simps [of _ cs])
      then show ?thesis using True \<open>int (length typed) < kgets_want s\<close> wait s'(2,3,5)
        by (simp add: edit_line.simps [of _ typed] echo_line.simps [of _ typed] edit_char_def)
    next
      case False
      then have "kgets_newline s' = 0" using s'(4) Cons.prems(2) by simp
      from Cons.IH [OF s'(2) this] show ?thesis
        using True False wait want s'(5) kgets_frame_trans [OF s'(3)]
        by (auto simp: edit_line.simps [of _ typed] echo_line.simps [of _ typed] split: option.splits)
    qed
  qed
qed

lemma kgets_line:
  fixes s :: "'a kprintf_state_scheme"
  assumes "console_live s" and "0 \<le> sz" "sz < 2 ^ 31"
    and "\<And>k. k \<le> nat sz \<Longrightarrow> \<not> in_range (textmemptr s) 4000 (buffer + of_nat k)"
  shows "case edit_line (nat sz) [] chars of
      None \<Rightarrow> kgets buffer sz chars s = None
    | Some (line, rest) \<Rightarrow> \<exists>s'. kgets buffer sz chars s = Some (int (length line), rest, s') \<and>
        cstr (mem s') buffer line \<and> int (length line) \<le> sz \<and> console_live s' \<and>
        keyboard_buffer_handler s' = None \<and>
        term_of s' = fold term_put (echo_line (nat sz) [] chars) (term_of s) \<and>
        textmemptr s' = textmemptr s \<and> kbuf s' = kbuf s \<and> kprintf_state.more s' = kprintf_state.more s \<and>
        (\<forall>x. \<not> in_range (textmemptr s) 4000 x \<and> \<not> in_range buffer (Suc (nat sz)) x \<longrightarrow> mem s' x = mem s x)"
proof -
  let ?s = "kgets_start buffer sz s"
  have ok: "kgets_ok ?s []"
    using assms by (simp add: kgets_start_def kgets_ok_def console_live_def console_ok_def
          uart_live_def tx_ready_def)
  have start: "kgets_newline ?s = 0" "kgets_want ?s = sz" "kgets_buffer ?s = buffer" "textmemptr ?s = textmemptr s"
    "kbuf ?s = kbuf s" "kprintf_state.more ?s = kprintf_state.more s" "mem ?s = mem s"
    by (simp_all add: kgets_start_def)
  have screen: "term_of ?s = term_of s" by (rule term_of_cong) (simp_all add: kgets_start_def)
  have fin: "cstr (mem (snd (kgets_finish buffer s1))) buffer line \<and>
      fst (kgets_finish buffer s1) = int (length line) \<and> int (length line) \<le> sz \<and>
      console_live (snd (kgets_finish buffer s1)) \<and>
      keyboard_buffer_handler (snd (kgets_finish buffer s1)) = None \<and>
      term_of (snd (kgets_finish buffer s1)) = term_of s1 \<and> kgets_frame ?s (snd (kgets_finish buffer s1))"
    if s1: "kgets_ok s1 line" "kgets_frame ?s s1" for s1 :: "'a kprintf_state_scheme" and line
  proof -
    have f: "kgets_collected s1 = int (length line)" "kgets_buffer s1 = buffer" "kgets_want s1 = sz"
      and nz: "0 \<notin> set line" and len: "length line < 2 ^ 32"
      using s1 start assms(3) by (auto simp: kgets_ok_def kgets_frame_def)
    have "mem s1 (buffer + of_nat k) = line ! k" if "k < length line" for k
      using that s1(1) f by (simp add: kgets_ok_def)
    moreover have "k < 2 ^ 32" if "k < length line" for k using len that by linarith
    ultimately have "cstr ((mem s1)(buffer + of_nat (length line) := 0)) buffer line"
      using nz len by (auto simp: cstr_nth of_nat_inject_small) (metis nth_mem)
    moreover have "length line \<le> nat (kgets_want s1)" using s1(1) by (auto simp: kgets_ok_def)
    note poke = kgets_poke [OF s1(1) this, of 0]
    let ?m = "(mem s1)(kgets_buffer s1 + of_nat (length line) := 0)"
    have "term_of (s1\<lparr>mem := ?m, keyboard_buffer_handler := None\<rparr>) = term_of (s1\<lparr>mem := ?m\<rparr>)"
      by (rule term_of_cong) simp_all
    moreover have "kgets_frame (s1\<lparr>mem := ?m\<rparr>) (s1\<lparr>mem := ?m, keyboard_buffer_handler := None\<rparr>)"
      by (simp add: kgets_frame_def)
    then have "kgets_frame ?s (s1\<lparr>mem := ?m, keyboard_buffer_handler := None\<rparr>)"
      using kgets_frame_trans [OF kgets_frame_trans [OF s1(2) poke(2)]] by blast
    ultimately show ?thesis
      using f s1(1) poke(1)
      by (simp add: kgets_finish_def Let_def kgets_ok_def console_live_def console_ok_def uart_live_def tx_ready_def)
  qed
  show ?thesis
  proof (cases "edit_line (nat sz) [] chars")
    case None
    then show ?thesis using kgets_wait_edit [OF ok start(1), of chars] by (simp add: kgets_def start)
  next
    case (Some r)
    obtain line rest where r: "r = (line, rest)" by (cases r)
    obtain s1 where s1: "kgets_wait sz chars ?s = Some (rest, s1)" "kgets_ok s1 line" "kgets_frame ?s s1"
      "term_of s1 = fold term_put (echo_line (nat sz) [] chars) (term_of ?s)"
      using kgets_wait_edit [OF ok start(1), of chars] Some unfolding r start(2) by auto
    show ?thesis
      using fin [OF s1(2,3)] s1(1,4) Some unfolding r kgets_def kgets_frame_def start screen
      by (auto simp: case_prod_unfold)
  qed
qed

section \<open>Properties\<close>

text \<open>C35: the number conversions are lossless: \<^verbatim>\<open>parse_num\<close> in base 10 returns and emits decimal
  digits only, at most ten of them, and reading them back gives the number; \<^verbatim>\<open>parse_hex\<close> emits
  exactly eight digits that read back as the number.\<close>

theorem number_roundtrip:
  "(\<exists>ds. parse_num v 10 s = Some (put_bufs ds s) \<and> 1 \<le> length ds \<and> length ds \<le> 10 \<and>
      (\<forall>d \<in> set ds. 0x30 \<le> unat d \<and> unat d \<le> 0x39) \<and> dec_value ds = unat v) \<and>
   (\<exists>hs. parse_hex v s = put_bufs hs s \<and> length hs = 8 \<and> hex_value hs = unat v)"
proof
  have "unat v < 2 ^ 32" using unsigned_less [of v] by simp
  then have "unat v < 10 ^ 10" by simp
  then have "length (dec_digits (unat v)) \<le> 10" by (intro dec_digits_length) simp_all
  moreover have "1 \<le> length (dec_digits (unat v))"
    using dec_digits_nonempty [of "unat v"] by (cases "dec_digits (unat v)") auto
  ultimately show "\<exists>ds. parse_num v 10 s = Some (put_bufs ds s) \<and> 1 \<le> length ds \<and> length ds \<le> 10 \<and>
      (\<forall>d \<in> set ds. 0x30 \<le> unat d \<and> unat d \<le> 0x39) \<and> dec_value ds = unat v"
    using dec_digits_range [of _ "unat v"] by (auto simp: parse_num_10 dec_value_digits)
  show "\<exists>hs. parse_hex v s = put_bufs hs s \<and> length hs = 8 \<and> hex_value hs = unat v"
    by (intro exI [of _ "hex_string v"])
       (simp add: parse_hex_bufs hex_value_string, simp add: hex_string_def)
qed

text \<open>C28: \<^verbatim>\<open>kprintf\<close> prints exactly the text its format and arguments describe, when that text
  fits the 1024-byte buffer and holds no NUL, and the format and the strings lie outside the
  buffers: it returns, the screen is the terminal after that text, and no byte outside the
  output buffer and the text buffer changes.\<close>

theorem kprintf_prints:
  assumes "console_ok s" and "uart_live s" and "kbuf_apart s" and "render str f args = Some out"
    and "length out < 1024" and "0 \<notin> set out" and "str_apart s fmt f" and "strings_apart s str"
  shows "\<exists>s'. kprintf fmt args s = ret s' \<and> console_ok s' \<and> uart_live s' \<and>
    term_of s' = fold term_put out (term_of s) \<and>
    (\<forall>x. \<not> in_kbuf s x \<and> \<not> in_range (textmemptr s) 4000 x \<longrightarrow> mem s' x = mem s x)"
proof -
  have "console_live s" using assms(1,2) by (simp add: console_live_def)
  then obtain s' where "kprintf fmt args s = ret s'" "console_live s'"
    "term_of s' = fold term_put out (term_of s)"
    "\<And>x. \<not> in_kbuf s x \<Longrightarrow> \<not> in_range (textmemptr s) 4000 x \<Longrightarrow> mem s' x = mem s x"
    using assms(3-8) by (rule kprintf_render) blast
  then show ?thesis by (auto simp: console_live_def)
qed

definition demo_kprintf :: kprintf_state where
  "demo_kprintf = \<lparr>mem = (\<lambda>_. 0)(0x1000 := 0x25, 0x1001 := 0x64), ports_out = [], io_clock = 0,
     env = (\<lambda>_ _. 0x20), cr0 = 0, cr3 = 0, textmemptr = 0xB8000, attrib = 0x0F, csr_x = 0,
     csr_y = 0, kbuf = 0x2000, ptr = 0, kgets_buffer = 0, kgets_collected = 0, kgets_want = 0,
     kgets_newline = 0, kgets_cancel = 0, keyboard_buffer_handler = None\<rparr>"

theorem number_roundtrip_witness:
  "\<exists>ds. parse_num 1234 10 demo_kprintf = Some (put_bufs ds demo_kprintf) \<and> dec_value ds = 1234"
  using number_roundtrip [of 1234 demo_kprintf] by auto

lemma demo_kprintf_ok: "console_ok demo_kprintf" "uart_live demo_kprintf" "kbuf_apart demo_kprintf"
  "str_apart demo_kprintf 0x1000 [0x25, 0x64]"
proof -
  show "console_ok demo_kprintf" "uart_live demo_kprintf"
    by (auto simp: demo_kprintf_def console_ok_def uart_live_def tx_ready_def)
  show "kbuf_apart demo_kprintf"
    unfolding kbuf_apart_def
  proof (intro allI impI)
    fix x assume "in_kbuf demo_kprintf x"
    then obtain k where k: "k < 1024" "x = 0x2000 + of_nat k"
      unfolding in_kbuf_def by (elim in_range_obtain) (simp add: demo_kprintf_def)
    have "(0x2000 + of_nat k :: u32) - 0xB8000 = of_nat (0xFFF4A000 + k)" by simp
    moreover have "unat (of_nat (0xFFF4A000 + k) :: u32) = 0xFFF4A000 + k"
      using k(1) by (intro unat_of_nat_small) simp
    ultimately have "unat (x - 0xB8000) = 0xFFF4A000 + k" using k(2) by (simp only:)
    then show "\<not> in_range (textmemptr demo_kprintf) 4000 x"
      by (simp add: in_range_def demo_kprintf_def)
  qed
  show "str_apart demo_kprintf 0x1000 [0x25, 0x64]"
    by (auto simp: str_apart_def in_kbuf_def in_range_def demo_kprintf_def le_Suc_eq)
qed

lemma demo_kprintf_render:
  "render Map.empty [0x25, 0x64] [42] = Some [0x34, 0x32]"
  by (simp add: conv_text_def dec_digits.simps)

theorem kprintf_prints_witness:
  "\<exists>s'. kprintf 0x1000 [42] demo_kprintf = ret s' \<and>
     term_of s' = fold term_put [0x34, 0x32] (term_of demo_kprintf)"
  using kprintf_prints [OF demo_kprintf_ok(1,2,3) demo_kprintf_render _ _ demo_kprintf_ok(4)]
  by (auto simp: strings_apart_def)

text \<open>C29: \<^verbatim>\<open>kgets\<close> returns the line the typed characters edit, backspace included, stored as a
  string of at most \<open>sz\<close> characters in the caller's buffer, and removes its handler; it waits
  forever exactly when the characters end before the line does.\<close>

theorem kgets_edits_line:
  assumes "console_ok s" and "uart_live s" and "0 \<le> sz" and "sz < 2 ^ 31"
    and "\<forall>k \<le> nat sz. \<not> in_range (textmemptr s) 4000 (buffer + of_nat k)"
  shows "case edit_line (nat sz) [] chars of
      None \<Rightarrow> kgets buffer sz chars s = None
    | Some (line, rest) \<Rightarrow> \<exists>s'. kgets buffer sz chars s = Some (int (length line), rest, s') \<and>
        cstr (mem s') buffer line \<and> int (length line) \<le> sz \<and> console_ok s' \<and>
        keyboard_buffer_handler s' = None"
  using kgets_line [of s sz buffer chars] assms
  by (auto simp: console_live_def split: option.splits)

lemma demo_edit: "edit_line 4 [] [0x61, 8, 0x62, 10, 0x63] = Some ([0x62], [0x63])"
  by (simp add: edit_line.simps edit_char_def)

theorem kgets_edits_line_witness:
  "\<exists>s'. kgets 0x3000 4 [0x61, 8, 0x62, 10, 0x63] demo_kprintf = Some (1, [0x63], s') \<and>
     cstr (mem s') 0x3000 [0x62]"
proof -
  have "\<not> in_range (textmemptr demo_kprintf) 4000 (0x3000 + of_nat k)" if "k \<le> 4" for k
  proof -
    have "k = 0 \<or> k = 1 \<or> k = 2 \<or> k = 3 \<or> k = 4" using that by linarith
    then show ?thesis by (auto simp: demo_kprintf_def in_range_def)
  qed
  then have "\<forall>k \<le> nat 4. \<not> in_range (textmemptr demo_kprintf) 4000 (0x3000 + of_nat k)" by simp
  then show ?thesis
    using kgets_edits_line [OF demo_kprintf_ok(1,2), of 4 "0x3000" "[0x61, 8, 0x62, 10, 0x63]"]
    by (auto simp: demo_edit)
qed

end
