(* ===== verification/Interrupts.thy ===== *)
theory Interrupts
  imports Kprintf
begin

text \<open>
  Descriptor tables and interrupt dispatch: \<^verbatim>\<open>kernel/core/gdt.c\<close>, \<^verbatim>\<open>idt.c\<close>, \<^verbatim>\<open>isrs.c\<close>,
  \<^verbatim>\<open>irq.c\<close> and \<^verbatim>\<open>timer.c\<close>, with the two instructions of \<^verbatim>\<open>start.asm\<close> they call.
  The tables \<^verbatim>\<open>gdt\<close> and \<^verbatim>\<open>idt\<close> are packed arrays of 8-byte entries in the flat
  memory, because the processor reads them there; the tables of C handlers are lists of
  function pointers.  The addresses the linker chose (of the tables, of the assembly stubs
  and of the string literals) are fields of the state.
\<close>

record gdt_entry =
  limit_low :: u16
  base_low :: u16
  base_middle :: u8
  access :: u8
  granularity :: u8
  base_high :: u8

record idt_entry =
  gate_base_low :: u16
  gate_sel :: u16
  gate_zero :: u8
  gate_flags :: u8
  gate_base_high :: u16

record table_ptr =
  table_limit :: u16
  table_base :: u32

datatype irq_fun = page_fault_fn | timer_handler_fn | keyboard_handler_fn | serial_handler_fn
  \<comment> \<open>the functions that are installed as handlers\<close>

record regs =
  r_gs :: u32  r_fs :: u32  r_es :: u32  r_ds :: u32
  r_edi :: u32  r_esi :: u32  r_ebp :: u32  r_esp :: u32
  r_ebx :: u32  r_edx :: u32  r_ecx :: u32  r_eax :: u32
  int_no :: u32  err_code :: u32
  r_eip :: u32  r_cs :: u32  r_eflags :: u32  r_useresp :: u32  r_ss :: u32

record interrupts = kprintf_state +
  gdt :: u32
  gp :: table_ptr
  idt :: u32
  idtp :: table_ptr
  gdtr :: table_ptr
  idtr :: table_ptr
  data_selector :: u16
  code_selector :: u16
  interrupt_flag :: bool
  isr_stub :: "nat \<Rightarrow> u32"
  irq_stub :: "nat \<Rightarrow> u32"
  isrs_routines :: "irq_fun option list"
  irq_routines :: "irq_fun option list"
  lit :: "string \<Rightarrow> u32"
  timer_ticks :: u32
  ticker :: u32

section \<open>gdt.c\<close>

definition gdt_set_gate :: "int \<Rightarrow> u32 \<Rightarrow> u32 \<Rightarrow> u8 \<Rightarrow> u8 \<Rightarrow>
    'a interrupts_scheme \<Rightarrow> 'a interrupts_scheme" where
  "gdt_set_gate num base limit acc gran s =
     (let e = gdt s + 8 * of_int num;
          m1 = st16 (mem s) (e + 2) (ucast (base AND 0xFFFF));
          m2 = m1(e + 4 := ucast (drop_bit 16 base AND 0xFF));
          m3 = m2(e + 7 := ucast (drop_bit 24 base AND 0xFF));
          m4 = st16 m3 e (ucast (limit AND 0xFFFF));
          m5 = m4(e + 6 := ucast (drop_bit 16 limit AND 0x0F));
          m6 = m5(e + 6 := m5 (e + 6) OR (gran AND 0xF0));
          m7 = m6(e + 5 := acc)
      in s\<lparr>mem := m7\<rparr>)"

definition gdt_flush :: "'a interrupts_scheme \<Rightarrow> 'a interrupts_scheme" where
  "gdt_flush s = s\<lparr>gdtr := gp s, data_selector := 0x10, code_selector := 0x08\<rparr>"

definition gdt_install :: "'a interrupts_scheme \<Rightarrow> 'a interrupts_scheme" where
  "gdt_install s =
     (let s1 = s\<lparr>gp := \<lparr>table_limit = 8 * 3 - 1, table_base = gdt s\<rparr>\<rparr>;
          s2 = gdt_set_gate 0 0 0 0 0 s1;
          s3 = gdt_set_gate 1 0 0xFFFFFFFF 0x9A 0xCF s2;
          s4 = gdt_set_gate 2 0 0xFFFFFFFF 0x92 0xCF s3
      in gdt_flush s4)"

section \<open>idt.c\<close>

definition idt_set_gate :: "u8 \<Rightarrow> u32 \<Rightarrow> u16 \<Rightarrow> u8 \<Rightarrow>
    'a interrupts_scheme \<Rightarrow> 'a interrupts_scheme" where
  "idt_set_gate num base sel flags s =
     (let e = idt s + 8 * ucast num;
          m1 = st16 (mem s) e (ucast (base AND 0xFFFF));
          m2 = st16 m1 (e + 6) (ucast (drop_bit 16 base AND 0xFFFF));
          m3 = st16 m2 (e + 2) sel;
          m4 = m3(e + 4 := 0);
          m5 = m4(e + 5 := flags)
      in s\<lparr>mem := m5\<rparr>)"

definition idt_load :: "'a interrupts_scheme \<Rightarrow> 'a interrupts_scheme" where
  "idt_load s = s\<lparr>idtr := idtp s\<rparr>"

definition idt_install :: "'a interrupts_scheme \<Rightarrow> 'a interrupts_scheme" where
  "idt_install s =
     (let s1 = s\<lparr>idtp := \<lparr>table_limit = 8 * 256 - 1, table_base = idt s\<rparr>\<rparr>;
          s2 = s1\<lparr>mem := memset (mem s1) (idt s1) 0 (8 * 256)\<rparr>
      in idt_load s2)"

section \<open>isrs.c\<close>

definition isrs_install_handler ::
  "int \<Rightarrow> irq_fun \<Rightarrow> 'a interrupts_scheme \<Rightarrow> 'a interrupts_scheme run" where
  "isrs_install_handler isrs handler s =
     (if 0 \<le> isrs \<and> isrs < int (length (isrs_routines s))
      then ret (s\<lparr>isrs_routines := (isrs_routines s)[nat isrs := Some handler]\<rparr>)
      else halt (Undefined ''isrs_routines''))"

definition isrs_uninstall_handler ::
  "int \<Rightarrow> 'a interrupts_scheme \<Rightarrow> 'a interrupts_scheme run" where
  "isrs_uninstall_handler isrs s =
     (if 0 \<le> isrs \<and> isrs < int (length (isrs_routines s))
      then ret (s\<lparr>isrs_routines := (isrs_routines s)[nat isrs := None]\<rparr>)
      else halt (Undefined ''isrs_routines''))"

definition isrs_install :: "'a interrupts_scheme \<Rightarrow> 'a interrupts_scheme" where
  "isrs_install s =
     fold (\<lambda>i s. idt_set_gate (of_nat i) (isr_stub s i) 0x08 0x8E s) [0..<32] s"

definition exception_messages :: "string list" where
  "exception_messages =
    [''Division by zero'', ''Debug'', ''Non-maskable interrupt'', ''Breakpoint'',
     ''Detected overflow'', ''Out-of-bounds'', ''Invalid opcode'', ''No coprocessor'',
     ''Double fault'', ''Coprocessor segment overrun'', ''Bad TSS'', ''Segment not present'',
     ''Stack fault'', ''General protection fault'', ''Page fault'', ''Unknown interrupt'',
     ''Coprocessor fault'', ''Alignment check'', ''Machine check''] @ replicate 13 ''Reserved''"

text \<open>
  \<open>call\<close> runs the function a handler pointer points to.  \<^verbatim>\<open>HALT_AND_CATCH_FIRE\<close> stops the
  machine, so what it prints before that is not part of the outcome.
\<close>

definition fault_handler ::
  "(irq_fun \<Rightarrow> regs \<Rightarrow> 'a interrupts_scheme \<Rightarrow> 'a interrupts_scheme run) \<Rightarrow>
   regs \<Rightarrow> 'a interrupts_scheme \<Rightarrow> 'a interrupts_scheme run" where
  "fault_handler call r s =
     (if int_no r < 32 then
        (let i = unat (int_no r) in
         if i \<ge> length (isrs_routines s) then halt (Undefined ''isrs_routines'')
         else case isrs_routines s ! i of
           Some handler \<Rightarrow> call handler r s
         | None \<Rightarrow>
             bind_run (kprintf (lit s (''%s exception encountered.'' @ [CHR 0x0A]))
                         [lit s (exception_messages ! i)] s) (\<lambda>s1.
             bind_run (lift_run (puts (lit s1 (exception_messages ! i)) s1)) (\<lambda>s2.
             halt (Panic ''System halted.''))))
      else ret s)"

section \<open>irq.c\<close>

definition irq_install_handler ::
  "int \<Rightarrow> irq_fun \<Rightarrow> 'a interrupts_scheme \<Rightarrow> 'a interrupts_scheme run" where
  "irq_install_handler irq handler s =
     (if 0 \<le> irq \<and> irq < int (length (irq_routines s))
      then ret (s\<lparr>irq_routines := (irq_routines s)[nat irq := Some handler]\<rparr>)
      else halt (Undefined ''irq_routines''))"

definition irq_uninstall_handler ::
  "int \<Rightarrow> 'a interrupts_scheme \<Rightarrow> 'a interrupts_scheme run" where
  "irq_uninstall_handler irq s =
     (if 0 \<le> irq \<and> irq < int (length (irq_routines s))
      then ret (s\<lparr>irq_routines := (irq_routines s)[nat irq := None]\<rparr>)
      else halt (Undefined ''irq_routines''))"

definition irq_remap :: "'a interrupts_scheme \<Rightarrow> 'a interrupts_scheme" where
  "irq_remap s = fold (\<lambda>(port, v). outportb port v)
     [(0x20, 0x11), (0xA0, 0x11), (0x21, 0x20), (0xA1, 0x28), (0x21, 0x04), (0xA1, 0x02),
      (0x21, 0x01), (0xA1, 0x01), (0x21, 0x0), (0xA1, 0x0)] s"

definition irq_install :: "'a interrupts_scheme \<Rightarrow> 'a interrupts_scheme" where
  "irq_install s =
     (let s1 = fold (\<lambda>i s. idt_set_gate (of_nat (32 + i)) (irq_stub s i) 0x08 0x8E s) [0..<16]
                 (irq_remap s)
      in s1\<lparr>interrupt_flag := True\<rparr>)"

definition irq_handler ::
  "(irq_fun \<Rightarrow> regs \<Rightarrow> 'a interrupts_scheme \<Rightarrow> 'a interrupts_scheme run) \<Rightarrow>
   regs \<Rightarrow> 'a interrupts_scheme \<Rightarrow> 'a interrupts_scheme run" where
  "irq_handler call r s =
     (let i = unat (int_no r - 32) in
      if i \<ge> length (irq_routines s) then halt (Undefined ''irq_routines'')
      else bind_run (case irq_routines s ! i of Some handler \<Rightarrow> call handler r s | None \<Rightarrow> ret s)
        (\<lambda>s1. let s2 = (if int_no r \<ge> 40 then outportb 0xA0 0x20 s1 else s1)
              in ret (outportb 0x20 0x20 s2)))"

section \<open>timer.c\<close>

text \<open>\<^verbatim>\<open>int\<close> division by 0 traps; the caller passes 100.\<close>

definition timer_phase :: "int \<Rightarrow> 'a interrupts_scheme \<Rightarrow> 'a interrupts_scheme run" where
  "timer_phase hz s =
     (if hz = 0 then halt (Undefined ''timer_phase'')
      else let divisor = sgn hz * (1193180 div \<bar>hz\<bar>);
               s1 = outportb 0x43 0x36 s;
               s2 = outportb 0x40 (of_int (divisor AND 0xFF)) s1
           in ret (outportb 0x40 (of_int (drop_bit 8 divisor AND 0xFF)) s2))"

definition timer_handler :: "regs \<Rightarrow> 'a interrupts_scheme \<Rightarrow> 'a interrupts_scheme" where
  "timer_handler r s =
     (let s1 = s\<lparr>timer_ticks := timer_ticks s + 1\<rparr>
      in if sint (timer_ticks s1) mod 18 = 0 then s1\<lparr>ticker := ticker s1 + 1\<rparr> else s1)"

definition timer_install :: "'a interrupts_scheme \<Rightarrow> 'a interrupts_scheme run" where
  "timer_install s = bind_run (irq_install_handler 0 timer_handler_fn s) (timer_phase 100)"

section \<open>Serial input\<close>

text \<open>The buffer handler is called through its pointer; the one it can point to is \<^verbatim>\<open>kgets_handler\<close>.\<close>

definition call_buffer_handler :: "u8 \<Rightarrow> 'a interrupts_scheme \<Rightarrow> 'a interrupts_scheme option" where
  "call_buffer_handler ch s =
     (case keyboard_buffer_handler s of None \<Rightarrow> Some s | Some kgets_handler_fn \<Rightarrow> kgets_handler ch s)"

definition serial_handler :: "regs \<Rightarrow> 'a interrupts_scheme \<Rightarrow> 'a interrupts_scheme option" where
  "serial_handler r s =
     (case serial_recv s of None \<Rightarrow> None
      | Some (serial, s1) \<Rightarrow>
          (let serial1 = (if serial = 127 then 0x08 else if serial = 13 then 10 else serial)
           in call_buffer_handler serial1 s1))"

definition serial_install :: "'a interrupts_scheme \<Rightarrow> 'a interrupts_scheme run" where
  "serial_install s =
     (let s1 = fold (\<lambda>(reg, v). outportb (SERIAL_PORT_A + reg) v)
          [(1, 0x00), (3, 0x80), (0, 0x03), (1, 0x00), (3, 0x03), (2, 0xC7), (4, 0x0B)] s
      in bind_run (irq_install_handler 4 serial_handler_fn s1)
           (\<lambda>s2. ret (outportb (SERIAL_PORT_A + 1) 0x01 s2)))"

section \<open>What the processor reads\<close>

text \<open>
  An entry of either table is eight bytes of memory.  \<open>desc_base\<close>, \<open>desc_limit\<close> and
  \<open>desc_flags\<close> put the scattered fields of a segment descriptor together, and
  \<open>gate_offset\<close> those of an interrupt gate, as the processor's manual lays them out.
\<close>

definition gdt_entry_at :: "mem \<Rightarrow> u32 \<Rightarrow> gdt_entry" where
  "gdt_entry_at m e = \<lparr>limit_low = ld16 m e, base_low = ld16 m (e + 2), base_middle = m (e + 4),
     access = m (e + 5), granularity = m (e + 6), base_high = m (e + 7)\<rparr>"

definition desc_base :: "gdt_entry \<Rightarrow> u32" where
  "desc_base d = ucast (base_low d) OR push_bit 16 (ucast (base_middle d))
     OR push_bit 24 (ucast (base_high d))"

definition desc_limit :: "gdt_entry \<Rightarrow> u32" where
  "desc_limit d = ucast (limit_low d) OR push_bit 16 (ucast (granularity d AND 0x0F))"

definition desc_flags :: "gdt_entry \<Rightarrow> u8" where
  "desc_flags d = granularity d AND 0xF0"

definition idt_entry_at :: "mem \<Rightarrow> u32 \<Rightarrow> idt_entry" where
  "idt_entry_at m e = \<lparr>gate_base_low = ld16 m e, gate_sel = ld16 m (e + 2), gate_zero = m (e + 4),
     gate_flags = m (e + 5), gate_base_high = ld16 m (e + 6)\<rparr>"

definition gate_offset :: "idt_entry \<Rightarrow> u32" where
  "gate_offset g = ucast (gate_base_low g) OR push_bit 16 (ucast (gate_base_high g))"

definition interrupt_gate :: "u32 \<Rightarrow> idt_entry" where
  "interrupt_gate f = \<lparr>gate_base_low = ucast f, gate_sel = 0x08, gate_zero = 0, gate_flags = 0x8E,
     gate_base_high = ucast (drop_bit 16 f)\<rparr>"

lemma u16_mask [simp]: "(ucast (x AND 0xFFFF :: u32) :: u16) = ucast x"
  by (rule bit_word_eqI) (auto simp: bit_simps numeral_eq_Suc less_Suc_eq)

lemma u8_mask [simp]: "(ucast (x AND 0xFF :: u32) :: u8) = ucast x"
  by (rule bit_word_eqI) (auto simp: bit_simps numeral_eq_Suc less_Suc_eq)

lemma bytes_u16 [simp]: "ucast (ucast v :: u8) OR push_bit 8 (ucast (ucast (drop_bit 8 v) :: u8)) = (v :: u16)"
  by (rule bit_word_eqI) (auto simp: bit_simps)

lemma gdt_set_gate_entry:
  "gdt_entry_at (mem (gdt_set_gate num base limit acc gran s)) (gdt s + 8 * of_int num) =
     \<lparr>limit_low = ucast limit, base_low = ucast base, base_middle = ucast (drop_bit 16 base),
      access = acc, granularity = ucast (drop_bit 16 limit AND 0x0F) OR (gran AND 0xF0),
      base_high = ucast (drop_bit 24 base)\<rparr>"
  unfolding gdt_set_gate_def gdt_entry_at_def
  by (simp add: Let_def ld16_def st16_def add.assoc)

lemma bit_low_nibble: "bit (0x0F :: int) n \<longleftrightarrow> n < 4"
proof -
  have "(0x0F :: int) = mask 4" by (simp add: mask_numeral)
  then show ?thesis by (simp only: bit_mask_iff) simp
qed

lemma bit_high_nibble: "bit (0xF0 :: int) n \<longleftrightarrow> 4 \<le> n \<and> n < 8"
proof -
  have "(0xF0 :: int) = push_bit 4 (mask 4)" by (simp add: mask_numeral push_bit_eq_mult)
  then show ?thesis by (simp only: bit_push_bit_iff bit_mask_iff) auto
qed

lemma desc_parts:
  "desc_base \<lparr>limit_low = l, base_low = ucast base, base_middle = ucast (drop_bit 16 base),
      access = acc, granularity = g, base_high = ucast (drop_bit 24 base)\<rparr> = base"
proof (rule bit_word_eqI)
  fix n assume "n < LENGTH(32)"
  then consider "n < 16" | "16 \<le> n" "n < 24" | "24 \<le> n" "n < 32" by fastforce
  then show "bit (desc_base \<lparr>limit_low = l, base_low = ucast base,
      base_middle = ucast (drop_bit 16 base), access = acc, granularity = g,
      base_high = ucast (drop_bit 24 base)\<rparr>) n \<longleftrightarrow> bit base n"
    by cases (auto simp: desc_base_def bit_simps)
qed

lemma desc_limit_parts:
  "desc_limit \<lparr>limit_low = ucast limit, base_low = bl, base_middle = bm, access = acc,
      granularity = ucast (drop_bit 16 limit AND 0x0F) OR (gran AND 0xF0), base_high = bh\<rparr>
   = take_bit 20 limit" (is "?l = ?r")
proof (rule bit_word_eqI)
  fix n assume "n < LENGTH(32)"
  then consider "n < 16" | "16 \<le> n" "n < 20" | "20 \<le> n" "n < 32" by fastforce
  then show "bit ?l n \<longleftrightarrow> bit ?r n"
    by cases (auto simp: desc_limit_def bit_simps bit_low_nibble bit_high_nibble)
qed

lemma desc_flags_parts:
  "(ucast (drop_bit 16 limit AND 0x0F :: u32) OR (gran AND 0xF0)) AND 0xF0 = (gran AND 0xF0 :: u8)"
  by (rule bit_word_eqI) (auto simp: bit_simps bit_low_nibble bit_high_nibble)

lemma gdt_set_gate_outside:
  "\<not> in_range (gdt s + 8 * of_int num) 8 x \<Longrightarrow> mem (gdt_set_gate num base limit acc gran s) x = mem s x"
  by (auto simp: gdt_set_gate_def Let_def st16_def in_range_def)

lemma idt_set_gate_entry:
  "idt_entry_at (mem (idt_set_gate num base sel flags s)) (idt s + 8 * ucast num) =
     \<lparr>gate_base_low = ucast base, gate_sel = sel, gate_zero = 0, gate_flags = flags,
      gate_base_high = ucast (drop_bit 16 base)\<rparr>"
  unfolding idt_set_gate_def idt_entry_at_def
  by (simp add: Let_def ld16_def st16_def add.assoc)

lemma idt_set_gate_outside:
  "\<not> in_range (idt s + 8 * ucast num) 8 x \<Longrightarrow> mem (idt_set_gate num base sel flags s) x = mem s x"
  by (auto simp: idt_set_gate_def Let_def st16_def in_range_def)

lemma gate_offset_interrupt [simp]: "gate_offset (interrupt_gate f) = f"
  by (rule bit_word_eqI) (auto simp: gate_offset_def interrupt_gate_def bit_simps)

section \<open>Whole tables\<close>

lemma idt_entry_at_cong:
  assumes "\<And>k. k < 8 \<Longrightarrow> m (e + of_nat k) = m' (e + of_nat k)"
  shows "idt_entry_at m e = idt_entry_at m' e"
  using assms [of 0] assms [of 1] assms [of 2] assms [of 3] assms [of 4] assms [of 5]
    assms [of 6] assms [of 7]
  by (simp add: idt_entry_at_def ld16_def add.assoc)

lemma entries_disjoint:
  assumes "i < 2 ^ 29" and "j < 2 ^ 29" and "i \<noteq> j" and "k < 8"
  shows "\<not> in_range (b + 8 * of_nat i) 8 (b + 8 * of_nat j + of_nat k)"
  using slots_disjoint [of 8 i j k b] assms by simp

lemma gate_number: "n < 256 \<Longrightarrow> (ucast (of_nat n :: u8) :: u32) = of_nat n"
  by (simp add: unsigned_of_nat take_bit_nat_eq_self)

lemma idt_set_gate_same [simp]:
  "idt (idt_set_gate num base sel flags s) = idt s"
  "isr_stub (idt_set_gate num base sel flags s) = isr_stub s"
  "irq_stub (idt_set_gate num base sel flags s) = irq_stub s"
  by (simp_all add: idt_set_gate_def Let_def)

lemma idt_set_gate_table:
  assumes "n < 256" and "k < 256"
  shows "idt_entry_at (mem (idt_set_gate (of_nat n) f 0x08 0x8E s)) (idt s + 8 * of_nat k) =
    (if k = n then interrupt_gate f else idt_entry_at (mem s) (idt s + 8 * of_nat k))"
proof (cases "k = n")
  case True
  then show ?thesis
    using idt_set_gate_entry [of "of_nat n" f "0x08" "0x8E" s] gate_number [OF assms(1)]
    by (simp add: interrupt_gate_def)
next
  case False
  then have "idt_entry_at (mem (idt_set_gate (of_nat n) f 0x08 0x8E s)) (idt s + 8 * of_nat k) =
      idt_entry_at (mem s) (idt s + 8 * of_nat k)"
    using assms entries_disjoint [of n k]
    by (intro idt_entry_at_cong idt_set_gate_outside) (simp add: gate_number)
  with False show ?thesis by simp
qed

lemma install_gates:
  assumes "\<And>i. i < n \<Longrightarrow> base + i < 256" and "k < 256"
  shows "idt_entry_at (mem (fold (\<lambda>i. idt_set_gate (of_nat (base + i)) (f i) 0x08 0x8E) [0..<n] s))
      (idt s + 8 * of_nat k) =
    (if base \<le> k \<and> k < base + n then interrupt_gate (f (k - base))
     else idt_entry_at (mem s) (idt s + 8 * of_nat k)) \<and>
    idt (fold (\<lambda>i. idt_set_gate (of_nat (base + i)) (f i) 0x08 0x8E) [0..<n] s) = idt s"
  using assms(1)
proof (induction n)
  case (Suc n)
  let ?s = "fold (\<lambda>i. idt_set_gate (of_nat (base + i)) (f i) 0x08 0x8E) [0..<n] s"
  have "base + n < 256" using Suc.prems by simp
  then have "idt_entry_at (mem (idt_set_gate (of_nat (base + n)) (f n) 0x08 0x8E ?s))
      (idt ?s + 8 * of_nat k) = (if k = base + n then interrupt_gate (f n)
        else idt_entry_at (mem ?s) (idt ?s + 8 * of_nat k))"
    using assms(2) by (rule idt_set_gate_table)
  moreover note Suc.IH [OF Suc.prems]
  ultimately show ?case by (auto simp del: of_nat_add)
qed auto

lemma install_fold:
  assumes "\<And>i s. stub (idt_set_gate (of_nat (base + i)) (f i) 0x08 0x8E s) = stub s"
    and "f = stub s"
  shows "fold (\<lambda>i s. idt_set_gate (of_nat (base + i)) (stub s i) 0x08 0x8E s) ns s =
    fold (\<lambda>i. idt_set_gate (of_nat (base + i)) (f i) 0x08 0x8E) ns s"
  using assms(2)
proof (induction ns arbitrary: s)
  case (Cons i ns)
  have "f = stub (idt_set_gate (of_nat (base + i)) (f i) 0x08 0x8E s)" using assms(1) Cons.prems by simp
  from Cons.IH [OF this] show ?case using Cons.prems by simp
qed simp


definition absent_gate :: idt_entry where
  "absent_gate = \<lparr>gate_base_low = 0, gate_sel = 0, gate_zero = 0, gate_flags = 0, gate_base_high = 0\<rparr>"

lemma idt_install_table:
  assumes "k < 256"
  shows "idt_entry_at (mem (idt_install s)) (idt s + 8 * of_nat k) = absent_gate"
proof -
  have "mem (idt_install s) (idt s + 8 * of_nat k + of_nat j) = 0" if "j < 8" for j
  proof -
    have "in_range (idt s) 2048 (idt s + of_nat (8 * k + j))"
      using assms that by (intro in_range_offset) simp_all
    then have at: "in_range (idt s) 2048 (idt s + 8 * of_nat k + of_nat j)" by (simp add: ac_simps)
    have "mem (idt_install s) = memset (mem s) (idt s) 0 2048"
      by (simp add: idt_install_def idt_load_def Let_def)
    moreover have "unat (2048 :: u32) = 2048" by simp
    ultimately show ?thesis using at by (simp only: memset_apply if_True) simp
  qed
  then have "idt_entry_at (mem (idt_install s)) (idt s + 8 * of_nat k) =
      idt_entry_at (\<lambda>_. 0) (idt s + 8 * of_nat k)"
    by (intro idt_entry_at_cong) simp
  then show ?thesis by (simp add: idt_entry_at_def absent_gate_def ld16_def)
qed

lemma outportb_interrupts [simp]:
  "mem (outportb p v s) = mem s" "idt (outportb p v s) = idt s"
  "irq_stub (outportb p v s) = irq_stub s" "isr_stub (outportb p v s) = isr_stub s"
  "isrs_routines (outportb p v s) = isrs_routines s" "irq_routines (outportb p v s) = irq_routines s"
  by (simp_all add: outportb_def)

lemma interrupts_flag_mem: "mem (s\<lparr>interrupt_flag := b\<rparr>) = mem s"
  by simp

lemma irq_remap_fields [simp]:
  "mem (irq_remap s) = mem s" "idt (irq_remap s) = idt s" "irq_stub (irq_remap s) = irq_stub s"
  by (simp_all add: irq_remap_def)

lemma isrs_install_table:
  assumes "k < 256"
  shows "idt_entry_at (mem (isrs_install s)) (idt s + 8 * of_nat k) =
    (if k < 32 then interrupt_gate (isr_stub s k)
     else idt_entry_at (mem s) (idt s + 8 * of_nat k))" and "idt (isrs_install s) = idt s"
proof -
  have "isrs_install s = fold (\<lambda>i. idt_set_gate (of_nat (0 + i)) (isr_stub s i) 0x08 0x8E) [0..<32] s"
    unfolding isrs_install_def
    using install_fold [of isr_stub 0 "isr_stub s" s "[0..<32]"]
    by (simp del: upt_rec_numeral)
  then show "idt_entry_at (mem (isrs_install s)) (idt s + 8 * of_nat k) =
    (if k < 32 then interrupt_gate (isr_stub s k)
     else idt_entry_at (mem s) (idt s + 8 * of_nat k))" and "idt (isrs_install s) = idt s"
    using install_gates [of 32 0 k "isr_stub s" s] assms
    by (simp_all del: upt_rec_numeral)
qed

lemma fold_idt_set_gate_irq_stub:
  "irq_stub (fold (\<lambda>i. idt_set_gate (of_nat i) (f i) 0x08 0x8E) ns s) = irq_stub s"
  by (induction ns arbitrary: s) simp_all

lemma isrs_install_irq_stub: "irq_stub (isrs_install s) = irq_stub s"
  using install_fold [of isr_stub 0 "isr_stub s" s "[0..<32]"]
  by (simp add: isrs_install_def fold_idt_set_gate_irq_stub)

lemma irq_install_table:
  assumes "k < 256"
  shows "idt_entry_at (mem (irq_install s)) (idt s + 8 * of_nat k) =
    (if 32 \<le> k \<and> k < 48 then interrupt_gate (irq_stub s (k - 32))
     else idt_entry_at (mem s) (idt s + 8 * of_nat k))"
proof -
  let ?r = "irq_remap s"
  let ?fold = "fold (\<lambda>i. idt_set_gate (of_nat (32 + i)) (irq_stub s i) 0x08 0x8E) [0..<16] ?r"
  have "fold (\<lambda>i s. idt_set_gate (of_nat (32 + i)) (irq_stub s i) 0x08 0x8E s) [0..<16] ?r = ?fold"
    by (rule install_fold) (rule idt_set_gate_same(3), rule irq_remap_fields(3) [symmetric])
  then have "mem (irq_install s) = mem ?fold"
    unfolding irq_install_def Let_def by (simp only:) (rule interrupts_flag_mem)
  moreover have "idt_entry_at (mem ?fold) (idt ?r + 8 * of_nat k) =
      (if 32 \<le> k \<and> k < 32 + 16 then interrupt_gate (irq_stub s (k - 32))
       else idt_entry_at (mem ?r) (idt ?r + 8 * of_nat k))"
    by (rule install_gates [THEN conjunct1]) (use assms in simp_all)
  ultimately show ?thesis by (simp only: irq_remap_fields) simp
qed

lemma gates_installed:
  assumes "k < 256"
  shows "idt_entry_at (mem (irq_install (isrs_install (idt_install s)))) (idt s + 8 * of_nat k) =
    (if k < 32 then interrupt_gate (isr_stub s k)
     else if k < 48 then interrupt_gate (irq_stub s (k - 32)) else absent_gate)"
proof -
  have same: "idt (idt_install s) = idt s" "isr_stub (idt_install s) = isr_stub s"
    "irq_stub (idt_install s) = irq_stub s"
    by (simp_all add: idt_install_def idt_load_def Let_def)
  let ?s = "isrs_install (idt_install s)"
  have stub: "irq_stub ?s = irq_stub s" and idt: "idt ?s = idt s"
    using isrs_install_table(2) [OF assms, of "idt_install s"] same
    by (simp_all add: isrs_install_irq_stub)
  have "idt_entry_at (mem ?s) (idt s + 8 * of_nat k) =
      (if k < 32 then interrupt_gate (isr_stub s k) else absent_gate)"
    using isrs_install_table(1) [OF assms, of "idt_install s"] idt_install_table [OF assms, of s]
    by (simp only: same if_cancel)
  then show ?thesis
    unfolding irq_install_table [OF assms, of ?s, unfolded stub idt]
    by (simp only:) simp
qed

section \<open>Dispatch\<close>

text \<open>The bytes of a string literal, and literals that lie apart from both buffers.\<close>

definition bytes :: "string \<Rightarrow> u8 list" where
  "bytes t = map of_char t"

definition lit_ok :: "'a interrupts_scheme \<Rightarrow> string \<Rightarrow> bool" where
  "lit_ok s t \<longleftrightarrow> length t < 512 \<and> str_apart s (lit s t) (bytes t) \<and>
     (\<forall>k \<le> length t. \<not> in_range (textmemptr s) 4000 (lit s t + of_nat k))"

lemma lit_more:
  assumes "kprintf_state.more s' = kprintf_state.more s"
  shows "lit s' = lit s"
  using assms by (cases s; cases s'; simp)

lemma lit_ok_preserved:
  assumes "lit_ok s t" and "lit s' = lit s" "textmemptr s' = textmemptr s" "kbuf s' = kbuf s"
    and "\<And>x. \<not> in_kbuf s x \<Longrightarrow> \<not> in_range (textmemptr s) 4000 x \<Longrightarrow> mem s' x = mem s x"
  shows "lit_ok s' t"
proof -
  have kb: "in_kbuf s' = in_kbuf s" using assms(4) by (simp add: in_kbuf_def fun_eq_iff)
  have "mem s' (lit s t + of_nat k) = mem s (lit s t + of_nat k)" if "k \<le> length t" for k
    using assms(1,5) that by (auto simp: lit_ok_def str_apart_def bytes_def)
  then have "cstr (mem s') (lit s t) (bytes t) = cstr (mem s) (lit s t) (bytes t)"
    by (intro cstr_cong) (simp add: bytes_def)
  then show ?thesis using assms(1-4) kb by (simp add: lit_ok_def str_apart_def)
qed

lemma puts_lit:
  assumes "console_live s" and "lit_ok s t"
  shows "puts (lit s t) s = send_all writech (bytes t) s"
  using assms by (intro puts_send_all) (auto simp: lit_ok_def str_apart_def bytes_def)

lemma exception_message_bytes:
  "i < 32 \<Longrightarrow> 0 \<notin> set (bytes (exception_messages ! i)) \<and> length (exception_messages ! i) < 30"
proof -
  have "\<forall>t \<in> set exception_messages. 0 \<notin> set (bytes t) \<and> length t < 30"
    by (simp add: exception_messages_def bytes_def)
  moreover have "length exception_messages = 32" by (simp add: exception_messages_def)
  ultimately show "i < 32 \<Longrightarrow> ?thesis" using nth_mem by metis
qed

definition exception_format :: string where
  "exception_format = ''%s exception encountered.'' @ [CHR 0x0A]"

lemma render_exception:
  "str a = Some cs \<Longrightarrow> render str (bytes exception_format) [a] =
     Some (cs @ bytes (drop 2 exception_format))"
  by (simp add: exception_format_def bytes_def conv_text_def)

lemma fault_handler_panics:
  assumes live: "console_live s" and apart: "kbuf_apart s"
    and none: "int_no r < 32" "length (isrs_routines s) = 32" "isrs_routines s ! unat (int_no r) = None"
    and lits: "lit_ok s exception_format" "lit_ok s (exception_messages ! unat (int_no r))"
  shows "fault_handler call r s = halt (Panic ''System halted.'')"
proof -
  let ?i = "unat (int_no r)" and ?t = "exception_messages ! unat (int_no r)"
  have i: "?i < 32" using none(1) by (simp add: word_less_nat_alt)
  note msg = exception_message_bytes [OF i]
  let ?str = "[lit s ?t \<mapsto> bytes ?t]"
  let ?out = "bytes ?t @ bytes (drop 2 exception_format)"
  have tail: "0 \<notin> set (bytes (drop 2 exception_format))" "length (drop 2 exception_format) = 24"
    by (simp_all add: exception_format_def bytes_def)
  obtain s' where s': "kprintf (lit s exception_format) [lit s ?t] s = ret s'" "console_live s'"
    "\<And>x. \<not> in_kbuf s x \<Longrightarrow> \<not> in_range (textmemptr s) 4000 x \<Longrightarrow> mem s' x = mem s x"
    "textmemptr s' = textmemptr s" "kbuf s' = kbuf s" "kprintf_state.more s' = kprintf_state.more s"
  proof (rule kprintf_render [OF live apart, of ?str "bytes exception_format" "[lit s ?t]" ?out])
    show "render ?str (bytes exception_format) [lit s ?t] = Some ?out"
      by (rule render_exception) simp
    show "length ?out < 1024" using msg tail by (simp add: bytes_def)
    show "0 \<notin> set ?out" using msg tail by simp
    show "str_apart s (lit s exception_format) (bytes exception_format)" "strings_apart s ?str"
      using lits by (simp_all add: lit_ok_def strings_apart_def)
  qed blast
  have lit: "lit s' = lit s" using s'(6) by (rule lit_more)
  have ok: "lit_ok s' ?t" using lits(2) lit s'(4,5,3) by (rule lit_ok_preserved)
  obtain s'' where "send_all writech (bytes ?t) s' = Some s''"
    using s'(2) by (rule send_console)
  then have "puts (lit s ?t) s' = Some s''"
    using puts_lit [OF s'(2) ok] lit by simp
  then show ?thesis
    using none i s'(1) lit by (simp add: fault_handler_def lift_run_def exception_format_def)
qed

lemma irq_handler_ports:
  assumes "32 \<le> int_no r" and "int_no r < 48" and "length (irq_routines s) = 16"
    and "case irq_routines s ! (unat (int_no r) - 32) of
           Some h \<Rightarrow> call h r s = ret s1 | None \<Rightarrow> s1 = s"
  shows "irq_handler call r s = ret (s1\<lparr>ports_out := ports_out s1 @
    (if int_no r < 40 then [(0x20, 0x20)] else [(0xA0, 0x20), (0x20, 0x20)])\<rparr>)"
proof -
  have i: "unat (int_no r - 32) = unat (int_no r) - 32"
    using assms(1) by (simp add: unat_sub)
  have "unat (int_no r) - 32 < 16" using assms(1,2) by (simp add: word_less_nat_alt word_le_nat_alt)
  then have "irq_handler call r s = bind_run (ret s1)
      (\<lambda>s1. ret (outportb 0x20 0x20 (if int_no r \<ge> 40 then outportb 0xA0 0x20 s1 else s1)))"
    using assms(3,4) by (auto simp: irq_handler_def i Let_def split: option.splits)
  then show ?thesis by (auto simp: outportb_def not_less)
qed

section \<open>The timer\<close>

text \<open>\<^verbatim>\<open>ticker\<close> counts the completed groups of 18 ticks.\<close>

definition timer_ok :: "'a interrupts_scheme \<Rightarrow> bool" where
  "timer_ok s \<longleftrightarrow> unat (timer_ticks s) < 2 ^ 31 \<and> unat (ticker s) = unat (timer_ticks s) div 18"

lemma timer_handler_ok:
  assumes "timer_ok s" and "unat (timer_ticks s) < 2 ^ 31 - 1"
  shows "timer_ok (timer_handler r s)"
    and "unat (timer_ticks (timer_handler r s)) = Suc (unat (timer_ticks s))"
proof -
  have t: "unat (timer_ticks s + 1) = Suc (unat (timer_ticks s))"
    using assms(2) unat_add_small [of "timer_ticks s" 1] by simp
  have sint: "sint (timer_ticks s + 1) = int (Suc (unat (timer_ticks s)))"
    using sint_small [of "timer_ticks s + 1"] t assms(2) by simp
  have "unat (ticker s) + 1 < 2 ^ 32" using assms by (simp add: timer_ok_def)
  then have k: "unat (ticker s + 1) = Suc (unat (ticker s))"
    using unat_add_small [of "ticker s" 1] by simp
  have div: "sint (timer_ticks s + 1) mod 18 = 0 \<longleftrightarrow> Suc (unat (timer_ticks s)) mod 18 = 0"
    unfolding sint using zmod_int [of "Suc (unat (timer_ticks s))" 18] by auto
  show "unat (timer_ticks (timer_handler r s)) = Suc (unat (timer_ticks s))"
    by (simp add: timer_handler_def t Let_def)
  show "timer_ok (timer_handler r s)"
    using assms t k by (simp add: timer_ok_def timer_handler_def Let_def div div_Suc)
qed

lemma and_mask_255: "(x :: int) AND 0xFF = x mod 256"
  using take_bit_eq_mask [of 8 x] by (simp add: mask_numeral take_bit_eq_mod)

lemma timer_phase_bytes:
  assumes "19 \<le> hz" and "hz \<le> 1193180"
  shows "\<exists>lo hi. timer_phase hz s =
      ret (s\<lparr>ports_out := ports_out s @ [(0x43, 0x36), (0x40, lo), (0x40, hi)]\<rparr>) \<and>
    256 * uint hi + uint lo = 1193180 div hz"
proof -
  let ?d = "1193180 div hz"
  have "?d \<le> 1193180 div 19" using assms by (intro zdiv_mono2) simp_all
  then have d: "0 \<le> ?d" "?d < 65536" using assms by (simp_all add: pos_imp_zdiv_nonneg_iff)
  define lo :: u8 where "lo = of_int (?d mod 256)"
  define hi :: u8 where "hi = of_int (?d div 256)"
  have "uint lo = ?d mod 256" by (simp add: lo_def uint_word_of_int)
  moreover have hi: "0 \<le> ?d div 256" "?d div 256 < 256" using d by linarith+
  then have "uint hi = ?d div 256"
    by (simp add: hi_def uint_word_of_int)
  moreover have "?d AND 0xFF = ?d mod 256" using and_mask_255 [of ?d] .
  moreover have "drop_bit 8 ?d AND 0xFF = ?d div 256"
  proof -
    have "drop_bit 8 ?d AND 0xFF = (?d div 256) mod 256"
      using and_mask_255 [of "drop_bit 8 ?d"] by (simp add: drop_bit_eq_div)
    also have "\<dots> = ?d div 256" using hi by simp
    finally show ?thesis .
  qed
  ultimately show ?thesis using assms
    by (intro exI [of _ lo] exI [of _ hi]) (simp add: timer_phase_def Let_def outportb_def lo_def hi_def)
qed

section \<open>Properties\<close>

text \<open>C32: \<^verbatim>\<open>gdt_set_gate\<close> writes the descriptor the processor decodes to the given base, the low 20
  bits of the limit, the access byte and the high nibble of the granularity, and changes no
  byte outside that entry.\<close>

theorem gdt_set_gate_decodes:
  "(let d = gdt_entry_at (mem (gdt_set_gate num base limit acc gran s)) (gdt s + 8 * of_int num)
    in desc_base d = base \<and> desc_limit d = take_bit 20 limit \<and> access d = acc \<and>
       desc_flags d = gran AND 0xF0) \<and>
   (in_range (gdt s + 8 * of_int num) 8 x \<or> mem (gdt_set_gate num base limit acc gran s) x = mem s x)"
  using gdt_set_gate_outside [of s num x base limit acc gran]
  by (auto simp: gdt_set_gate_entry Let_def desc_parts desc_limit_parts desc_flags_def desc_flags_parts)

text \<open>C31: after \<^verbatim>\<open>idt_install\<close>, \<^verbatim>\<open>isrs_install\<close> and \<^verbatim>\<open>irq_install\<close>, in the order \<^verbatim>\<open>main\<close> calls
  them, the 256 entries of the table in memory are interrupt gates to the 32 exception stubs,
  then to the 16 hardware stubs, and absent gates.\<close>

theorem idt_complete:
  assumes "k < 256"
  shows "idt_entry_at (mem (irq_install (isrs_install (idt_install s)))) (idt s + 8 * of_nat k) =
    (if k < 32 then interrupt_gate (isr_stub s k)
     else if k < 48 then interrupt_gate (irq_stub s (k - 32)) else absent_gate)"
  using assms by (rule gates_installed)

definition demo_interrupts :: interrupts where
  "demo_interrupts = \<lparr>mem = (\<lambda>_. 0)(0x1000 := 0x25, 0x1001 := 0x73), ports_out = [], io_clock = 0,
     env = (\<lambda>_ _. 0x20), cr0 = 0, cr3 = 0, textmemptr = 0xB8000, attrib = 0x0F, csr_x = 0,
     csr_y = 0, kbuf = 0x2000, ptr = 0, kgets_buffer = 0, kgets_collected = 0, kgets_want = 0,
     kgets_newline = 0, kgets_cancel = 0, keyboard_buffer_handler = None,
     gdt = 0x5000, gp = \<lparr>table_limit = 0, table_base = 0\<rparr>, idt = 0x6000,
     idtp = \<lparr>table_limit = 0, table_base = 0\<rparr>, gdtr = \<lparr>table_limit = 0, table_base = 0\<rparr>,
     idtr = \<lparr>table_limit = 0, table_base = 0\<rparr>, data_selector = 0, code_selector = 0,
     interrupt_flag = False, isr_stub = (\<lambda>n. 0x100000 + 16 * of_nat n),
     irq_stub = (\<lambda>n. 0x101000 + 16 * of_nat n), isrs_routines = replicate 32 None,
     irq_routines = replicate 16 None, lit = (\<lambda>_. 0x3000), timer_ticks = 17, ticker = 0\<rparr>"

theorem idt_complete_witness:
  "idt_entry_at (mem (irq_install (isrs_install (idt_install demo_interrupts)))) (0x6000 + 8 * of_nat 33) =
     interrupt_gate (0x101000 + 16 * 1)"
  using idt_complete [of 33 demo_interrupts] by (simp add: demo_interrupts_def)

text \<open>C34: a hardware interrupt runs the installed handler, if there is one, and acknowledges it
  afterwards: to the master controller always, to the slave before that exactly for lines
  8 to 15.\<close>

theorem irq_acknowledged:
  assumes "32 \<le> int_no r" and "int_no r < 48" and "length (irq_routines s) = 16"
    and "case irq_routines s ! (unat (int_no r) - 32) of
           Some h \<Rightarrow> call h r s = ret s1 | None \<Rightarrow> s1 = s"
  shows "irq_handler call r s = ret (s1\<lparr>ports_out := ports_out s1 @
    (if int_no r < 40 then [(0x20, 0x20)] else [(0xA0, 0x20), (0x20, 0x20)])\<rparr>)"
  using assms by (rule irq_handler_ports)

definition demo_regs :: "u32 \<Rightarrow> regs" where
  "demo_regs n = \<lparr>r_gs = 0, r_fs = 0, r_es = 0, r_ds = 0, r_edi = 0, r_esi = 0, r_ebp = 0, r_esp = 0,
     r_ebx = 0, r_edx = 0, r_ecx = 0, r_eax = 0, int_no = n, err_code = 0, r_eip = 0, r_cs = 0,
     r_eflags = 0, r_useresp = 0, r_ss = 0\<rparr>"

theorem irq_acknowledged_witness:
  "irq_handler (\<lambda>h r s. ret (timer_handler r s)) (demo_regs 32)
      (demo_interrupts\<lparr>irq_routines := Some timer_handler_fn # replicate 15 None\<rparr>) =
   ret ((timer_handler (demo_regs 32)
      (demo_interrupts\<lparr>irq_routines := Some timer_handler_fn # replicate 15 None\<rparr>))\<lparr>ports_out :=
        [(0x20, 0x20)]\<rparr>)"
  using irq_acknowledged [of "demo_regs 32"
      "demo_interrupts\<lparr>irq_routines := Some timer_handler_fn # replicate 15 None\<rparr>"
      "timer_handler (demo_regs 32)
        (demo_interrupts\<lparr>irq_routines := Some timer_handler_fn # replicate 15 None\<rparr>)"
      "\<lambda>h r s. ret (timer_handler r s)"]
  by (simp add: demo_regs_def demo_interrupts_def timer_handler_def Let_def)

text \<open>C33: a processor exception with no handler installed always stops the machine: printing the
  message before neither fails nor loops, and the handler does not return.\<close>

theorem unhandled_exception_panics:
  assumes "console_ok s" and "uart_live s" and "kbuf_apart s" and "int_no r < 32"
    and "length (isrs_routines s) = 32" and "isrs_routines s ! unat (int_no r) = None"
    and "lit_ok s exception_format" and "lit_ok s (exception_messages ! unat (int_no r))"
  shows "fault_handler call r s = halt (Panic ''System halted.'')"
  using assms by (intro fault_handler_panics) (simp_all add: console_live_def)

definition demo_fault :: interrupts where
  "demo_fault = demo_interrupts\<lparr>lit := (\<lambda>t. if t = exception_format then 0x3000 else 0x3100),
     mem := with_string 0x3000 (bytes exception_format)
              (with_string 0x3100 (bytes ''Breakpoint'') (\<lambda>_. 0))\<rparr>"

lemma demo_fault_apart:
  assumes "0x3000 \<le> unat p" and "unat p + 512 \<le> 0x10000" and "k < 512"
  shows "\<not> in_kbuf demo_fault (p + of_nat k)" "\<not> in_range (textmemptr demo_fault) 4000 (p + of_nat k)"
  unfolding in_kbuf_def
  by (rule range_apart [where l = 512]; use assms in \<open>simp add: demo_fault_def demo_interrupts_def\<close>)+

lemma demo_fault_ok:
  "console_ok demo_fault" "uart_live demo_fault" "kbuf_apart demo_fault"
  "lit_ok demo_fault exception_format" "lit_ok demo_fault ''Breakpoint''"
proof -
  show "console_ok demo_fault" "uart_live demo_fault"
    by (auto simp: demo_fault_def demo_interrupts_def console_ok_def uart_live_def tx_ready_def)
  show "kbuf_apart demo_fault"
    unfolding kbuf_apart_def
  proof (intro allI impI)
    fix x assume "in_kbuf demo_fault x"
    then obtain k where k: "k < 1024" "x = 0x2000 + of_nat k"
      unfolding in_kbuf_def by (elim in_range_obtain) (simp add: demo_fault_def demo_interrupts_def)
    then show "\<not> in_range (textmemptr demo_fault) 4000 x"
      unfolding k(2) by (intro range_apart [where l = 1024]) (simp_all add: demo_fault_def demo_interrupts_def)
  qed
  have fmt: "length exception_format = 26" "0 \<notin> set (bytes exception_format)"
    "length (bytes exception_format) = 26"
    and msg: "0 \<notin> set (bytes ''Breakpoint'')" "length (bytes ''Breakpoint'') = 10"
    by (simp_all add: exception_format_def bytes_def)
  have "cstr (mem demo_fault) 0x3000 (bytes exception_format)"
    using fmt by (simp add: demo_fault_def cstr_with_string)
  then show "lit_ok demo_fault exception_format"
    using demo_fault_apart [of "0x3000"] fmt
    by (auto simp: lit_ok_def str_apart_def) (auto simp: demo_fault_def)
  have "\<not> in_range 0x3000 27 (0x3100 + of_nat k)" if "k < 11" for k
    using that by (intro range_apart [where l = 11]) simp_all
  then have "with_string 0x3000 (bytes exception_format) m (0x3100 + of_nat k) = m (0x3100 + of_nat k)"
    if "k < 11" for m k using that fmt by (intro with_string_outside) simp
  then have "cstr (mem demo_fault) 0x3100 (bytes ''Breakpoint'') =
      cstr (with_string 0x3100 (bytes ''Breakpoint'') (\<lambda>_. 0)) 0x3100 (bytes ''Breakpoint'')"
    using msg(2) by (intro cstr_cong) (simp add: demo_fault_def)
  then have "cstr (mem demo_fault) 0x3100 (bytes ''Breakpoint'')"
    using msg by (simp add: cstr_with_string)
  then show "lit_ok demo_fault ''Breakpoint''"
    using demo_fault_apart [of "0x3100"] msg
    by (auto simp: lit_ok_def str_apart_def) (auto simp: demo_fault_def exception_format_def)
qed

theorem unhandled_exception_panics_witness:
  "fault_handler (\<lambda>h r s. ret s) (demo_regs 3) demo_fault = halt (Panic ''System halted.'')"
  using unhandled_exception_panics [OF demo_fault_ok(1-3), of "demo_regs 3"] demo_fault_ok(4,5)
  by (simp add: demo_regs_def demo_fault_def demo_interrupts_def exception_messages_def)

text \<open>each tick advances the counter by one and keeps \<^verbatim>\<open>ticker\<close> equal to the number of
  completed groups of 18 ticks, up to the last tick a signed counter can hold.\<close>

theorem timer_counts:
  assumes "timer_ok s" and "unat (timer_ticks s) < 2 ^ 31 - 1"
  shows "timer_ok (timer_handler r s) \<and>
    unat (timer_ticks (timer_handler r s)) = Suc (unat (timer_ticks s))"
  using timer_handler_ok [OF assms] by simp

theorem timer_counts_witness:
  "timer_ok (timer_handler (demo_regs 32) demo_interrupts) \<and>
   unat (timer_ticks (timer_handler (demo_regs 32) demo_interrupts)) = 18"
  using timer_counts [of demo_interrupts "demo_regs 32"]
  by (simp add: timer_ok_def demo_interrupts_def)

text \<open>\<^verbatim>\<open>timer_phase\<close> programs the divisor of the timer chip, low byte first, for every rate
  from 19 Hz, below which the divisor does not fit, up to the clock's own.\<close>

theorem timer_phase_programs:
  assumes "19 \<le> hz" and "hz \<le> 1193180"
  shows "\<exists>lo hi. timer_phase hz s =
      ret (s\<lparr>ports_out := ports_out s @ [(0x43, 0x36), (0x40, lo), (0x40, hi)]\<rparr>) \<and>
    256 * uint hi + uint lo = 1193180 div hz"
  using assms by (rule timer_phase_bytes)

theorem timer_phase_programs_witness:
  "\<exists>lo hi. timer_phase 100 demo_interrupts =
      ret (demo_interrupts\<lparr>ports_out := [(0x43, 0x36), (0x40, lo), (0x40, hi)]\<rparr>) \<and>
    256 * uint hi + uint lo = 11931"
  using timer_phase_programs [of 100 demo_interrupts] by (simp add: demo_interrupts_def)

end
