(* ===== verification/KMem.thy ===== *)
theory KMem
  imports Interrupts
begin

text \<open>
  Kernel memory, \<^verbatim>\<open>kernel/core/mem.c\<close>: the placement allocator, the bitmap of physical
  frames, page tables, and \<^verbatim>\<open>sbrk\<close>.  The bitmap, the page directory and the page tables are
  where the code puts them, in the flat memory, so an overlap of two of them is visible in
  the model.  A \<^verbatim>\<open>page_t\<close> is a 32-bit word with its bit fields; a \<^verbatim>\<open>page_directory_t\<close> is
  1024 pointers to tables, 1024 physical addresses and one more word, 8196 bytes.
\<close>

record kmm = interrupts +
  placement_pointer :: u32
  frames :: u32
  nframes :: u32
  kernel_directory :: u32
  current_directory :: u32
  heap_end :: u32
  cr2 :: u32

section \<open>The placement allocator\<close>

definition kmalloc_startat :: "u32 \<Rightarrow> 'a kmm_scheme \<Rightarrow> 'a kmm_scheme" where
  "kmalloc_startat address s = s\<lparr>placement_pointer := address\<rparr>"

text \<open>
  \<open>want_phys\<close> says whether \<^verbatim>\<open>phys\<close> is a pointer; the second component of the result is the
  value stored through it.
\<close>

definition kmalloc_real :: "u32 \<Rightarrow> bool \<Rightarrow> bool \<Rightarrow> 'a kmm_scheme \<Rightarrow>
    u32 \<times> u32 option \<times> 'a kmm_scheme" where
  "kmalloc_real sz align want_phys s =
     (let s1 = (if align \<and> placement_pointer s AND 0xFFFFF000 \<noteq> 0
                then s\<lparr>placement_pointer := placement_pointer s AND 0xFFFFF000\<rparr> else s);
          phys = (if want_phys then Some (placement_pointer s1) else None);
          address = placement_pointer s1
      in (address, phys, s1\<lparr>placement_pointer := placement_pointer s1 + sz\<rparr>))"

definition kmalloc :: "u32 \<Rightarrow> 'a kmm_scheme \<Rightarrow> u32 \<times> 'a kmm_scheme" where
  "kmalloc sz s = (case kmalloc_real sz False False s of (a, p, s1) \<Rightarrow> (a, s1))"

definition kvmalloc :: "u32 \<Rightarrow> 'a kmm_scheme \<Rightarrow> u32 \<times> 'a kmm_scheme" where
  "kvmalloc sz s = (case kmalloc_real sz True False s of (a, p, s1) \<Rightarrow> (a, s1))"

definition kmalloc_p :: "u32 \<Rightarrow> 'a kmm_scheme \<Rightarrow> u32 \<times> u32 option \<times> 'a kmm_scheme" where
  "kmalloc_p sz s = kmalloc_real sz False True s"

definition kvmalloc_p :: "u32 \<Rightarrow> 'a kmm_scheme \<Rightarrow> u32 \<times> u32 option \<times> 'a kmm_scheme" where
  "kvmalloc_p sz s = kmalloc_real sz True True s"

section \<open>The frame bitmap\<close>

definition set_frame :: "u32 \<Rightarrow> 'a kmm_scheme \<Rightarrow> 'a kmm_scheme" where
  "set_frame frame_addr s =
     (let frame = frame_addr div 0x1000; index = frame div 0x20; offset = frame mod 0x20;
          a = frames s + 4 * index
      in s\<lparr>mem := st32 (mem s) a (ld32 (mem s) a OR push_bit (unat offset) 1)\<rparr>)"

definition clear_frame :: "u32 \<Rightarrow> 'a kmm_scheme \<Rightarrow> 'a kmm_scheme" where
  "clear_frame frame_addr s =
     (let frame = frame_addr div 0x1000; index = frame div 0x20; offset = frame mod 0x20;
          a = frames s + 4 * index
      in s\<lparr>mem := st32 (mem s) a (ld32 (mem s) a AND NOT (push_bit (unat offset) 1))\<rparr>)"

definition test_frame :: "u32 \<Rightarrow> 'a kmm_scheme \<Rightarrow> u32" where
  "test_frame frame_addr s =
     (let frame = frame_addr div 0x1000; index = frame div 0x20; offset = frame mod 0x20
      in ld32 (mem s) (frames s + 4 * index) AND push_bit (unat offset) 1)"

text \<open>The inner loop of \<^verbatim>\<open>first_frame\<close> looks for the first clear bit of one word.\<close>

definition first_clear_bit :: "u32 \<Rightarrow> nat option" where
  "first_clear_bit w = find (\<lambda>j. w AND push_bit j 1 = 0) [0..<32]"

function first_frame_loop :: "u32 \<Rightarrow> 'a kmm_scheme \<Rightarrow> u32" where
  "first_frame_loop i s =
     (if i < nframes s div 0x20 then
        (let w = ld32 (mem s) (frames s + 4 * i) in
         if w \<noteq> 0xFFFFFFFF then
           (case first_clear_bit w of Some j \<Rightarrow> i * 0x20 + of_nat j
            | None \<Rightarrow> first_frame_loop (i + 1) s)
         else first_frame_loop (i + 1) s)
      else - 1)"
  by pat_completeness auto
termination
  by (relation "measure (\<lambda>(i, s). unat (nframes s div 0x20) - unat i)") auto

definition first_frame :: "'a kmm_scheme \<Rightarrow> u32" where
  "first_frame s = first_frame_loop 0 s"

declare first_frame_loop.simps [simp del]

section \<open>Page table entries\<close>

definition pte_frame :: "u32 \<Rightarrow> u32" where
  "pte_frame w = drop_bit 12 w"

definition pte_flag :: "nat \<Rightarrow> bool \<Rightarrow> u32 \<Rightarrow> u32" where
  "pte_flag n b w = (if b then w OR push_bit n 1 else w AND NOT (push_bit n 1))"

definition pte_set_frame :: "u32 \<Rightarrow> u32 \<Rightarrow> u32" where
  "pte_set_frame f w = take_bit 12 w OR push_bit 12 f"

definition alloc_frame :: "u32 \<Rightarrow> bool \<Rightarrow> bool \<Rightarrow> 'a kmm_scheme \<Rightarrow> 'a kmm_scheme run" where
  "alloc_frame page is_kernel is_writeable s =
     (if pte_frame (ld32 (mem s) page) \<noteq> 0 then ret s
      else let index = first_frame s in
        if index = - 1 then halt (Panic ''Failed to allocate a frame: out of frames'')
        else let s1 = set_frame (index * 0x1000) s;
                 w1 = pte_flag 0 True (ld32 (mem s1) page);
                 w2 = pte_flag 1 is_writeable w1;
                 w3 = pte_flag 2 (\<not> is_kernel) w2;
                 w4 = pte_set_frame index w3
             in ret (s1\<lparr>mem := st32 (mem s1) page w4\<rparr>))"

definition free_frame :: "u32 \<Rightarrow> 'a kmm_scheme \<Rightarrow> 'a kmm_scheme" where
  "free_frame page s =
     (let frame = pte_frame (ld32 (mem s) page) in
      if frame = 0 then s
      else let s1 = clear_frame frame s
           in s1\<lparr>mem := st32 (mem s1) page (pte_set_frame 0 (ld32 (mem s1) page))\<rparr>)"

section \<open>Page directories\<close>

definition switch_page_directory :: "u32 \<Rightarrow> 'a kmm_scheme \<Rightarrow> 'a kmm_scheme" where
  "switch_page_directory dir s =
     s\<lparr>current_directory := dir, cr3 := dir + 0x1000, cr0 := cr0 s OR 0x80000000\<rparr>"

definition get_page :: "u32 \<Rightarrow> bool \<Rightarrow> u32 \<Rightarrow> 'a kmm_scheme \<Rightarrow> u32 \<times> 'a kmm_scheme" where
  "get_page addr mk dir s =
     (let address = addr div 0x1000;
          table_index = address div 1024;
          slot = dir + 4 * table_index
      in if ld32 (mem s) slot \<noteq> 0 then (ld32 (mem s) slot + 4 * (address mod 1024), s)
         else if mk then
           (case kvmalloc_p 0x1000 s of (table, phys, s1) \<Rightarrow>
              let m1 = st32 (mem s1) slot table;
                  m2 = memset m1 (ld32 m1 slot) 0 0x1000;
                  m3 = st32 m2 (dir + 0x1000 + 4 * table_index) (the phys OR 0x7)
              in (ld32 m3 slot + 4 * (address mod 1024), s1\<lparr>mem := m3\<rparr>))
         else (0, s))"

definition page_fault_format :: string where
  "page_fault_format =
     ''Page fault! (p:%d,rw:%d,user:%d,res:%d,id:%d) at 0x%x'' @ [CHR 0x0A]"

definition page_fault :: "regs \<Rightarrow> 'a kmm_scheme \<Rightarrow> 'a kmm_scheme run" where
  "page_fault r s =
     (let faulting_address = cr2 s;
          present = (if err_code r AND 0x1 = 0 then 1 else 0);
          rw = err_code r AND 0x2;
          user = err_code r AND 0x4;
          reserved = err_code r AND 0x8;
          id = err_code r AND 0x10
      in bind_run (kprintf (lit s page_fault_format)
             [present, rw, user, reserved, id, faulting_address] s)
           (\<lambda>_. halt (Panic ''Page fault'')))"

text \<open>
  The identity mapping: the bound \<^verbatim>\<open>placement_pointer\<close> moves while the loop makes page tables.
\<close>

partial_function (option) identity_map :: "u32 \<Rightarrow> 'a kmm_scheme \<Rightarrow> 'a kmm_scheme run" where
  "identity_map i s =
     (if i < placement_pointer s then
        (case get_page i True (kernel_directory s) s of (page, s1) \<Rightarrow>
           bind_run (alloc_frame page False False s1) (identity_map (i + 0x1000)))
      else ret s)"

definition paging_install :: "u32 \<Rightarrow> 'a kmm_scheme \<Rightarrow> 'a kmm_scheme run" where
  "paging_install memsize s =
     (let s1 = s\<lparr>nframes := memsize div 4\<rparr>;
          (fr, s2) = kmalloc (nframes s1 div 0x20) s1;
          s3 = s2\<lparr>frames := fr, mem := memset (mem s2) fr 0 (nframes s2 div 0x20)\<rparr>;
          (kd, s4) = kvmalloc 8196 s3;
          s5 = s4\<lparr>kernel_directory := kd, mem := memset (mem s4) kd 0 8196,
                  current_directory := kd\<rparr>
      in bind_run (identity_map 0 s5) (\<lambda>s6.
           bind_run (isrs_install_handler 14 page_fault_fn s6) (\<lambda>s7.
             ret (switch_page_directory (kernel_directory s7) s7))))"

section \<open>The heap's end\<close>

definition heap_install :: "'a kmm_scheme \<Rightarrow> 'a kmm_scheme" where
  "heap_install s = s\<lparr>heap_end := placement_pointer s, placement_pointer := 0\<rparr>"

text \<open>The loop of \<^verbatim>\<open>sbrk\<close> never ends when \<^verbatim>\<open>heap_end\<close> lies in the last page of the memory.\<close>

partial_function (option) sbrk_loop :: "u32 \<Rightarrow> 'a kmm_scheme \<Rightarrow> 'a kmm_scheme run" where
  "sbrk_loop i s =
     (if i < heap_end s then
        (case get_page i True (kernel_directory s) s of (_, s1) \<Rightarrow>
         case get_page i True (kernel_directory s1) s1 of (page, s2) \<Rightarrow>
           bind_run (alloc_frame page False False s2) (sbrk_loop (i + 0x1000)))
      else ret s)"

definition sbrk :: "u32 \<Rightarrow> 'a kmm_scheme \<Rightarrow> (u32 \<times> 'a kmm_scheme) run" where
  "sbrk increment s =
     bind_run (assert_run (increment mod 0x1000 = 0) ''increment % 0x1000 == 0'') (\<lambda>_.
       let address = heap_end s;
           s1 = s\<lparr>heap_end := heap_end s + increment\<rparr>
       in bind_run (sbrk_loop address s1) (\<lambda>s2. ret (address, s2)))"

section \<open>The bitmap as a set of frames\<close>

definition frame_used :: "'a kmm_scheme \<Rightarrow> nat \<Rightarrow> bool" where
  "frame_used s f \<longleftrightarrow> bit (word_at (mem s) (frames s) (f div 32)) (f mod 32)"

text \<open>\<^verbatim>\<open>first_frame\<close> looks at whole words of the bitmap only.\<close>

definition frame_limit :: "'a kmm_scheme \<Rightarrow> nat" where
  "frame_limit s = 32 * (unat (nframes s) div 32)"

lemma find_map: "find P (map f xs) = map_option f (find (\<lambda>x. P (f x)) xs)"
  by (induction xs) simp_all

lemma first_clear_bit_find:
  "map_option (\<lambda>j. 32 * k + j) (first_clear_bit w) =
     find (\<lambda>f. \<not> bit w (f mod 32)) [32 * k..<32 * k + 32]"
proof -
  have "[32 * k..<32 * k + 32] = map (\<lambda>j. 32 * k + j) [0..<32]"
    using map_add_upt [of "32 * k" 32] by (simp add: add.commute)
  moreover have "find (\<lambda>j. w AND push_bit j 1 = 0) [0..<32] =
      find (\<lambda>j. \<not> bit w ((32 * k + j) mod 32)) [0..<32]"
    by (intro find_cong) (simp_all add: and_exp_eq_0_iff_not_bit)
  ultimately show ?thesis by (simp add: first_clear_bit_def find_map del: upt_rec_numeral)
qed

lemma find_append: "find P (xs @ ys) = (case find P xs of None \<Rightarrow> find P ys | Some x \<Rightarrow> Some x)"
  by (induction xs) simp_all

lemma word_full_iff: "w = (0xFFFFFFFF :: u32) \<longleftrightarrow> (\<forall>j < 32. bit w j)"
proof -
  have "(0xFFFFFFFF :: u32) = mask 32" by (simp add: mask_numeral)
  then show ?thesis by (simp only: bit_eq_iff) (auto simp: bit_simps)
qed

lemma first_clear_bit_full: "first_clear_bit 0xFFFFFFFF = None"
  using word_full_iff [of "0xFFFFFFFF"]
  by (auto simp: first_clear_bit_def find_None_iff and_exp_eq_0_iff_not_bit simp del: upt_rec_numeral)

lemma first_frame_loop_find:
  "i \<le> nframes s div 0x20 \<Longrightarrow> first_frame_loop i s =
     (case find (\<lambda>f. \<not> frame_used s f) [32 * unat i..<frame_limit s] of
        None \<Rightarrow> - 1 | Some f \<Rightarrow> of_nat f)"
proof (induction i s rule: first_frame_loop.induct)
  case (1 i s)
  have n: "frame_limit s = 32 * unat (nframes s div 0x20)"
    by (simp add: frame_limit_def unat_div_distrib)
  show ?case
  proof (cases "i < nframes s div 0x20")
    case False
    with "1.prems" show ?thesis by (subst first_frame_loop.simps) (simp add: n)
  next
    case True
    let ?w = "ld32 (mem s) (frames s + 4 * i)"
    have lt: "unat i < unat (nframes s div 0x20)" using True by (simp add: word_less_nat_alt)
    have Suc: "unat (i + 1) = Suc (unat i)" using True by (rule word_Suc_less)
    have w: "word_at (mem s) (frames s) (unat i) = ?w" by (simp add: word_at_def)
    have "find (\<lambda>f. \<not> frame_used s f) [32 * unat i..<32 * unat i + 32] =
        find (\<lambda>f. \<not> bit ?w (f mod 32)) [32 * unat i..<32 * unat i + 32]"
    proof (rule find_cong [OF refl])
      fix f assume "f \<in> set [32 * unat i..<32 * unat i + 32]"
      then have "f div 32 = unat i" by auto
      then show "(\<not> frame_used s f) = (\<not> bit ?w (f mod 32))" by (simp add: frame_used_def w)
    qed
    then have here: "find (\<lambda>f. \<not> frame_used s f) [32 * unat i..<32 * unat i + 32] =
        map_option (\<lambda>j. 32 * unat i + j) (first_clear_bit ?w)"
      by (simp only: first_clear_bit_find)
    have "32 * unat i + 32 \<le> frame_limit s" using lt by (simp add: n)
    then obtain d where d: "frame_limit s = 32 * unat i + 32 + d" using le_Suc_ex by blast
    have "[32 * unat i..<frame_limit s] =
        [32 * unat i..<32 * unat i + 32] @ [32 * unat (i + 1)..<frame_limit s]"
      unfolding d Suc using upt_add_eq_append [of "32 * unat i" "32 * unat i + 32" d]
      by (simp add: add.commute [of 32])
    then have split: "find (\<lambda>f. \<not> frame_used s f) [32 * unat i..<frame_limit s] =
        (case first_clear_bit ?w of Some j \<Rightarrow> Some (32 * unat i + j)
         | None \<Rightarrow> find (\<lambda>f. \<not> frame_used s f) [32 * unat (i + 1)..<frame_limit s])"
      by (simp add: find_append here split: option.splits)
    have loop: "first_frame_loop i s = (case first_clear_bit ?w of Some j \<Rightarrow> i * 0x20 + of_nat j
        | None \<Rightarrow> first_frame_loop (i + 1) s)"
      using True first_clear_bit_full
      by (subst first_frame_loop.simps) (auto simp: Let_def split: option.splits)
    have "i + 1 \<le> nframes s div 0x20" using True by (rule word_Suc_le)
    then have "?w \<noteq> 0xFFFFFFFF \<Longrightarrow> first_clear_bit ?w = None \<Longrightarrow> ?thesis"
      and "?w = 0xFFFFFFFF \<Longrightarrow> ?thesis"
      using "1.IH" True loop split first_clear_bit_full by auto
    moreover have "first_clear_bit ?w = Some j \<Longrightarrow> ?thesis" for j
      using loop split by (simp add: mult.commute)
    ultimately show ?thesis by (cases "first_clear_bit ?w") auto
  qed
qed

lemma first_frame_find:
  "first_frame s = (case find (\<lambda>f. \<not> frame_used s f) [0..<frame_limit s] of
     None \<Rightarrow> - 1 | Some f \<Rightarrow> of_nat f)"
  using first_frame_loop_find [of 0 s] by (simp add: first_frame_def)

section \<open>Marking frames\<close>

lemma frame_address:
  assumes "f < 2 ^ 20"
  shows "(of_nat f * 0x1000 :: u32) div 0x1000 = of_nat f"
    and "(of_nat f :: u32) div 0x20 = of_nat (f div 32)"
    and "unat ((of_nat f :: u32) mod 0x20) = f mod 32"
proof -
  have f: "unat (of_nat f :: u32) = f" using assms by (intro unat_of_nat_small) simp
  have "unat (of_nat f * 0x1000 :: u32) = f * 4096"
    using assms by (simp add: unat_word_ariths f)
  then show "(of_nat f * 0x1000 :: u32) div 0x1000 = of_nat f"
    by (simp add: word_unat_eq_iff unat_div_distrib f)
  have "unat (of_nat (f div 32) :: u32) = f div 32" using assms by (intro unat_of_nat_small) simp
  then show "(of_nat f :: u32) div 0x20 = of_nat (f div 32)"
    by (simp add: word_unat_eq_iff unat_div_distrib f)
  show "unat ((of_nat f :: u32) mod 0x20) = f mod 32"
    by (simp add: unat_mod_distrib f)
qed

lemma set_frame_eq:
  assumes "f < 2 ^ 20"
  shows "set_frame (of_nat f * 0x1000) s =
    s\<lparr>mem := st32 (mem s) (frames s + 4 * of_nat (f div 32))
       (word_at (mem s) (frames s) (f div 32) OR push_bit (f mod 32) 1)\<rparr>"
  by (simp add: set_frame_def Let_def frame_address [OF assms] word_at_def)

lemma clear_frame_eq:
  assumes "f < 2 ^ 20"
  shows "clear_frame (of_nat f * 0x1000) s =
    s\<lparr>mem := st32 (mem s) (frames s + 4 * of_nat (f div 32))
       (word_at (mem s) (frames s) (f div 32) AND NOT (push_bit (f mod 32) 1))\<rparr>"
  by (simp add: clear_frame_def Let_def frame_address [OF assms] word_at_def)

lemma test_frame_used:
  assumes "f < 2 ^ 20"
  shows "test_frame (of_nat f * 0x1000) s \<noteq> 0 \<longleftrightarrow> frame_used s f"
  using and_exp_eq_0_iff_not_bit [of "word_at (mem s) (frames s) (f div 32)" "f mod 32"]
  by (simp add: test_frame_def Let_def frame_address [OF assms] frame_used_def word_at_def)

lemma same_bit_place: "g div 32 = f div 32 \<Longrightarrow> g mod 32 = f mod 32 \<longleftrightarrow> g = (f :: nat)"
  by (metis div_mult_mod_eq)

lemma set_frame_used:
  assumes "f < 2 ^ 20" and "g < 2 ^ 32"
  shows "frame_used (set_frame (of_nat f * 0x1000) s) g \<longleftrightarrow> g = f \<or> frame_used s g"
proof -
  have "f div 32 < 2 ^ 30" "g div 32 < 2 ^ 30" "g mod 32 < 32" using assms by simp_all
  then show ?thesis
    using same_bit_place [of g f]
    by (auto simp: frame_used_def set_frame_eq [OF assms(1)] word_at_st32 bit_simps)
qed

lemma clear_frame_used:
  assumes "f < 2 ^ 20" and "g < 2 ^ 32"
  shows "frame_used (clear_frame (of_nat f * 0x1000) s) g \<longleftrightarrow> g \<noteq> f \<and> frame_used s g"
proof -
  have "f div 32 < 2 ^ 30" "g div 32 < 2 ^ 30" "g mod 32 < 32" using assms by simp_all
  then show ?thesis
    using same_bit_place [of g f]
    by (auto simp: frame_used_def clear_frame_eq [OF assms(1)] word_at_st32 bit_simps)
qed

text \<open>The bytes of the bitmap.\<close>

definition in_bitmap :: "'a kmm_scheme \<Rightarrow> u32 \<Rightarrow> bool" where
  "in_bitmap s x \<longleftrightarrow> in_range (frames s) (4 * (unat (nframes s) div 32)) x"

lemma in_bitmap_word:
  assumes "f < frame_limit s" and "in_range (frames s + 4 * of_nat (f div 32)) 4 x"
  shows "in_bitmap s x"
proof -
  obtain k where k: "k < 4" "x = frames s + 4 * of_nat (f div 32) + of_nat k"
    using assms(2) by (rule in_range_obtain)
  have "f div 32 < unat (nframes s) div 32" using assms(1) by (simp add: frame_limit_def less_mult_imp_div_less mult.commute)
  moreover have "unat (nframes s) < 2 ^ 32" using unsigned_less [of "nframes s"] by simp
  ultimately have "in_range (frames s) (4 * (unat (nframes s) div 32))
      (frames s + of_nat (4 * (f div 32) + k))"
    using k(1) by (intro in_range_offset) simp_all
  then show ?thesis using k(2) by (simp add: in_bitmap_def add.assoc)
qed

lemma frame_used_cong:
  assumes "frames s' = frames s" and "f < frame_limit s"
    and "\<And>x. in_bitmap s x \<Longrightarrow> mem s' x = mem s x"
  shows "frame_used s' f \<longleftrightarrow> frame_used s f"
proof -
  have "word_at (mem s') (frames s) (f div 32) = word_at (mem s) (frames s) (f div 32)"
    using assms in_bitmap_word by (intro word_at_cong) blast
  then show ?thesis by (simp add: frame_used_def assms(1))
qed

section \<open>Allocating and freeing frames\<close>

definition used_frames :: "'a kmm_scheme \<Rightarrow> nat set" where
  "used_frames s = {f. f < frame_limit s \<and> frame_used s f}"

text \<open>At most \<open>2 ^ 20\<close> frames: the 4 GB that 32-bit physical addresses reach.\<close>

definition frames_ok :: "'a kmm_scheme \<Rightarrow> bool" where
  "frames_ok s \<longleftrightarrow> unat (nframes s) \<le> 2 ^ 20"

definition page_apart :: "'a kmm_scheme \<Rightarrow> u32 \<Rightarrow> bool" where
  "page_apart s p \<longleftrightarrow> (\<forall>k < 4. \<not> in_bitmap s (p + of_nat k))"

lemma page_apartD: "page_apart s p \<Longrightarrow> in_range p 4 x \<Longrightarrow> \<not> in_bitmap s x"
  by (auto simp: page_apart_def elim: in_range_obtain)

definition pte_new :: "nat \<Rightarrow> bool \<Rightarrow> bool \<Rightarrow> u32 \<Rightarrow> u32" where
  "pte_new f kern writeable w =
     pte_set_frame (of_nat f) (pte_flag 2 (\<not> kern) (pte_flag 1 writeable (pte_flag 0 True w)))"

lemma bit_pte_flag: "n < 32 \<Longrightarrow> bit (pte_flag n b w) i \<longleftrightarrow> (if i = n then b else bit w i)"
  by (auto simp: pte_flag_def bit_simps dest: bit_imp_le_length)

lemma bit_pte_set_frame:
  "bit (pte_set_frame f w) i \<longleftrightarrow> (if i < 12 then bit w i else i < 32 \<and> bit f (i - 12))"
  by (auto simp: pte_set_frame_def bit_simps)

lemma pte_frame_new:
  assumes "f < 2 ^ 20"
  shows "pte_frame (pte_new f kern writeable w) = of_nat f"
proof (rule bit_word_eqI)
  fix i assume i: "i < LENGTH(32)"
  have "(of_nat f :: u32) = take_bit 20 (of_nat f)"
    using assms by (simp add: word_unat_eq_iff unsigned_take_bit_eq unat_of_nat take_bit_nat_eq_self)
  then have "bit (of_nat f :: u32) i \<Longrightarrow> i < 20" by (metis bit_take_bit_iff)
  then show "bit (pte_frame (pte_new f kern writeable w)) i \<longleftrightarrow> bit (of_nat f :: u32) i"
    using i by (auto simp: pte_frame_def pte_new_def bit_drop_bit_eq bit_pte_set_frame)
qed

lemma pte_new_bits:
  "bit (pte_new f kern writeable w) 0" "bit (pte_new f kern writeable w) 1 \<longleftrightarrow> writeable"
  "bit (pte_new f kern writeable w) 2 \<longleftrightarrow> \<not> kern"
  "3 \<le> i \<Longrightarrow> i < 12 \<Longrightarrow> bit (pte_new f kern writeable w) i \<longleftrightarrow> bit w i"
  unfolding pte_new_def by (simp_all only: bit_pte_set_frame bit_pte_flag) simp_all

lemma frame_limit_bound: "frames_ok s \<Longrightarrow> f < frame_limit s \<Longrightarrow> f < 2 ^ 20"
  by (auto simp: frames_ok_def frame_limit_def)

lemma frames_cong:
  assumes "frames s' = frames s" and "nframes s' = nframes s"
    and "\<And>x. in_bitmap s x \<Longrightarrow> mem s' x = mem s x"
  shows "used_frames s' = used_frames s"
  using assms frame_used_cong [OF assms(1) _ assms(3)]
  by (auto simp: used_frames_def frame_limit_def)

lemma find_free:
  assumes "find (\<lambda>f. \<not> frame_used s f) [0..<frame_limit s] = Some f"
  shows "f < frame_limit s" and "\<not> frame_used s f" and "\<And>g. g < f \<Longrightarrow> frame_used s g"
  using assms by (auto simp: find_Some_iff nth_append)

lemma find_full:
  "find (\<lambda>f. \<not> frame_used s f) [0..<frame_limit s] = None \<longleftrightarrow> used_frames s = {..<frame_limit s}"
  by (auto simp: find_None_iff used_frames_def)

lemma set_frame_fields:
  "frames (set_frame a s) = frames s" "nframes (set_frame a s) = nframes s"
  "set_frame a s = s\<lparr>mem := mem (set_frame a s)\<rparr>"
  by (simp_all add: set_frame_def Let_def)

lemma set_frame_outside:
  assumes "frames_ok s" and "f < frame_limit s" and "\<not> in_bitmap s x"
  shows "mem (set_frame (of_nat f * 0x1000) s) x = mem s x"
proof -
  have "\<not> in_range (frames s + 4 * of_nat (f div 32)) 4 x" using in_bitmap_word assms(2,3) by blast
  then show ?thesis
    using set_frame_eq [OF frame_limit_bound [OF assms(1,2)], of s] by (simp add: st32_outside)
qed

lemma set_frame_used_frames:
  assumes "frames_ok s" and "f < frame_limit s"
  shows "used_frames (set_frame (of_nat f * 0x1000) s) = insert f (used_frames s)"
proof -
  have "g < frame_limit s \<Longrightarrow> g < 2 ^ 32" for g
    using frame_limit_bound [OF assms(1), of g] by simp
  then show ?thesis
    using assms set_frame_used [OF frame_limit_bound [OF assms]]
    by (auto simp: used_frames_def frame_limit_def set_frame_fields(1,2))
qed

lemma small_not_minus1: "f < 2 ^ 20 \<Longrightarrow> (of_nat f :: u32) \<noteq> - 1"
proof
  assume "f < 2 ^ 20" and "(of_nat f :: u32) = - 1"
  moreover have "unat (- 1 :: u32) = 2 ^ 32 - 1"
    by (simp add: unsigned_minus_1_eq_mask mask_eq_exp_minus_1)
  ultimately show False using unat_of_nat_small [of f] by simp
qed

lemma alloc_frame_fresh:
  assumes ok: "frames_ok s" and apart: "page_apart s page"
    and unmapped: "pte_frame (ld32 (mem s) page) = 0"
    and free: "find (\<lambda>f. \<not> frame_used s f) [0..<frame_limit s] = Some f"
  obtains s' where "alloc_frame page kern writeable s = ret s'"
    and "ld32 (mem s') page = pte_new f kern writeable (ld32 (mem s) page)"
    and "used_frames s' = insert f (used_frames s)"
    and "\<And>x. \<not> in_bitmap s x \<Longrightarrow> \<not> in_range page 4 x \<Longrightarrow> mem s' x = mem s x"
    and "s' = s\<lparr>mem := mem s'\<rparr>"
proof -
  have f: "f < 2 ^ 20" "f < frame_limit s"
    using find_free(1) [OF free] frame_limit_bound [OF ok] by simp_all
  have index: "first_frame s = of_nat f" by (simp add: first_frame_find free)
  have found: "first_frame s \<noteq> - 1" using small_not_minus1 [OF f(1)] index by simp
  define s1 where "s1 = set_frame (of_nat f * 0x1000) s"
  have old: "ld32 (mem s1) page = ld32 (mem s) page"
    using set_frame_outside [OF ok f(2)] page_apartD [OF apart] unfolding s1_def
    by (intro ld32_cong) simp
  define s' where "s' = s1\<lparr>mem := st32 (mem s1) page (pte_new f kern writeable (ld32 (mem s) page))\<rparr>"
  show ?thesis
  proof (rule that)
    show "alloc_frame page kern writeable s = ret s'"
      using unmapped found index old by (simp add: alloc_frame_def Let_def s'_def s1_def pte_new_def)
    show "ld32 (mem s') page = pte_new f kern writeable (ld32 (mem s) page)" by (simp add: s'_def)
    have "in_bitmap s1 x \<Longrightarrow> mem s' x = mem s1 x" for x
      using page_apartD [OF apart] by (auto simp: s'_def s1_def in_bitmap_def set_frame_fields(1,2) intro: st32_outside)
    then have "used_frames s' = used_frames s1" by (intro frames_cong) (simp_all add: s'_def)
    then show "used_frames s' = insert f (used_frames s)"
      using set_frame_used_frames [OF ok f(2)] by (simp add: s1_def)
    show "mem s' x = mem s x" if "\<not> in_bitmap s x" "\<not> in_range page 4 x" for x
      using that set_frame_outside [OF ok f(2)] by (simp add: s'_def s1_def st32_outside)
    show "s' = s\<lparr>mem := mem s'\<rparr>"
      by (simp add: s'_def s1_def set_frame_def Let_def)
  qed
qed

lemma alloc_frame_full:
  "pte_frame (ld32 (mem s) page) = 0 \<Longrightarrow> used_frames s = {..<frame_limit s} \<Longrightarrow>
     alloc_frame page kern writeable s = halt (Panic ''Failed to allocate a frame: out of frames'')"
  by (simp add: alloc_frame_def first_frame_find find_full [symmetric])

lemma alloc_frame_mapped:
  "pte_frame (ld32 (mem s) page) \<noteq> 0 \<Longrightarrow> alloc_frame page kern writeable s = ret s"
  by (simp add: alloc_frame_def)

section \<open>Frame allocators\<close>

text \<open>
  What a client of the frame allocator relies on: an allocation hands out a frame that was
  not in use, and takes that frame and no other.
\<close>

fun allocations :: "('s \<Rightarrow> nat \<Rightarrow> 's \<Rightarrow> bool) \<Rightarrow> 's \<Rightarrow> nat list \<Rightarrow> 's \<Rightarrow> bool" where
  "allocations alloc s [] s' \<longleftrightarrow> s' = s"
| "allocations alloc s (f # fs) s' \<longleftrightarrow> (\<exists>s1. alloc s f s1 \<and> allocations alloc s1 fs s')"

locale frame_allocator =
  fixes used :: "'s \<Rightarrow> nat set" and alloc :: "'s \<Rightarrow> nat \<Rightarrow> 's \<Rightarrow> bool"
  assumes fresh: "alloc s f s' \<Longrightarrow> f \<notin> used s"
    and taken: "alloc s f s' \<Longrightarrow> used s' = insert f (used s)"
begin

lemma allocations_used: "allocations alloc s fs s' \<Longrightarrow> used s' = used s \<union> set fs"
  by (induction fs arbitrary: s) (auto simp: taken)

lemma allocations_distinct: "allocations alloc s fs s' \<Longrightarrow> distinct fs \<and> set fs \<inter> used s = {}"
proof (induction fs arbitrary: s)
  case (Cons f fs)
  then obtain s1 where "alloc s f s1" "allocations alloc s1 fs s'" by auto
  with Cons.IH [of s1] fresh [of s f s1] taken [of s f s1] show ?case by auto
qed simp

end

definition frame_step :: "'a kmm_scheme \<Rightarrow> nat \<Rightarrow> 'a kmm_scheme \<Rightarrow> bool" where
  "frame_step s f s' \<longleftrightarrow> frames_ok s \<and>
     (\<exists>page kern writeable. page_apart s page \<and> pte_frame (ld32 (mem s) page) = 0 \<and>
        alloc_frame page kern writeable s = ret s' \<and>
        f < 2 ^ 20 \<and> pte_frame (ld32 (mem s') page) = of_nat f)"

lemma frame_step_find:
  assumes "frame_step s f s'"
  shows "find (\<lambda>f. \<not> frame_used s f) [0..<frame_limit s] = Some f"
    and "used_frames s' = insert f (used_frames s)"
proof -
  obtain page kern writeable where page: "frames_ok s" "page_apart s page"
    "pte_frame (ld32 (mem s) page) = 0" "alloc_frame page kern writeable s = ret s'"
    and f: "f < 2 ^ 20" "pte_frame (ld32 (mem s') page) = of_nat f"
    using assms unfolding frame_step_def by blast
  obtain g where g: "find (\<lambda>f. \<not> frame_used s f) [0..<frame_limit s] = Some g"
    using page(3,4) alloc_frame_full [of s page kern writeable] find_full [of s] by fastforce
  obtain s'' where s'': "alloc_frame page kern writeable s = ret s''"
    "ld32 (mem s'') page = pte_new g kern writeable (ld32 (mem s) page)"
    "used_frames s'' = insert g (used_frames s)"
    using page(1-3) g by (rule alloc_frame_fresh)
  have g20: "g < 2 ^ 20" using find_free(1) [OF g] page(1) frame_limit_bound by blast
  have "(of_nat f :: u32) = of_nat g"
    using s'' page(4) f(2) pte_frame_new [OF g20] by simp
  then have "f = g" using f(1) g20 by (subst (asm) of_nat_inject_small) simp_all
  then show "find (\<lambda>f. \<not> frame_used s f) [0..<frame_limit s] = Some f"
    and "used_frames s' = insert f (used_frames s)"
    using g s'' page(4) by simp_all
qed

interpretation frame_map: frame_allocator used_frames frame_step
proof unfold_locales
  fix s s' :: "'a kmm_scheme" and f
  assume "frame_step s f s'"
  note step = frame_step_find [OF this]
  show "f \<notin> used_frames s" using find_free(2) [OF step(1)] by (simp add: used_frames_def)
  show "used_frames s' = insert f (used_frames s)" by (rule step(2))
qed

section \<open>Page table entries in memory\<close>

definition dir_slot :: "u32 \<Rightarrow> u32 \<Rightarrow> u32" where
  "dir_slot dir a = dir + 4 * (a div 0x1000 div 1024)"

definition page_entry :: "'a kmm_scheme \<Rightarrow> u32 \<Rightarrow> u32" where
  "page_entry s a = ld32 (mem s) (dir_slot (kernel_directory s) a) + 4 * (a div 0x1000 mod 1024)"

lemma get_page_present:
  assumes "ld32 (mem s) (dir_slot (kernel_directory s) a) \<noteq> 0"
  shows "get_page a mk (kernel_directory s) s = (page_entry s a, s)"
  using assms by (simp add: get_page_def Let_def page_entry_def dir_slot_def)

text \<open>
  \<open>pages_ready s as\<close>: the pages \<open>as\<close> have page tables and no frame yet, and their entries,
  the directory slots they are found through and the bitmap lie apart from each other.
\<close>

definition words_apart :: "u32 \<Rightarrow> u32 \<Rightarrow> bool" where
  "words_apart p q \<longleftrightarrow> (\<forall>k < 4. \<not> in_range p 4 (q + of_nat k))"

lemma words_apartD: "words_apart p q \<Longrightarrow> in_range q 4 x \<Longrightarrow> \<not> in_range p 4 x"
  by (auto simp: words_apart_def elim: in_range_obtain)

definition pages_ready :: "'a kmm_scheme \<Rightarrow> u32 list \<Rightarrow> bool" where
  "pages_ready s as \<longleftrightarrow> distinct as \<and>
     (\<forall>a \<in> set as. let slot = dir_slot (kernel_directory s) a; p = page_entry s a in
        ld32 (mem s) slot \<noteq> 0 \<and> pte_frame (ld32 (mem s) p) = 0 \<and>
        page_apart s p \<and> page_apart s slot \<and>
        (\<forall>b \<in> set as. words_apart (page_entry s b) slot \<and>
           (b \<noteq> a \<longrightarrow> words_apart (page_entry s b) p)))"

lemma pages_ready_step:
  assumes ready: "pages_ready s (a # as)"
    and out: "\<And>x. \<not> in_bitmap s x \<Longrightarrow> \<not> in_range (page_entry s a) 4 x \<Longrightarrow> mem s' x = mem s x"
    and same: "s' = s\<lparr>mem := mem s'\<rparr>"
  shows "pages_ready s' as"
    and "b \<in> set as \<Longrightarrow> page_entry s' b = page_entry s b \<and>
      ld32 (mem s') (page_entry s b) = ld32 (mem s) (page_entry s b)"
proof -
  have fields: "kernel_directory s' = kernel_directory s" "frames s' = frames s" "nframes s' = nframes s"
    by (subst same, simp)+
  have apart: "page_apart s' = page_apart s"
    by (simp add: page_apart_def in_bitmap_def fields fun_eq_iff)
  have slot: "ld32 (mem s') (dir_slot (kernel_directory s) b) = ld32 (mem s) (dir_slot (kernel_directory s) b)"
    if "b \<in> set as" for b
    using ready that by (intro ld32_cong out) (auto simp: pages_ready_def Let_def dest: page_apartD words_apartD)
  have entry: "page_entry s' b = page_entry s b" if "b \<in> set as" for b
    using slot [OF that] by (simp add: page_entry_def fields)
  have pte: "ld32 (mem s') (page_entry s b) = ld32 (mem s) (page_entry s b)" if "b \<in> set as" for b
  proof -
    have "a \<noteq> b" using ready that by (auto simp: pages_ready_def)
    then show ?thesis using ready that
      by (intro ld32_cong out) (auto simp: pages_ready_def Let_def dest: page_apartD words_apartD)
  qed
  show "pages_ready s' as"
    using ready by (simp add: pages_ready_def Let_def fields slot entry pte apart)
  show "b \<in> set as \<Longrightarrow> page_entry s' b = page_entry s b \<and>
      ld32 (mem s') (page_entry s b) = ld32 (mem s) (page_entry s b)"
    by (simp add: entry pte)
qed

section \<open>Growing the heap\<close>

definition page_run :: "u32 \<Rightarrow> nat \<Rightarrow> u32 list" where
  "page_run i n = map (\<lambda>k. i + 0x1000 * of_nat k) [0..<n]"

lemma page_run_Suc: "page_run i (Suc n) = i # page_run (i + 0x1000) n"
proof -
  have "[0..<Suc n] = 0 # map Suc [0..<n]" by (simp add: map_Suc_upt upt_conv_Cons del: upt_Suc)
  then show ?thesis by (simp add: page_run_def o_def algebra_simps)
qed

text \<open>
  \<open>grown s as fs s'\<close>: the pages \<open>as\<close> have been given the frames \<open>fs\<close>, and only their entries
  and the bitmap have changed.
\<close>

definition grown :: "'a kmm_scheme \<Rightarrow> u32 list \<Rightarrow> nat list \<Rightarrow> 'a kmm_scheme \<Rightarrow> bool" where
  "grown s as fs s' \<longleftrightarrow> allocations frame_step s fs s' \<and> length fs = length as \<and>
     (\<forall>k < length as. ld32 (mem s') (page_entry s (as ! k)) =
        pte_new (fs ! k) False False (ld32 (mem s) (page_entry s (as ! k)))) \<and>
     (\<forall>x. \<not> in_bitmap s x \<and> (\<forall>a \<in> set as. \<not> in_range (page_entry s a) 4 x) \<longrightarrow> mem s' x = mem s x) \<and>
     s' = s\<lparr>mem := mem s'\<rparr>"

lemma grown_Nil: "grown s [] [] s"
  by (simp add: grown_def)

lemma grown_Cons:
  assumes ready: "pages_ready s (a # as)" and step: "frame_step s f s1"
    and pte: "ld32 (mem s1) (page_entry s a) = pte_new f False False (ld32 (mem s) (page_entry s a))"
    and out: "\<And>x. \<not> in_bitmap s x \<Longrightarrow> \<not> in_range (page_entry s a) 4 x \<Longrightarrow> mem s1 x = mem s x"
    and same: "s1 = s\<lparr>mem := mem s1\<rparr>" and rest: "grown s1 as fs s'"
  shows "grown s (a # as) (f # fs) s'"
proof -
  have tail: "page_entry s1 b = page_entry s b \<and>
      ld32 (mem s1) (page_entry s b) = ld32 (mem s) (page_entry s b)" if "b \<in> set as" for b
    using ready out same that by (rule pages_ready_step(2))
  have bitmap: "in_bitmap s1 = in_bitmap s" by (subst same) (simp add: in_bitmap_def fun_eq_iff)
  have parts: "allocations frame_step s1 fs s'" "length fs = length as"
    "\<And>k. k < length as \<Longrightarrow> ld32 (mem s') (page_entry s1 (as ! k)) =
        pte_new (fs ! k) False False (ld32 (mem s1) (page_entry s1 (as ! k)))"
    "\<And>x. \<not> in_bitmap s x \<Longrightarrow> (\<And>b. b \<in> set as \<Longrightarrow> \<not> in_range (page_entry s1 b) 4 x) \<Longrightarrow>
        mem s' x = mem s1 x"
    "s' = s1\<lparr>mem := mem s'\<rparr>"
    using rest unfolding grown_def bitmap by blast+
  have frame: "mem s' x = mem s1 x"
    if "\<not> in_bitmap s x" "\<And>b. b \<in> set as \<Longrightarrow> \<not> in_range (page_entry s b) 4 x" for x
    using parts(4) that tail by simp
  have "ld32 (mem s') (page_entry s a) = ld32 (mem s1) (page_entry s a)"
  proof (rule ld32_cong, rule frame)
    fix x assume x: "in_range (page_entry s a) 4 x"
    show "\<not> in_bitmap s x" using ready x by (auto simp: pages_ready_def Let_def dest: page_apartD)
    fix b assume b: "b \<in> set as"
    then have "a \<noteq> b" using ready by (auto simp: pages_ready_def)
    then show "\<not> in_range (page_entry s b) 4 x"
      using ready b x by (auto simp: pages_ready_def Let_def dest: words_apartD)
  qed
  moreover have "ld32 (mem s') (page_entry s (as ! k)) =
      pte_new (fs ! k) False False (ld32 (mem s) (page_entry s (as ! k)))" if "k < length as" for k
    using parts(3) [OF that] tail [OF nth_mem [OF that]] by (simp only:)
  moreover have "mem s' x = mem s x"
    if "\<not> in_bitmap s x" "\<forall>b \<in> set (a # as). \<not> in_range (page_entry s b) 4 x" for x
    using that out frame by simp
  moreover have "s' = s\<lparr>mem := mem s'\<rparr>"
    using parts(5) by (subst (asm) same) simp
  moreover have "allocations frame_step s (f # fs) s'" using step parts(1) by auto
  moreover have "\<forall>k < length (a # as). ld32 (mem s') (page_entry s ((a # as) ! k)) =
      pte_new ((f # fs) ! k) False False (ld32 (mem s) (page_entry s ((a # as) ! k)))"
    using calculation(1,2) by (auto simp: pte nth_Cons split: nat.split)
  ultimately show ?thesis unfolding grown_def using parts(2) by simp
qed

lemma free_frame_exists:
  assumes "card (used_frames s) < frame_limit s"
  obtains f where "find (\<lambda>f. \<not> frame_used s f) [0..<frame_limit s] = Some f"
proof -
  have "used_frames s \<noteq> {..<frame_limit s}" using assms by (metis card_lessThan less_irrefl)
  then have "find (\<lambda>f. \<not> frame_used s f) [0..<frame_limit s] \<noteq> None" using find_full [of s] by blast
  then show ?thesis using that by blast
qed

lemma finite_used_frames [simp]: "finite (used_frames s)"
  by (simp add: used_frames_def)

lemma sbrk_loop_grown:
  assumes "frames_ok s" and "heap_end s = i + 0x1000 * of_nat n" and "unat i + 0x1000 * n < 2 ^ 32"
    and "card (used_frames s) + n \<le> frame_limit s" and "pages_ready s (page_run i n)"
  shows "\<exists>fs s'. sbrk_loop i s = ret s' \<and> grown s (page_run i n) fs s'"
  using assms
proof (induction n arbitrary: i s)
  case 0
  then have "\<not> i < heap_end s" by simp
  then have "sbrk_loop i s = ret s" by (subst sbrk_loop.simps) simp
  then show ?case using grown_Nil [of s] by (auto simp: page_run_def)
next
  case (Suc n)
  have "heap_end s = i + of_nat (0x1000 * Suc n)" using Suc.prems(2) by (simp only: of_nat_mult of_nat_numeral)
  then have "unat (heap_end s) = unat i + 0x1000 * Suc n"
    using unat_add_small [OF Suc.prems(3)] by (simp only:)
  moreover have "unat i < unat i + 0x1000 * Suc n" by simp
  ultimately have lt: "i < heap_end s" by (simp only: word_less_nat_alt)
  have ready: "pages_ready s (i # page_run (i + 0x1000) n)" using Suc.prems(5) by (simp add: page_run_Suc)
  let ?p = "page_entry s i"
  have slot: "ld32 (mem s) (dir_slot (kernel_directory s) i) \<noteq> 0"
    and apart: "page_apart s ?p" and unmapped: "pte_frame (ld32 (mem s) ?p) = 0"
    using ready by (simp_all add: pages_ready_def Let_def)
  have "card (used_frames s) < frame_limit s" using Suc.prems(4) by simp
  then obtain f where f: "find (\<lambda>f. \<not> frame_used s f) [0..<frame_limit s] = Some f"
    by (rule free_frame_exists)
  have f20: "f < 2 ^ 20" using find_free(1) [OF f] frame_limit_bound Suc.prems(1) by blast
  obtain s1 where s1: "alloc_frame ?p False False s = ret s1"
    "ld32 (mem s1) ?p = pte_new f False False (ld32 (mem s) ?p)"
    "used_frames s1 = insert f (used_frames s)"
    "\<And>x. \<not> in_bitmap s x \<Longrightarrow> \<not> in_range ?p 4 x \<Longrightarrow> mem s1 x = mem s x" "s1 = s\<lparr>mem := mem s1\<rparr>"
    using Suc.prems(1) apart unmapped f by (rule alloc_frame_fresh) blast
  have step: "frame_step s f s1"
    unfolding frame_step_def
    by (intro conjI exI [of _ ?p] exI [of _ False])
      (use f20 in \<open>simp_all add: Suc.prems(1) apart unmapped s1(1,2) pte_frame_new\<close>)
  have fields: "heap_end s1 = heap_end s" "frames_ok s1" "frame_limit s1 = frame_limit s"
    using Suc.prems(1) by (subst s1(5), simp add: frames_ok_def frame_limit_def)+
  have "f \<notin> used_frames s" using find_free(2) [OF f] by (simp add: used_frames_def)
  then have "card (used_frames s1) + n \<le> frame_limit s1" using Suc.prems(4) s1(3) fields(3) by simp
  moreover have "pages_ready s1 (page_run (i + 0x1000) n)"
    using ready s1(4,5) by (rule pages_ready_step(1))
  moreover have "unat (i + 0x1000) = unat i + 0x1000"
    using unat_add_small [of i "0x1000"] Suc.prems(3) by simp
  moreover have "heap_end s1 = i + 0x1000 + 0x1000 * of_nat n"
    unfolding fields(1) Suc.prems(2) by (simp add: algebra_simps)
  moreover have "unat i + 0x1000 + 0x1000 * n < 2 ^ 32" using Suc.prems(3) by simp
  ultimately obtain fs s' where rest: "sbrk_loop (i + 0x1000) s1 = ret s'"
    "grown s1 (page_run (i + 0x1000) n) fs s'"
    using Suc.IH [of s1 "i + 0x1000"] fields(2) by auto
  have "sbrk_loop i s = ret s'"
    using lt get_page_present [OF slot] s1(1) rest(1) by (subst sbrk_loop.simps) simp
  moreover have "grown s (page_run i (Suc n)) (f # fs) s'"
    unfolding page_run_Suc using ready step s1(2,4,5) rest(2) by (rule grown_Cons)
  ultimately show ?case by blast
qed

lemma sbrk_grown:
  assumes ok: "frames_ok s" and nowrap: "unat (heap_end s) + 0x1000 * n < 2 ^ 32"
    and room: "card (used_frames s) + n \<le> frame_limit s"
    and ready: "pages_ready s (page_run (heap_end s) n)"
  shows "\<exists>fs s'. sbrk (0x1000 * of_nat n) s = ret (heap_end s, s') \<and>
    heap_end s' = heap_end s + 0x1000 * of_nat n \<and>
    grown (s\<lparr>heap_end := heap_end s + 0x1000 * of_nat n\<rparr>) (page_run (heap_end s) n) fs s'"
proof -
  let ?inc = "0x1000 * of_nat n :: u32"
  let ?s = "s\<lparr>heap_end := heap_end s + ?inc\<rparr>"
  have "unat ?inc = 0x1000 * n"
    using nowrap unat_of_nat_small [of "0x1000 * n"] by simp
  then have mod: "?inc mod 0x1000 = 0" by (simp add: word_unat_eq_iff unat_mod_distrib)
  have same: "page_entry ?s = page_entry s" "page_apart ?s = page_apart s"
    "used_frames ?s = used_frames s" "frame_limit ?s = frame_limit s" "frames_ok ?s = frames_ok s"
    by (simp_all add: page_entry_def page_apart_def in_bitmap_def used_frames_def frame_limit_def
        frame_used_def frames_ok_def fun_eq_iff)
  have "pages_ready ?s (page_run (heap_end s) n)"
    using ready by (simp add: pages_ready_def Let_def same)
  then obtain fs s' where s': "sbrk_loop (heap_end s) ?s = ret s'"
    "grown ?s (page_run (heap_end s) n) fs s'"
    using sbrk_loop_grown [of ?s "heap_end s" n] ok nowrap room same by auto
  have "s' = ?s\<lparr>mem := mem s'\<rparr>" using s'(2) by (simp add: grown_def)
  then have "heap_end s' = heap_end s + ?inc" by (rule ssubst) simp
  moreover have "sbrk ?inc s = ret (heap_end s, s')" using s'(1) mod by (simp add: sbrk_def Let_def)
  ultimately show ?thesis using s'(2) by blast
qed

section \<open>Where the placement allocator puts things\<close>

lemma kmalloc_returns: "kmalloc sz s = (placement_pointer s, s\<lparr>placement_pointer := placement_pointer s + sz\<rparr>)"
  by (simp add: kmalloc_def kmalloc_real_def Let_def)

lemma align_down: "x AND 0xFFFFF000 = (x :: u32) div 0x1000 * 0x1000"
proof -
  have "x AND 0xFFFFF000 = push_bit 12 (drop_bit 12 x)"
  proof (rule bit_word_eqI)
    fix n assume n: "n < LENGTH(32)"
    have "(0xFFFFF000 :: u32) = NOT (mask 12)" by (simp add: mask_numeral)
    then have "bit (x AND 0xFFFFF000) n = bit (x AND NOT (mask 12)) n" by simp
    then show "bit (x AND 0xFFFFF000) n = bit (push_bit 12 (drop_bit 12 x)) n"
      using n by (auto simp: bit_simps)
  qed
  also have "\<dots> = x div 0x1000 * 0x1000"
    by (simp add: push_bit_eq_mult drop_bit_eq_div)
  finally show ?thesis .
qed

lemma unat_align_down: "unat ((p :: u32) AND 0xFFFFF000) = unat p div 0x1000 * 0x1000"
proof -
  have "unat p div 0x1000 * 0x1000 \<le> unat p" by (rule div_times_less_eq_dividend)
  also have "unat p < 2 ^ 32" using unsigned_less [of p] by simp
  finally show ?thesis by (simp add: align_down unat_word_ariths unat_div_distrib)
qed

lemma kvmalloc_returns:
  assumes "0x1000 \<le> placement_pointer s"
  shows "kvmalloc sz s = (placement_pointer s AND 0xFFFFF000,
    s\<lparr>placement_pointer := (placement_pointer s AND 0xFFFFF000) + sz\<rparr>)"
proof -
  have "0 < unat (placement_pointer s) div 0x1000"
    using assms by (simp add: word_le_nat_alt div_greater_zero_iff)
  then have "0 < unat (placement_pointer s AND 0xFFFFF000)" unfolding unat_align_down by simp
  then have "placement_pointer s AND 0xFFFFF000 \<noteq> 0" by (auto simp: unat_gt_0)
  then show ?thesis by (simp add: kvmalloc_def kmalloc_real_def Let_def)
qed

text \<open>Rounding down gives the page the previous allocation is in, so the two overlap.\<close>

lemma kvmalloc_after_kmalloc:
  assumes "unat (placement_pointer s) mod 0x1000 = 0" and "0x1000 \<le> placement_pointer s"
    and "unat n < 0x1000"
  shows "fst (kvmalloc sz (snd (kmalloc n s))) = fst (kmalloc n s)"
proof -
  let ?p = "placement_pointer s"
  obtain q where q: "unat ?p = 0x1000 * q" using assms(1) by (metis mod_0_imp_dvd dvd_def)
  have "unat ?p < 2 ^ 32" using unsigned_less [of ?p] by simp
  then have "q < 2 ^ 20" using q by simp
  then have sum: "unat (?p + n) = 0x1000 * q + unat n"
    using assms(3) q by (simp add: unat_word_ariths)
  then have le: "0x1000 \<le> ?p + n" using assms(2) q by (simp add: word_le_nat_alt)
  have "unat ((?p + n) AND 0xFFFFF000) = unat ?p"
    using assms(3) q unfolding unat_align_down sum by simp
  then have "(?p + n) AND 0xFFFFF000 = ?p" by (simp add: word_unat_eq_iff)
  then show ?thesis using kvmalloc_returns [of "snd (kmalloc n s)" sz] le
    by (simp add: kmalloc_returns)
qed

section \<open>Freeing a frame\<close>

text \<open>
  \<^verbatim>\<open>free_frame\<close> hands the number of the frame to \<^verbatim>\<open>clear_frame\<close>, which expects an address.
\<close>

lemma clear_frame_number:
  assumes "f < 2 ^ 20"
  shows "clear_frame (of_nat f) s = clear_frame (of_nat (f div 0x1000) * 0x1000) s"
proof -
  have "unat (of_nat f :: u32) = f" using assms by (intro unat_of_nat_small) simp
  moreover have "unat (of_nat (f div 0x1000) :: u32) = f div 0x1000"
    using assms by (intro unat_of_nat_small) simp
  ultimately have "(of_nat f :: u32) div 0x1000 = of_nat (f div 0x1000)"
    by (simp add: word_unat_eq_iff unat_div_distrib)
  moreover have "f div 0x1000 < 2 ^ 20" using assms by simp
  ultimately show ?thesis
    using frame_address(1) [of "f div 0x1000"] by (simp add: clear_frame_def)
qed

lemma free_frame_frames:
  assumes ok: "frames_ok s" and apart: "page_apart s page"
    and pte: "pte_frame (ld32 (mem s) page) = of_nat f" and f: "0 < f" "f < frame_limit s"
  shows "used_frames (free_frame page s) = used_frames s - {f div 0x1000}"
    and "pte_frame (ld32 (mem (free_frame page s)) page) = 0"
proof -
  have f20: "f < 2 ^ 20" using frame_limit_bound [OF ok f(2)] .
  then have "unat (of_nat f :: u32) = f" by (intro unat_of_nat_small) simp
  then have nz: "(of_nat f :: u32) \<noteq> 0" using f(1) by (metis unat_0 less_irrefl)
  define g where "g = f div 0x1000"
  have g: "g < 2 ^ 20" "g < frame_limit s"
    using f20 f(2) div_le_dividend [of f "0x1000"] unfolding g_def by linarith+
  define s1 where "s1 = clear_frame (of_nat g * 0x1000) s"
  define s2 where "s2 = s1\<lparr>mem := st32 (mem s1) page (pte_set_frame 0 (ld32 (mem s1) page))\<rparr>"
  have free: "free_frame page s = s2"
    using pte nz clear_frame_number [OF f20, of s]
    by (simp add: free_frame_def Let_def s2_def s1_def g_def)
  have fields: "frames s1 = frames s" "nframes s1 = nframes s"
    by (simp_all add: s1_def clear_frame_def Let_def)
  have "h < frame_limit s \<Longrightarrow> h < 2 ^ 32" for h using frame_limit_bound [OF ok, of h] by simp
  then have "used_frames s1 = used_frames s - {g}"
    using clear_frame_used [OF g(1)] fields
    by (auto simp: used_frames_def frame_limit_def s1_def)
  moreover have "used_frames s2 = used_frames s1"
  proof (rule frames_cong)
    show "mem s2 x = mem s1 x" if "in_bitmap s1 x" for x
    proof -
      have "in_bitmap s x" using that fields by (simp add: in_bitmap_def)
      then show ?thesis using page_apartD [OF apart] unfolding s2_def by (auto intro: st32_outside)
    qed
  qed (simp_all add: s2_def)
  ultimately show "used_frames (free_frame page s) = used_frames s - {f div 0x1000}"
    by (simp add: free g_def)
  have "pte_frame (pte_set_frame 0 w) = 0" for w
    by (rule bit_word_eqI) (simp add: pte_frame_def bit_drop_bit_eq bit_pte_set_frame)
  then show "pte_frame (ld32 (mem (free_frame page s)) page) = 0" by (simp add: free s2_def)
qed

section \<open>Making a page table\<close>

definition phys_slot :: "u32 \<Rightarrow> u32 \<Rightarrow> u32" where
  "phys_slot dir a = dir + 0x1000 + 4 * (a div 0x1000 div 1024)"

lemma slots_apart: "words_apart (dir_slot dir a) (phys_slot dir a)"
proof -
  have "(0x1000 + of_nat k :: u32) = of_nat (0x1000 + k)" for k by simp
  then have "unat (0x1000 + of_nat k :: u32) = 0x1000 + k" if "k < 4" for k
    using unat_of_nat_small [of "0x1000 + k"] that by simp
  then show ?thesis
    by (auto simp: words_apart_def in_range_def phys_slot_def dir_slot_def algebra_simps)
qed

lemma ld32_outside_word: "words_apart q p \<Longrightarrow> ld32 (st32 m q v) p = ld32 m p"
  by (intro ld32_cong) (auto intro: st32_outside dest: words_apartD)

lemma words_apart_sym: "words_apart p q \<Longrightarrow> words_apart q p"
  unfolding words_apart_def
proof (intro allI impI notI)
  fix k assume *: "\<forall>k < 4. \<not> in_range p 4 (q + of_nat k)" and k: "k < (4 :: nat)"
    and "in_range q 4 (p + of_nat k)"
  then obtain l where l: "l < 4" "p + of_nat k = q + of_nat l" by (elim in_range_obtain)
  then have "in_range p 4 (q + of_nat l)" using k in_range_offset [of 4 k p] by simp
  with * l(1) show False by blast
qed

lemma get_page_makes:
  fixes s :: "'a kmm_scheme"
  defines "kd \<equiv> kernel_directory s" and "t \<equiv> placement_pointer s AND 0xFFFFF000"
  assumes none: "ld32 (mem s) (dir_slot kd a) = 0" and place: "0x1000 \<le> placement_pointer s"
    and apart: "\<And>x. in_range t 0x1000 x \<Longrightarrow> \<not> in_range (dir_slot kd a) 4 x \<and> \<not> in_range (phys_slot kd a) 4 x"
  obtains s' where "get_page a True kd s = (page_entry s' a, s')"
    and "ld32 (mem s') (dir_slot kd a) = t" and "t \<noteq> 0"
    and "ld32 (mem s') (phys_slot kd a) = t OR 0x7"
    and "\<And>x. in_range t 0x1000 x \<Longrightarrow> mem s' x = 0"
    and "\<And>x. \<not> in_range t 0x1000 x \<Longrightarrow> \<not> in_range (dir_slot kd a) 4 x \<Longrightarrow>
        \<not> in_range (phys_slot kd a) 4 x \<Longrightarrow> mem s' x = mem s x"
    and "s' = s\<lparr>mem := mem s', placement_pointer := t + 0x1000\<rparr>"
proof -
  let ?slot = "dir_slot kd a" and ?phys = "phys_slot kd a"
  have "0 < unat (placement_pointer s) div 0x1000"
    using place by (simp add: word_le_nat_alt div_greater_zero_iff)
  then have "0 < unat t" unfolding t_def unat_align_down by simp
  then have t: "t \<noteq> 0" by (auto simp: unat_gt_0)
  have alloc: "kvmalloc_p 0x1000 s = (t, Some t, s\<lparr>placement_pointer := t + 0x1000\<rparr>)"
    using t by (simp add: kvmalloc_p_def kmalloc_real_def Let_def t_def)
  define m1 where "m1 = st32 (mem s) ?slot t"
  define m2 where "m2 = memset m1 t 0 0x1000"
  define m3 where "m3 = st32 m2 ?phys (t OR 0x7)"
  define s' where "s' = s\<lparr>mem := m3, placement_pointer := t + 0x1000\<rparr>"
  have size: "unat (0x1000 :: u32) = 0x1000" by simp
  have m2: "m2 x = (if in_range t 0x1000 x then 0 else m1 x)" for x
    unfolding m2_def memset_apply size by simp
  have "ld32 m2 ?slot = ld32 m1 ?slot" using apart by (intro ld32_cong) (auto simp: m2)
  moreover have "ld32 m3 ?slot = ld32 m2 ?slot"
    unfolding m3_def by (rule ld32_outside_word [OF words_apart_sym [OF slots_apart]])
  ultimately have slot: "ld32 m3 ?slot = t" "ld32 m1 ?slot = t" by (simp_all add: m1_def)
  show ?thesis
  proof (rule that [of s'])
    show "get_page a True kd s = (page_entry s' a, s')"
      using none alloc slot
      by (simp add: get_page_def Let_def page_entry_def s'_def kd_def dir_slot_def phys_slot_def
          m3_def m2_def m1_def)
    show "mem s' x = 0" if "in_range t 0x1000 x" for x
      using that apart by (simp add: s'_def m3_def m2 st32_outside)
    show "mem s' x = mem s x" if "\<not> in_range t 0x1000 x" "\<not> in_range ?slot 4 x" "\<not> in_range ?phys 4 x" for x
      using that by (simp add: s'_def m3_def m2 m1_def st32_outside)
  qed (use slot t in \<open>simp_all add: s'_def m3_def\<close>)
qed

text \<open>After \<^verbatim>\<open>heap_install\<close> a new page table is put at address 0, which reads as no table.\<close>

lemma get_page_after_heap_install:
  fixes s :: "'a kmm_scheme"
  defines "kd \<equiv> kernel_directory s"
  assumes none: "ld32 (mem s) (dir_slot kd a) = 0"
    and apart: "\<And>x. in_range 0 0x1000 x \<Longrightarrow> \<not> in_range (phys_slot kd a) 4 x"
  obtains s' where "get_page a True kd (heap_install s) = (4 * (a div 0x1000 mod 1024), s')"
    and "ld32 (mem s') (dir_slot kd a) = 0" and "\<And>x. in_range 0 0x1000 x \<Longrightarrow> mem s' x = 0"
    and "placement_pointer s' = 0x1000"
proof -
  let ?slot = "dir_slot kd a" and ?phys = "phys_slot kd a"
  have alloc: "kvmalloc_p 0x1000 (heap_install s) = (0, Some 0, (heap_install s)\<lparr>placement_pointer := 0x1000\<rparr>)"
    by (simp add: kvmalloc_p_def kmalloc_real_def Let_def heap_install_def)
  define m1 where "m1 = st32 (mem s) ?slot 0"
  define m2 where "m2 = memset m1 0 0 0x1000"
  define m3 where "m3 = st32 m2 ?phys 0x7"
  define s' where "s' = (heap_install s)\<lparr>mem := m3, placement_pointer := 0x1000\<rparr>"
  have size: "unat (0x1000 :: u32) = 0x1000" by simp
  have m2: "m2 x = (if in_range 0 0x1000 x then 0 else m1 x)" for x
    unfolding m2_def memset_apply size by simp
  have m1: "m1 x = 0" if "in_range ?slot 4 x" for x
    using that by (auto simp: m1_def st32_apply in_range_4)
  have "ld32 m1 ?slot = 0" by (simp add: m1_def)
  have "ld32 m2 ?slot = ld32 (\<lambda>_. 0) ?slot" using m1 by (intro ld32_cong) (simp add: m2)
  moreover have "ld32 m3 ?slot = ld32 m2 ?slot"
    unfolding m3_def by (rule ld32_outside_word [OF words_apart_sym [OF slots_apart]])
  ultimately have slot: "ld32 m3 ?slot = 0" by (simp add: ld32_def)
  show ?thesis
  proof (rule that [of s'])
    show "get_page a True kd (heap_install s) = (4 * (a div 0x1000 mod 1024), s')"
      using none alloc slot \<open>ld32 m1 ?slot = 0\<close>
      by (simp add: get_page_def Let_def s'_def kd_def dir_slot_def phys_slot_def
          m3_def m2_def m1_def heap_install_def)
    show "mem s' x = 0" if "in_range 0 0x1000 x" for x
      using that apart by (simp add: s'_def m3_def m2 st32_outside)
  qed (use slot in \<open>simp_all add: s'_def\<close>)
qed

section \<open>Properties\<close>

text \<open>C25: \<^verbatim>\<open>first_frame\<close> returns the least frame whose bit is clear among the whole words of the
  bitmap, and -1 exactly when there is none.\<close>

theorem first_frame_least:
  "first_frame s = (case find (\<lambda>f. \<not> frame_used s f) [0..<frame_limit s] of
     None \<Rightarrow> - 1 | Some f \<Rightarrow> of_nat f)"
  by (rule first_frame_find)

text \<open>the bitmap is a set of frames: setting adds the frame, clearing removes it, no other frame
  is affected, and testing reads membership, for every frame of the 4 GB.\<close>

theorem frame_bitmap_is_set:
  assumes "f < 2 ^ 20" and "g < 2 ^ 20"
  shows "(frame_used (set_frame (of_nat f * 0x1000) s) g \<longleftrightarrow> g = f \<or> frame_used s g) \<and>
    (frame_used (clear_frame (of_nat f * 0x1000) s) g \<longleftrightarrow> g \<noteq> f \<and> frame_used s g) \<and>
    (test_frame (of_nat f * 0x1000) s \<noteq> 0 \<longleftrightarrow> frame_used s f)"
  using assms set_frame_used [of f g s] clear_frame_used [of f g s] test_frame_used [of f s] by simp

text \<open>
  An example: 64 frames with the bitmap at 0x1000, a page directory at 0x2000, one page table
  at 0x8000 for the first 4 MB, and the heap starting at 1 MB.
\<close>

definition demo_kmm :: kmm where
  "demo_kmm = \<lparr>mem = st32 (\<lambda>_. 0) 0x2000 0x8000, ports_out = [], io_clock = 0,
     env = (\<lambda>_ _. 0x20), cr0 = 0, cr3 = 0, textmemptr = 0xB8000, attrib = 0x0F, csr_x = 0,
     csr_y = 0, kbuf = 0x4000, ptr = 0, kgets_buffer = 0, kgets_collected = 0, kgets_want = 0,
     kgets_newline = 0, kgets_cancel = 0, keyboard_buffer_handler = None,
     gdt = 0x5000, gp = \<lparr>table_limit = 0, table_base = 0\<rparr>, idt = 0x6000,
     idtp = \<lparr>table_limit = 0, table_base = 0\<rparr>, gdtr = \<lparr>table_limit = 0, table_base = 0\<rparr>,
     idtr = \<lparr>table_limit = 0, table_base = 0\<rparr>, data_selector = 0, code_selector = 0,
     interrupt_flag = False, isr_stub = (\<lambda>n. 0x100000 + 16 * of_nat n),
     irq_stub = (\<lambda>n. 0x101000 + 16 * of_nat n), isrs_routines = replicate 32 None,
     irq_routines = replicate 16 None, lit = (\<lambda>_. 0x3000), timer_ticks = 0, ticker = 0,
     placement_pointer = 0x9000, frames = 0x1000, nframes = 64, kernel_directory = 0x2000,
     current_directory = 0x2000, heap_end = 0x100000, cr2 = 0\<rparr>"

theorem frame_bitmap_is_set_witness:
  "frame_used (set_frame (of_nat 33 * 0x1000) demo_kmm) 33"
  using frame_bitmap_is_set [of 33 33 demo_kmm] by simp

lemma demo_ld32: "al4 p \<Longrightarrow> ld32 (mem demo_kmm) p = (if p = 0x2000 then 0x8000 else 0)"
proof -
  assume "al4 p"
  moreover have "al4 0x2000" by (simp add: al4_def)
  moreover have "ld32 (\<lambda>_. 0) p = 0" by (simp add: ld32_def)
  ultimately show ?thesis by (simp add: demo_kmm_def ld32_st32_aligned)
qed

lemma demo_free: "used_frames demo_kmm = {}" "frame_limit demo_kmm = 64"
proof -
  have "word_at (mem demo_kmm) 0x1000 i = 0" if "i < 2" for i
  proof -
    have "i = 0 \<or> i = 1" using that by linarith
    then show ?thesis using demo_ld32 [of "0x1000"] demo_ld32 [of "0x1004"]
      by (auto simp: word_at_def al4_def)
  qed
  moreover have "frames demo_kmm = 0x1000" by (simp add: demo_kmm_def)
  moreover show lim: "frame_limit demo_kmm = 64" by (simp add: frame_limit_def demo_kmm_def)
  ultimately have "\<not> frame_used demo_kmm f" if "f < 64" for f
    using that by (simp add: frame_used_def)
  then show "used_frames demo_kmm = {}" by (auto simp: used_frames_def lim)
qed

lemma demo_find: "find (\<lambda>f. \<not> frame_used demo_kmm f) [0..<frame_limit demo_kmm] = Some 0"
proof -
  have "\<not> frame_used demo_kmm 0" using demo_free by (auto simp: used_frames_def)
  moreover have "[0..<64] = 0 # [Suc 0..<64 :: nat]" by (rule upt_conv_Cons) simp
  ultimately show ?thesis by (simp only: demo_free find.simps) simp
qed

lemma demo_apart: "unat p + 4 \<le> 2 ^ 32 \<Longrightarrow> 0x1008 \<le> unat p \<Longrightarrow> page_apart demo_kmm p"
proof -
  assume p: "unat p + 4 \<le> 2 ^ 32" "0x1008 \<le> unat p"
  have "\<not> in_range (0x1000 :: u32) 8 (p + of_nat k)" if "k < 4" for k
    using p that by (intro range_apart [where l = 4]) simp_all
  then show "page_apart demo_kmm p" by (simp add: page_apart_def in_bitmap_def demo_kmm_def)
qed

text \<open>C26: \<^verbatim>\<open>alloc_frame\<close> on an entry without a frame gives it the least free frame, present, with the
  requested permissions and its other flag bits kept; it marks that frame used and no other,
  and changes no byte but those of the bitmap and the entry.\<close>

theorem alloc_frame_least:
  assumes "frames_ok s" and "page_apart s page" and "pte_frame (ld32 (mem s) page) = 0"
    and "find (\<lambda>f. \<not> frame_used s f) [0..<frame_limit s] = Some f"
  shows "\<exists>s' w. alloc_frame page kern writeable s = ret s' \<and> ld32 (mem s') page = w \<and>
    pte_frame w = of_nat f \<and> bit w 0 \<and> (bit w 1 \<longleftrightarrow> writeable) \<and> (bit w 2 \<longleftrightarrow> \<not> kern) \<and>
    used_frames s' = insert f (used_frames s) \<and>
    (\<forall>x. \<not> in_bitmap s x \<and> \<not> in_range page 4 x \<longrightarrow> mem s' x = mem s x)"
proof -
  obtain s' where s': "alloc_frame page kern writeable s = ret s'"
    "ld32 (mem s') page = pte_new f kern writeable (ld32 (mem s) page)"
    "used_frames s' = insert f (used_frames s)"
    "\<And>x. \<not> in_bitmap s x \<Longrightarrow> \<not> in_range page 4 x \<Longrightarrow> mem s' x = mem s x"
    using assms by (rule alloc_frame_fresh) blast
  have "f < 2 ^ 20" using find_free(1) [OF assms(4)] frame_limit_bound [OF assms(1)] by blast
  then show ?thesis using s' pte_frame_new pte_new_bits by blast
qed

theorem alloc_frame_least_witness:
  "\<exists>s'. alloc_frame 0x8400 False True demo_kmm = ret s' \<and> used_frames s' = {0} \<and>
     bit (ld32 (mem s') 0x8400) 1"
proof -
  have "pte_frame (ld32 (mem demo_kmm) 0x8400) = 0"
    by (simp add: demo_ld32 al4_def pte_frame_def)
  moreover have "frames_ok demo_kmm" by (simp add: frames_ok_def demo_kmm_def)
  moreover have "page_apart demo_kmm 0x8400" by (rule demo_apart) simp_all
  ultimately show ?thesis
    using alloc_frame_least [of demo_kmm "0x8400" 0 False True] demo_find
    by (auto simp: demo_free)
qed

text \<open>with every frame in use \<^verbatim>\<open>alloc_frame\<close> stops the machine, unless the entry already has
  a frame, in which case it changes nothing.\<close>

theorem alloc_frame_exhausted:
  assumes "used_frames s = {..<frame_limit s}"
  shows "alloc_frame page kern writeable s =
    (if pte_frame (ld32 (mem s) page) \<noteq> 0 then ret s
     else halt (Panic ''Failed to allocate a frame: out of frames''))"
  using assms alloc_frame_full alloc_frame_mapped by auto

theorem alloc_frame_exhausted_witness:
  "alloc_frame 0x8400 False False (demo_kmm\<lparr>nframes := 31\<rparr>) =
     halt (Panic ''Failed to allocate a frame: out of frames'')"
proof -
  have "frame_limit (demo_kmm\<lparr>nframes := 31\<rparr>) = 0" by (simp add: frame_limit_def)
  moreover have "pte_frame (ld32 (mem demo_kmm) 0x8400) = 0"
    by (simp add: demo_ld32 al4_def pte_frame_def)
  ultimately show ?thesis
    using alloc_frame_exhausted [of "demo_kmm\<lparr>nframes := 31\<rparr>" "0x8400" False False]
    by (simp add: used_frames_def)
qed

text \<open>C38: \<^verbatim>\<open>free_frame\<close> does not free the frame of the entry: it clears the bit of the frame whose
  number is the entry's divided by 4096, and then forgets the frame, so a frame other than 0
  stays marked as used for ever.\<close>

theorem free_frame_leaks:
  assumes "frames_ok s" and "page_apart s page" and "pte_frame (ld32 (mem s) page) = of_nat f"
    and "0 < f" and "f < frame_limit s"
  shows "used_frames (free_frame page s) = used_frames s - {f div 0x1000} \<and>
    pte_frame (ld32 (mem (free_frame page s)) page) = 0 \<and>
    (f \<in> used_frames s \<longrightarrow> f \<in> used_frames (free_frame page s))"
proof -
  have "f div 0x1000 < f" using assms(4) by simp
  then have "f \<noteq> f div 0x1000" by simp
  then have "f \<in> used_frames s - {f div 0x1000}" if "f \<in> used_frames s" using that by blast
  then show ?thesis unfolding free_frame_frames [OF assms] by blast
qed

definition demo_mapped :: kmm where
  "demo_mapped = demo_kmm\<lparr>mem := st32 (mem demo_kmm) 0x8400 0x5001\<rparr>"

lemma demo_mapped_ok:
  "frames_ok demo_mapped" "page_apart demo_mapped 0x8400" "frame_limit demo_mapped = 64"
  "pte_frame (ld32 (mem demo_mapped) 0x8400) = of_nat 5"
proof -
  have "page_apart demo_kmm 0x8400" by (rule demo_apart) simp_all
  then show "page_apart demo_mapped 0x8400"
    by (simp add: page_apart_def in_bitmap_def demo_mapped_def demo_kmm_def)
  show "frames_ok demo_mapped" "frame_limit demo_mapped = 64"
    by (simp_all add: frames_ok_def frame_limit_def demo_mapped_def demo_kmm_def)
  have "mem demo_mapped = st32 (mem demo_kmm) 0x8400 0x5001" by (simp add: demo_mapped_def)
  then show "pte_frame (ld32 (mem demo_mapped) 0x8400) = of_nat 5"
    by (simp only: ld32_st32_same) (simp add: pte_frame_def drop_bit_eq_div)
qed

theorem free_frame_leaks_witness:
  "used_frames (free_frame 0x8400 demo_mapped) = used_frames demo_mapped - {0}"
  using free_frame_leaks [OF demo_mapped_ok(1,2,4)] demo_mapped_ok(3) by simp

text \<open>C30: \<^verbatim>\<open>get_page\<close> on an address without a page table makes one: the directory points to a
  zeroed, page-aligned table, the physical slot holds the same address with its flag bits, the
  returned entry lies in it, asking again returns the same entry without any change, and
  nothing else changes but the placement pointer.\<close>

theorem get_page_makes_table:
  assumes "ld32 (mem s) (dir_slot (kernel_directory s) a) = 0" and "0x1000 \<le> placement_pointer s"
    and "\<forall>x. in_range (placement_pointer s AND 0xFFFFF000) 0x1000 x \<longrightarrow>
      \<not> in_range (dir_slot (kernel_directory s) a) 4 x \<and> \<not> in_range (phys_slot (kernel_directory s) a) 4 x"
  shows "\<exists>t s'. get_page a True (kernel_directory s) s = (t + 4 * (a div 0x1000 mod 1024), s') \<and>
    unat t mod 0x1000 = 0 \<and> t \<noteq> 0 \<and> (\<forall>x. in_range t 0x1000 x \<longrightarrow> mem s' x = 0) \<and>
    ld32 (mem s') (dir_slot (kernel_directory s) a) = t \<and>
    ld32 (mem s') (phys_slot (kernel_directory s) a) = t OR 0x7 \<and>
    get_page a mk (kernel_directory s) s' = (t + 4 * (a div 0x1000 mod 1024), s') \<and>
    (\<forall>x. \<not> in_range t 0x1000 x \<and> \<not> in_range (dir_slot (kernel_directory s) a) 4 x \<and>
       \<not> in_range (phys_slot (kernel_directory s) a) 4 x \<longrightarrow> mem s' x = mem s x) \<and>
    s' = s\<lparr>mem := mem s', placement_pointer := t + 0x1000\<rparr>"
proof -
  let ?kd = "kernel_directory s" and ?t = "placement_pointer s AND 0xFFFFF000"
  obtain s' where s': "get_page a True ?kd s = (page_entry s' a, s')"
    "ld32 (mem s') (dir_slot ?kd a) = ?t" "?t \<noteq> 0" "ld32 (mem s') (phys_slot ?kd a) = ?t OR 0x7"
    "\<And>x. in_range ?t 0x1000 x \<Longrightarrow> mem s' x = 0"
    "\<And>x. \<not> in_range ?t 0x1000 x \<Longrightarrow> \<not> in_range (dir_slot ?kd a) 4 x \<Longrightarrow>
        \<not> in_range (phys_slot ?kd a) 4 x \<Longrightarrow> mem s' x = mem s x"
    "s' = s\<lparr>mem := mem s', placement_pointer := ?t + 0x1000\<rparr>"
    using assms(1,2) assms(3) [rule_format] by (rule get_page_makes) blast+
  have kd: "kernel_directory s' = ?kd" using s'(7) by (rule ssubst) simp
  have entry: "page_entry s' a = ?t + 4 * (a div 0x1000 mod 1024)"
    by (simp only: page_entry_def kd s'(2))
  have again: "get_page a mk ?kd s' = (page_entry s' a, s')"
    using get_page_present [of s' a mk] s'(2,3) by (simp only: kd) simp
  have al: "unat ?t mod 0x1000 = 0" unfolding unat_align_down by simp
  show ?thesis
  proof (intro exI [of _ ?t] exI [of _ s'] conjI allI impI)
    show "get_page a True ?kd s = (?t + 4 * (a div 0x1000 mod 1024), s')"
      using s'(1) unfolding entry .
    show "get_page a mk ?kd s' = (?t + 4 * (a div 0x1000 mod 1024), s')"
      using again unfolding entry .
    show "mem s' x = mem s x" if "\<not> in_range ?t 0x1000 x \<and> \<not> in_range (dir_slot ?kd a) 4 x \<and>
        \<not> in_range (phys_slot ?kd a) 4 x" for x
      using that s'(6) by blast
  qed (fact al s'(2-5,7))+
qed

lemma demo_table_apart:
  "in_range (placement_pointer demo_kmm AND 0xFFFFF000) 0x1000 x \<Longrightarrow>
     \<not> in_range (dir_slot (kernel_directory demo_kmm) 0x400000) 4 x \<and>
     \<not> in_range (phys_slot (kernel_directory demo_kmm) 0x400000) 4 x"
proof -
  have fields: "placement_pointer demo_kmm AND 0xFFFFF000 = 0x9000"
    "dir_slot (kernel_directory demo_kmm) 0x400000 = 0x2004"
    "phys_slot (kernel_directory demo_kmm) 0x400000 = 0x3004"
    by (simp_all add: demo_kmm_def dir_slot_def phys_slot_def)
  assume "in_range (placement_pointer demo_kmm AND 0xFFFFF000) 0x1000 x"
  then obtain k where "k < 0x1000" "x = 0x9000 + of_nat k"
    unfolding fields by (rule in_range_obtain)
  moreover have "\<not> in_range 0x2004 4 (0x9000 + of_nat k)" if "k < 0x1000" for k
    using that by (intro range_apart [where l = "0x1000"]) simp_all
  moreover have "\<not> in_range 0x3004 4 (0x9000 + of_nat k)" if "k < 0x1000" for k
    using that by (intro range_apart [where l = "0x1000"]) simp_all
  ultimately show ?thesis unfolding fields by blast
qed

theorem get_page_makes_table_witness:
  "\<exists>s'. get_page 0x400000 True 0x2000 demo_kmm = (0x9000, s')"
proof -
  have kd: "kernel_directory demo_kmm = 0x2000" "placement_pointer demo_kmm = 0x9000"
    by (simp_all add: demo_kmm_def)
  have "ld32 (mem demo_kmm) (dir_slot (kernel_directory demo_kmm) 0x400000) = 0"
    by (simp add: kd dir_slot_def demo_ld32 al4_def)
  moreover have "0x1000 \<le> placement_pointer demo_kmm" by (simp add: kd)
  ultimately obtain t s' where t: "get_page 0x400000 True (kernel_directory demo_kmm) demo_kmm =
      (t + 4 * (0x400000 div 0x1000 mod 1024), s')"
    "s' = demo_kmm\<lparr>mem := mem s', placement_pointer := t + 0x1000\<rparr>"
    "ld32 (mem s') (dir_slot (kernel_directory demo_kmm) 0x400000) = t"
    using get_page_makes_table [of demo_kmm "0x400000" True] demo_table_apart by blast
  have "placement_pointer s' = 0xA000"
    using arg_cong [OF t(1), of "\<lambda>r. placement_pointer (snd r)"]
    using demo_ld32 [of "0x2004"]
    by (simp add: get_page_def kvmalloc_p_def kmalloc_real_def Let_def kd al4_def)
  moreover have "placement_pointer s' = t + 0x1000" using t(2) by (rule ssubst) simp
  ultimately have "t + 0x1000 = 0x9000 + 0x1000" by simp
  then have "t = 0x9000" by (simp only: add_right_cancel)
  then show ?thesis using t(1) by (simp add: kd)
qed

text \<open>C40: after \<^verbatim>\<open>heap_install\<close> the first page table \<^verbatim>\<open>get_page\<close> makes is put at address 0: it
  wipes the first page of the memory, the directory slot still reads as empty, and the entry
  returned lies in that wiped page.\<close>

theorem get_page_after_heap:
  assumes "ld32 (mem s) (dir_slot (kernel_directory s) a) = 0"
    and "\<forall>x. in_range 0 0x1000 x \<longrightarrow> \<not> in_range (phys_slot (kernel_directory s) a) 4 x"
  shows "\<exists>s'. get_page a True (kernel_directory s) (heap_install s) = (4 * (a div 0x1000 mod 1024), s') \<and>
    ld32 (mem s') (dir_slot (kernel_directory s) a) = 0 \<and>
    (\<forall>x. in_range 0 0x1000 x \<longrightarrow> mem s' x = 0) \<and> placement_pointer s' = 0x1000"
proof -
  obtain s' where "get_page a True (kernel_directory s) (heap_install s) = (4 * (a div 0x1000 mod 1024), s')"
    "ld32 (mem s') (dir_slot (kernel_directory s) a) = 0" "\<And>x. in_range 0 0x1000 x \<Longrightarrow> mem s' x = 0"
    "placement_pointer s' = 0x1000"
    using assms(1) assms(2) [rule_format] by (rule get_page_after_heap_install) blast+
  then show ?thesis by blast
qed

theorem get_page_after_heap_witness:
  "\<exists>s'. get_page 0x400000 True 0x2000 (heap_install demo_kmm) = (0, s') \<and> mem s' 0x10 = 0"
proof -
  have kd: "kernel_directory demo_kmm = 0x2000" by (simp add: demo_kmm_def)
  have "\<not> in_range 0x3004 4 (0 + of_nat k)" if "k < 0x1000" for k
    using that by (intro range_apart [where l = "0x1000"]) simp_all
  then have "\<not> in_range 0x3004 4 x" if "in_range 0 0x1000 x" for x
    using that by (elim in_range_obtain) auto
  moreover have "ld32 (mem demo_kmm) (dir_slot (kernel_directory demo_kmm) 0x400000) = 0"
    by (simp add: kd dir_slot_def demo_ld32 al4_def)
  moreover have "in_range 0 0x1000 0x10" by (simp add: in_range_def)
  ultimately show ?thesis
    using get_page_after_heap [of demo_kmm "0x400000"] by (auto simp: kd phys_slot_def)
qed

text \<open>C39: \<^verbatim>\<open>kvmalloc\<close> rounds the placement pointer down, so after a \<^verbatim>\<open>kmalloc\<close> of less than a page
  that started on a page boundary it returns the same block again: this is how
  \<^verbatim>\<open>paging_install\<close> comes to put the page directory over the frame bitmap.\<close>

theorem kvmalloc_overlaps_kmalloc:
  assumes "unat (placement_pointer s) mod 0x1000 = 0" and "0x1000 \<le> placement_pointer s"
    and "unat n < 0x1000"
  shows "fst (kvmalloc sz (snd (kmalloc n s))) = fst (kmalloc n s)"
  using assms by (rule kvmalloc_after_kmalloc)

theorem kvmalloc_overlaps_kmalloc_witness:
  "fst (kvmalloc 8196 (snd (kmalloc 1016 (kmalloc_startat 0x200000 demo_kmm)))) = 0x200000"
  using kvmalloc_overlaps_kmalloc [of "kmalloc_startat 0x200000 demo_kmm" 1016 8196]
  by (simp add: kmalloc_startat_def kmalloc_returns)

text \<open>C20: \<^verbatim>\<open>sbrk\<close> of \<open>n\<close> pages, whose page tables exist and whose entries are empty and apart from
  the bitmap and each other, with enough free frames and an end below the last page: it
  returns the old end and moves it; the \<open>n\<close> pages get \<open>n\<close> distinct frames that were free, each
  entry present, for user mode and read-only; the bitmap gains exactly these frames; and
  nothing else in memory changes.\<close>

theorem sbrk_maps_heap:
  assumes "frames_ok s" and "unat (heap_end s) + 0x1000 * n < 2 ^ 32"
    and "card (used_frames s) + n \<le> frame_limit s"
    and "pages_ready s (page_run (heap_end s) n)"
  shows "\<exists>fs s'. sbrk (0x1000 * of_nat n) s = ret (heap_end s, s') \<and>
    heap_end s' = heap_end s + 0x1000 * of_nat n \<and>
    length fs = n \<and> distinct fs \<and> set fs \<inter> used_frames s = {} \<and>
    used_frames s' = used_frames s \<union> set fs \<and>
    (\<forall>k < n. ld32 (mem s') (page_entry s (heap_end s + 0x1000 * of_nat k)) =
       pte_new (fs ! k) False False (ld32 (mem s) (page_entry s (heap_end s + 0x1000 * of_nat k)))) \<and>
    (\<forall>x. \<not> in_bitmap s x \<and> (\<forall>a \<in> set (page_run (heap_end s) n). \<not> in_range (page_entry s a) 4 x) \<longrightarrow>
       mem s' x = mem s x)"
proof -
  let ?s = "s\<lparr>heap_end := heap_end s + 0x1000 * of_nat n\<rparr>" and ?as = "page_run (heap_end s) n"
  obtain fs s' where s': "sbrk (0x1000 * of_nat n) s = ret (heap_end s, s')"
    "heap_end s' = heap_end s + 0x1000 * of_nat n" and grown: "grown ?s ?as fs s'"
    using sbrk_grown [OF assms] by blast
  have same: "used_frames ?s = used_frames s" "page_entry ?s = page_entry s" "in_bitmap ?s = in_bitmap s"
    by (simp_all add: page_entry_def in_bitmap_def used_frames_def frame_limit_def frame_used_def fun_eq_iff)
  have len: "length ?as = n" and nth: "k < n \<Longrightarrow> ?as ! k = heap_end s + 0x1000 * of_nat k" for k
    by (simp_all add: page_run_def)
  have allocs: "allocations frame_step ?s fs s'" using grown by (simp add: grown_def)
  have "distinct fs" "set fs \<inter> used_frames s = {}" "used_frames s' = used_frames s \<union> set fs"
    using frame_map.allocations_distinct [OF allocs] frame_map.allocations_used [OF allocs] same
    by simp_all
  moreover have "length fs = n" using grown len by (simp add: grown_def)
  moreover have "\<forall>k < n. ld32 (mem s') (page_entry s (heap_end s + 0x1000 * of_nat k)) =
       pte_new (fs ! k) False False (ld32 (mem s) (page_entry s (heap_end s + 0x1000 * of_nat k)))"
    using grown by (auto simp: grown_def same len nth)
  moreover have "\<forall>x. \<not> in_bitmap s x \<and> (\<forall>a \<in> set ?as. \<not> in_range (page_entry s a) 4 x) \<longrightarrow> mem s' x = mem s x"
    using grown by (simp add: grown_def same)
  ultimately show ?thesis using s' by blast
qed

lemma demo_ready: "pages_ready demo_kmm (page_run (heap_end demo_kmm) 1)"
proof -
  have run: "page_run (heap_end demo_kmm) 1 = [0x100000]" by (simp add: page_run_def demo_kmm_def)
  have slot: "dir_slot (kernel_directory demo_kmm) 0x100000 = 0x2000"
    by (simp add: dir_slot_def demo_kmm_def)
  have entry: "page_entry demo_kmm 0x100000 = 0x8400"
    unfolding page_entry_def slot by (simp add: demo_ld32 al4_def)
  have "words_apart 0x8400 0x2000"
    unfolding words_apart_def by (auto intro!: range_apart [where l = 4, unfolded not_def, THEN mp])
  moreover have "page_apart demo_kmm 0x8400" "page_apart demo_kmm 0x2000"
    by (rule demo_apart; simp)+
  ultimately show ?thesis
    unfolding pages_ready_def run by (simp add: slot entry Let_def demo_ld32 al4_def pte_frame_def)
qed

theorem sbrk_maps_heap_witness:
  "\<exists>s'. sbrk 0x1000 demo_kmm = ret (0x100000, s') \<and> heap_end s' = 0x101000"
proof -
  have "frames_ok demo_kmm" "unat (heap_end demo_kmm) + 0x1000 * 1 < 2 ^ 32"
    by (simp_all add: frames_ok_def demo_kmm_def)
  then show ?thesis
    using sbrk_maps_heap [of demo_kmm 1] demo_free demo_ready by (auto simp: demo_kmm_def)
qed

end
