(* ===== verification/SkipList.thy ===== *)
theory SkipList
  imports KMem
begin

text \<open>
  The skip list of free big blocks, \<^verbatim>\<open>kernel/core/alloc.c\<close>.  A node is the header of a block
  in the flat memory: the word \<^verbatim>\<open>size\<close> at offset 8 and the seven words \<^verbatim>\<open>forward[i]\<close> from
  offset 16 on.  The head of the list is a header of its own, at the address \<open>big_head\<close> the
  linker chose.  The asserts of the source are active (\<^verbatim>\<open>system.h\<close> defines \<^verbatim>\<open>assert\<close> whatever
  \<^verbatim>\<open>NDEBUG\<close> is), so each is a branch that stops the machine.
\<close>

record kheap = kmm +
  bin_head :: "u32 list"     \<comment> \<open>\<^verbatim>\<open>klmalloc_bin_head\<close>, ten list heads\<close>
  big_head :: u32            \<comment> \<open>the address of \<^verbatim>\<open>klmalloc_big_bins.head\<close>\<close>
  big_level :: nat
  newest_big :: u32
  rng_x :: u32
  rng_y :: u32
  rng_z :: u32
  rng_w :: u32

definition SKIP_MAX_LEVEL :: nat where
  "SKIP_MAX_LEVEL = 6"

section \<open>Headers\<close>

definition hdr_next :: "mem \<Rightarrow> u32 \<Rightarrow> u32" where
  "hdr_next m p = ld32 m p"

definition hdr_head :: "mem \<Rightarrow> u32 \<Rightarrow> u32" where
  "hdr_head m p = ld32 m (p + 4)"

definition hdr_size :: "mem \<Rightarrow> u32 \<Rightarrow> u32" where
  "hdr_size m p = ld32 m (p + 8)"

definition hdr_prev :: "mem \<Rightarrow> u32 \<Rightarrow> u32" where
  "hdr_prev m p = ld32 m (p + 12)"

definition fwd :: "mem \<Rightarrow> u32 \<Rightarrow> nat \<Rightarrow> u32" where
  "fwd m p i = ld32 m (p + 16 + 4 * of_nat i)"

definition set_fwd :: "mem \<Rightarrow> u32 \<Rightarrow> nat \<Rightarrow> u32 \<Rightarrow> mem" where
  "set_fwd m p i v = st32 m (p + 16 + 4 * of_nat i) v"

definition size_fits :: "mem \<Rightarrow> u32 \<Rightarrow> bool" where
  "size_fits m p \<longleftrightarrow> (hdr_size m p + 44) mod 0x1000 = 0"

section \<open>Levels\<close>

definition klmalloc_skip_rand :: "'a kheap_scheme \<Rightarrow> u32 \<times> 'a kheap_scheme" where
  "klmalloc_skip_rand s =
     (let t = rng_x s XOR push_bit 11 (rng_x s);
          w = rng_w s XOR drop_bit 19 (rng_w s) XOR t XOR drop_bit 8 t
      in (w, s\<lparr>rng_x := rng_y s, rng_y := rng_z s, rng_z := rng_w s, rng_w := w\<rparr>))"

text \<open>The loop \<^verbatim>\<open>while (rand() < SKIP_P && level < SKIP_MAX_LEVEL)\<close>, \<open>n\<close> levels below the maximum.\<close>

fun random_level_loop :: "nat \<Rightarrow> nat \<Rightarrow> 'a kheap_scheme \<Rightarrow> nat \<times> 'a kheap_scheme" where
  "random_level_loop n level s =
     (case klmalloc_skip_rand s of (r, s1) \<Rightarrow>
        if r < 0x7FFFFFFF then
          (case n of 0 \<Rightarrow> (level, s1) | Suc k \<Rightarrow> random_level_loop k (Suc level) s1)
        else (level, s1))"

definition klmalloc_random_level :: "'a kheap_scheme \<Rightarrow> nat \<times> 'a kheap_scheme" where
  "klmalloc_random_level s = random_level_loop SKIP_MAX_LEVEL 0 s"

declare random_level_loop.simps [simp del]

section \<open>Searching\<close>

partial_function (option) skip_walk :: "nat \<Rightarrow> u32 \<Rightarrow> u32 \<Rightarrow> mem \<Rightarrow> u32 run" where
  "skip_walk i q node m =
     (if fwd m node i \<noteq> 0 \<and> hdr_size m (fwd m node i) < q then
        bind_run (assert_run (size_fits m (fwd m node i)) ''(node->size + sizeof) % PAGE_SIZE == 0'')
          (\<lambda>_. skip_walk i q (fwd m node i) m)
      else ret node)"

text \<open>
  The loop \<^verbatim>\<open>for (i = level; i >= 0; --i)\<close> of all three operations, over \<open>n = level + 1\<close> levels.
  It returns the last node and the array \<^verbatim>\<open>update\<close>, which \<^verbatim>\<open>findbest\<close> does not keep.
\<close>

fun skip_descend :: "nat \<Rightarrow> u32 \<Rightarrow> u32 \<Rightarrow> mem \<Rightarrow> (u32 \<times> u32 list) run" where
  "skip_descend 0 q node m = ret (node, [])"
| "skip_descend (Suc i) q node m =
     bind_run (skip_walk i q node m) (\<lambda>n.
       bind_run (skip_descend i q n m) (\<lambda>(n', us). ret (n', us @ [n])))"

definition klmalloc_skip_list_findbest :: "u32 \<Rightarrow> 'a kheap_scheme \<Rightarrow> u32 run" where
  "klmalloc_skip_list_findbest search_size s =
     bind_run (skip_descend (Suc (big_level s)) search_size (big_head s) (mem s)) (\<lambda>(node, _).
       let r = fwd (mem s) node 0 in
       if r \<noteq> 0 then
         bind_run (assert_run (r mod 0x1000 = 0) ''(uintptr_t)node % PAGE_SIZE == 0'') (\<lambda>_.
         bind_run (assert_run (size_fits (mem s) r) ''(node->size + sizeof) % PAGE_SIZE == 0'') (\<lambda>_.
         ret r))
       else ret r)"

section \<open>Insertion\<close>

fun skip_link :: "nat \<Rightarrow> nat \<Rightarrow> u32 list \<Rightarrow> u32 \<Rightarrow> mem \<Rightarrow> mem run" where
  "skip_link 0 i us v m = ret m"
| "skip_link (Suc n) i us v m =
     (let m1 = set_fwd m v i (fwd m (us ! i) i) in
      bind_run (if fwd m1 v i \<noteq> 0
                then assert_run (size_fits m1 (fwd m1 v i)) ''(forward->size + sizeof) % PAGE_SIZE == 0''
                else ret ())
        (\<lambda>_. skip_link n (Suc i) us v (set_fwd m1 (us ! i) i v)))"

definition klmalloc_skip_list_insert :: "u32 \<Rightarrow> 'a kheap_scheme \<Rightarrow> 'a kheap_scheme run" where
  "klmalloc_skip_list_insert v s =
     bind_run (assert_run (v \<noteq> 0) ''value != NULL'') (\<lambda>_.
     bind_run (assert_run (hdr_head (mem s) v \<noteq> 0) ''value->head != NULL'') (\<lambda>_.
     bind_run (assert_run (v mod 0x1000 = 0) ''(uintptr_t)value % PAGE_SIZE == 0'') (\<lambda>_.
     bind_run (assert_run (size_fits (mem s) v) ''(value->size + sizeof) % PAGE_SIZE == 0'') (\<lambda>_.
     bind_run (assert_run (hdr_size (mem s) v \<noteq> 0) ''value->size != 0'') (\<lambda>_.
     bind_run (skip_descend (Suc (big_level s)) (hdr_size (mem s) v) (big_head s) (mem s)) (\<lambda>(node, us).
       if fwd (mem s) node 0 \<noteq> v then
         (case klmalloc_random_level s of (level, s1) \<Rightarrow>
            let us1 = us @ replicate (level - big_level s1) (big_head s1);
                s2 = (if level > big_level s1 then s1\<lparr>big_level := level\<rparr> else s1)
            in bind_run (skip_link (Suc level) 0 us1 v (mem s2)) (\<lambda>m. ret (s2\<lparr>mem := m\<rparr>)))
       else ret s))))))"

section \<open>Deletion\<close>

partial_function (option) skip_seek :: "u32 \<Rightarrow> u32 \<Rightarrow> mem \<Rightarrow> u32 run" where
  "skip_seek v node m = (if node \<noteq> v then skip_seek v (fwd m node 0) m else ret node)"

fun skip_unlink :: "nat \<Rightarrow> nat \<Rightarrow> u32 list \<Rightarrow> u32 \<Rightarrow> mem \<Rightarrow> mem run" where
  "skip_unlink 0 i us v m = ret m"
| "skip_unlink (Suc n) i us v m =
     (if fwd m (us ! i) i \<noteq> v then ret m
      else let m1 = set_fwd m (us ! i) i (fwd m v i); f = fwd m1 (us ! i) i in
        bind_run (if f \<noteq> 0 then
            bind_run (assert_run (f mod 0x1000 = 0) ''(uintptr_t)forward % PAGE_SIZE == 0'') (\<lambda>_.
              assert_run (size_fits m1 f) ''(forward->size + sizeof) % PAGE_SIZE == 0'')
          else ret ())
        (\<lambda>_. skip_unlink n (Suc i) us v m1))"

fun skip_shrink :: "nat \<Rightarrow> u32 \<Rightarrow> mem \<Rightarrow> nat" where
  "skip_shrink 0 head m = 0"
| "skip_shrink (Suc l) head m = (if fwd m head (Suc l) = 0 then skip_shrink l head m else Suc l)"

text \<open>
  After the loop \<^verbatim>\<open>while (node != value)\<close> the node is the value, so the search from the front
  that follows it in the source is never entered.
\<close>

definition klmalloc_skip_list_delete :: "u32 \<Rightarrow> 'a kheap_scheme \<Rightarrow> 'a kheap_scheme run" where
  "klmalloc_skip_list_delete v s =
     bind_run (assert_run (v \<noteq> 0) ''value != NULL'') (\<lambda>_.
     bind_run (assert_run (hdr_head (mem s) v \<noteq> 0) ''value->head'') (\<lambda>_.
     bind_run (skip_descend (Suc (big_level s)) (hdr_size (mem s) v) (big_head s) (mem s)) (\<lambda>(node, us).
     bind_run (skip_seek v (fwd (mem s) node 0) (mem s)) (\<lambda>_.
     bind_run (skip_unlink (Suc (big_level s)) 0 us v (mem s)) (\<lambda>m.
       ret (s\<lparr>mem := m, big_level := skip_shrink (big_level s) (big_head s) m\<rparr>))))))"

section \<open>Linked lists\<close>

text \<open>\<open>linked f p ns\<close>: following \<open>f\<close> from \<open>p\<close> visits \<open>ns\<close> and then ends with a null pointer.\<close>

primrec linked :: "(u32 \<Rightarrow> u32) \<Rightarrow> u32 \<Rightarrow> u32 list \<Rightarrow> bool" where
  "linked f p [] \<longleftrightarrow> f p = 0"
| "linked f p (n # ns) \<longleftrightarrow> f p = n \<and> n \<noteq> 0 \<and> linked f n ns"

lemma linked_cong:
  "(\<And>x. x \<in> set (p # ns) \<Longrightarrow> f x = g x) \<Longrightarrow> linked f p ns = linked g p ns"
  by (induction ns arbitrary: p) auto

lemma linked_suffix: "linked f p (xs @ ys) \<Longrightarrow> linked f (last (p # xs)) ys"
  by (induction xs arbitrary: p) auto

lemma linked_first: "linked f p ns \<Longrightarrow> f p = (case ns of [] \<Rightarrow> 0 | n # _ \<Rightarrow> n)"
  by (cases ns) auto

lemma linked_unique: "linked f p xs \<Longrightarrow> linked f p ys \<Longrightarrow> xs = ys"
proof (induction xs arbitrary: p ys)
  case Nil
  then show ?case by (cases ys) auto
next
  case (Cons x xs)
  then show ?case by (cases ys) auto
qed

lemma linked_insert:
  assumes "linked f p (xs @ ys)" and "distinct (p # xs @ ys)" and "v \<notin> set (p # xs @ ys)" and "v \<noteq> 0"
  shows "linked (f(v := f (last (p # xs)), last (p # xs) := v)) p (xs @ v # ys)"
  using assms
proof (induction xs arbitrary: p)
  case Nil
  have "linked (f(v := f p, p := v)) v ys = linked f p ys"
  proof (cases ys)
    case (Cons y zs)
    have "linked (f(v := f p, p := v)) y zs = linked f y zs"
      using Nil Cons by (intro linked_cong) auto
    then show ?thesis using Nil Cons by auto
  qed (use Nil in auto)
  then show ?case using Nil by (auto simp: fun_upd_def)
next
  case (Cons x xs)
  have "last (x # xs) \<in> set (x # xs)" by (rule last_in_set) simp
  then have "p \<noteq> last (x # xs)" using Cons.prems(2) by auto
  then show ?case using Cons by auto
qed

lemma linked_remove:
  assumes "linked f p (xs @ v # ys)" and "distinct (p # xs @ v # ys)"
  shows "linked (f(last (p # xs) := f v)) p (xs @ ys)"
  using assms
proof (induction xs arbitrary: p)
  case Nil
  have "linked (f(p := f v)) p ys = linked f v ys"
  proof (cases ys)
    case (Cons y zs)
    have "linked (f(p := f v)) y zs = linked f y zs"
      using Nil Cons by (intro linked_cong) auto
    then show ?thesis using Nil Cons by auto
  qed (use Nil in auto)
  then show ?case using Nil by (auto simp: fun_upd_def)
next
  case (Cons x xs)
  have "last (x # xs) \<in> set (x # xs)" by (rule last_in_set) simp
  then have "p \<noteq> last (x # xs)" using Cons.prems(2) by auto
  then show ?case using Cons by auto
qed

section \<open>Headers in memory\<close>

text \<open>
  \<open>headers H\<close>: word-aligned headers of eleven words each that do not overlap.  Page-aligned
  blocks and the static head are such a set when the head lies outside the heap.
\<close>

definition hdr_apart :: "u32 \<Rightarrow> u32 \<Rightarrow> bool" where
  "hdr_apart p q \<longleftrightarrow> (\<forall>j < 11. \<forall>k < 11. p + 4 * of_nat j \<noteq> q + 4 * of_nat k)"

definition headers :: "u32 set \<Rightarrow> bool" where
  "headers H \<longleftrightarrow> (\<forall>p \<in> H. al4 p) \<and> (\<forall>p \<in> H. \<forall>q \<in> H. p \<noteq> q \<longrightarrow> hdr_apart p q)"

lemma headers_mono: "headers H \<Longrightarrow> K \<subseteq> H \<Longrightarrow> headers K"
  unfolding headers_def by blast

lemma hdr_words:
  "hdr_next m p = word_at m p 0" "hdr_head m p = word_at m p 1" "hdr_size m p = word_at m p 2"
  "hdr_prev m p = word_at m p 3" "fwd m p i = word_at m p (4 + i)"
  "set_fwd m p i v = st32 m (p + 4 * of_nat (4 + i)) v"
  by (simp_all add: hdr_next_def hdr_head_def hdr_size_def hdr_prev_def fwd_def set_fwd_def
      word_at_def algebra_simps)

lemma al4_word [intro]: "al4 p \<Longrightarrow> al4 (p + 4 * x)"
  by (rule al4_add) simp_all

lemma header_word_st32:
  assumes "headers H" and "p \<in> H" and "q \<in> H" and "j < 11" and "k < 11"
  shows "word_at (st32 m (p + 4 * of_nat j) v) q k = (if p = q \<and> j = k then v else word_at m q k)"
proof (cases "p = q")
  case True
  then show ?thesis using assms(4,5) by (simp add: word_at_st32)
next
  case False
  have "al4 p" "al4 q" and "hdr_apart p q" using assms(1-3) False by (auto simp: headers_def)
  then have "q + 4 * of_nat k \<noteq> p + 4 * of_nat j" using assms(4,5) unfolding hdr_apart_def by metis
  then show ?thesis
    using False \<open>al4 p\<close> \<open>al4 q\<close> by (simp add: word_at_def ld32_st32_aligned al4_word)
qed

lemma fwd_set_fwd:
  assumes "headers H" and "p \<in> H" and "q \<in> H" and "i \<le> 6" and "j \<le> 6"
  shows "fwd (set_fwd m p i v) q j = (if p = q \<and> i = j then v else fwd m q j)"
  using header_word_st32 [OF assms(1-3), of "4 + i" "4 + j"] assms(4,5)
  unfolding hdr_words by simp

lemma size_set_fwd:
  assumes "headers H" and "p \<in> H" and "q \<in> H" and "i \<le> 6"
  shows "hdr_size (set_fwd m p i v) q = hdr_size m q"
  using header_word_st32 [OF assms(1-3), of "4 + i" 2] assms(4) unfolding hdr_words by simp

lemma head_set_fwd:
  assumes "headers H" and "p \<in> H" and "q \<in> H" and "i \<le> 6"
  shows "hdr_head (set_fwd m p i v) q = hdr_head m q"
  using header_word_st32 [OF assms(1-3), of "4 + i" 1] assms(4) unfolding hdr_words by simp

section \<open>The skip list invariant\<close>

text \<open>
  \<open>skip_list s ns lv\<close>: the free big blocks are \<open>ns\<close>, in the order of their sizes; \<open>lv\<close> is the
  level of each, and the list of every level \<open>i\<close> holds exactly the blocks of level \<open>i\<close> or
  more, in the same order.
\<close>

definition level_list :: "(u32 \<Rightarrow> nat) \<Rightarrow> nat \<Rightarrow> u32 list \<Rightarrow> u32 list" where
  "level_list lv i ns = filter (\<lambda>n. i \<le> lv n) ns"

definition skip_list :: "'a kheap_scheme \<Rightarrow> u32 list \<Rightarrow> (u32 \<Rightarrow> nat) \<Rightarrow> bool" where
  "skip_list s ns lv \<longleftrightarrow>
     distinct ns \<and> 0 \<notin> set ns \<and> big_head s \<notin> set ns \<and>
     headers (insert (big_head s) (set ns)) \<and> big_level s \<le> 6 \<and>
     (\<forall>n \<in> set ns. lv n \<le> big_level s \<and> n mod 0x1000 = 0 \<and> size_fits (mem s) n) \<and>
     sorted (map (hdr_size (mem s)) ns) \<and>
     (\<forall>i \<le> 6. linked (\<lambda>p. fwd (mem s) p i) (big_head s) (level_list lv i ns))"

lemma level_list_simps [simp]:
  "level_list lv i [] = []" "level_list lv 0 ns = ns"
  "level_list lv i (xs @ ys) = level_list lv i xs @ level_list lv i ys"
  "level_list lv i (n # ns) = (if i \<le> lv n then n # level_list lv i ns else level_list lv i ns)"
  by (simp_all add: level_list_def)

lemma set_level_list: "set (level_list lv i ns) = {n \<in> set ns. i \<le> lv n}"
  by (auto simp: level_list_def)

lemma level_list_mono: "i \<le> j \<Longrightarrow> set (level_list lv j ns) \<subseteq> set (level_list lv i ns)"
  by (auto simp: set_level_list)

lemma level_list_cong: "(\<And>n. n \<in> set ns \<Longrightarrow> lv n = lv' n) \<Longrightarrow> level_list lv i ns = level_list lv' i ns"
  unfolding level_list_def by (rule filter_cong) simp_all

text \<open>The blocks smaller than \<open>q\<close>, and the last of them at each level.\<close>

definition below :: "mem \<Rightarrow> u32 \<Rightarrow> u32 list \<Rightarrow> u32 list" where
  "below m q ns = takeWhile (\<lambda>n. hdr_size m n < q) ns"

definition above :: "mem \<Rightarrow> u32 \<Rightarrow> u32 list \<Rightarrow> u32 list" where
  "above m q ns = dropWhile (\<lambda>n. hdr_size m n < q) ns"

definition pred_of :: "(u32 \<Rightarrow> nat) \<Rightarrow> u32 \<Rightarrow> u32 list \<Rightarrow> nat \<Rightarrow> u32" where
  "pred_of lv head bs i = last (head # level_list lv i bs)"

lemma below_above [simp]: "below m q ns @ above m q ns = ns"
  by (simp add: below_def above_def)

lemma below_small: "n \<in> set (below m q ns) \<Longrightarrow> hdr_size m n < q \<and> n \<in> set ns"
  unfolding below_def by (auto dest: set_takeWhileD)

lemma above_large:
  assumes "sorted (map (hdr_size m) ns)" and "n \<in> set (above m q ns)"
  shows "q \<le> hdr_size m n" and "n \<in> set ns"
proof -
  show "n \<in> set ns" using assms(2) unfolding above_def by (rule set_dropWhileD)
  obtain a as where a: "above m q ns = a # as" using assms(2) by (cases "above m q ns") auto
  then have "\<not> hdr_size m a < q" using hd_dropWhile [of "\<lambda>n. hdr_size m n < q" ns] by (simp add: above_def)
  moreover have "sorted (map (hdr_size m) (a # as))"
    using assms(1) below_above [of m q ns] a by (metis map_append sorted_append)
  ultimately show "q \<le> hdr_size m n" using assms(2) a by auto
qed

section \<open>Searching\<close>

lemma skip_walk_end:
  assumes "linked (\<lambda>p. fwd m p i) p (F @ G)"
    and "\<And>n. n \<in> set F \<Longrightarrow> hdr_size m n < q \<and> size_fits m n"
    and "\<And>n. n \<in> set G \<Longrightarrow> q \<le> hdr_size m n"
  shows "skip_walk i q p m = ret (last (p # F))"
  using assms
proof (induction F arbitrary: p)
  case Nil
  then have "fwd m p i = 0 \<or> \<not> hdr_size m (fwd m p i) < q" by (cases G) (auto simp: not_less)
  then show ?case by (subst skip_walk.simps) auto
next
  case (Cons n F)
  then have "fwd m p i = n" "n \<noteq> 0" "hdr_size m n < q" "size_fits m n"
    and "skip_walk i q n m = ret (last (n # F))" by auto
  then show ?case by (subst skip_walk.simps) simp
qed

lemma skip_walk_from:
  assumes "linked (\<lambda>p. fwd m p i) h (F @ G)" and "p \<in> set (h # F)"
    and "\<And>n. n \<in> set F \<Longrightarrow> hdr_size m n < q \<and> size_fits m n"
    and "\<And>n. n \<in> set G \<Longrightarrow> q \<le> hdr_size m n"
  shows "skip_walk i q p m = ret (last (h # F))"
proof -
  obtain xs ys where split: "h # F = xs @ p # ys" using assms(2) by (meson split_list)
  have "linked (\<lambda>p. fwd m p i) p (ys @ G)"
  proof (cases xs)
    case Nil
    then show ?thesis using assms(1) split by simp
  next
    case (Cons x xs')
    then have F: "F = xs' @ p # ys" using split by simp
    then have "linked (\<lambda>p. fwd m p i) h ((xs' @ [p]) @ ys @ G)" using assms(1) by simp
    then show ?thesis using linked_suffix [of _ h "xs' @ [p]" "ys @ G"] by simp
  qed
  moreover have "set ys \<subseteq> set F" using split by (cases xs) auto
  ultimately have "skip_walk i q p m = ret (last (p # ys))"
    using assms(3,4) by (intro skip_walk_end [of m i p ys G]) auto
  moreover have "last (h # F) = last (p # ys)" unfolding split by simp
  ultimately show ?thesis by simp
qed

text \<open>What the search needs of the memory.\<close>

definition searchable :: "mem \<Rightarrow> u32 \<Rightarrow> u32 list \<Rightarrow> (u32 \<Rightarrow> nat) \<Rightarrow> bool" where
  "searchable m h ns lv \<longleftrightarrow> sorted (map (hdr_size m) ns) \<and> (\<forall>n \<in> set ns. size_fits m n) \<and>
     (\<forall>i \<le> 6. linked (\<lambda>p. fwd m p i) h (level_list lv i ns))"

lemma skip_list_searchable:
  "skip_list s ns lv \<Longrightarrow> searchable (mem s) (big_head s) ns lv"
  by (simp add: skip_list_def searchable_def)

lemma skip_descend_preds:
  assumes "searchable m h ns lv" and "n \<le> 7"
    and "p \<in> set (h # level_list lv (n - 1) (below m q ns))"
  shows "skip_descend n q p m =
    ret (if n = 0 then p else pred_of lv h (below m q ns) 0, map (pred_of lv h (below m q ns)) [0..<n])"
  using assms(2,3)
proof (induction n arbitrary: p)
  case (Suc i)
  let ?B = "below m q ns" and ?A = "above m q ns"
  have sorted: "sorted (map (hdr_size m) ns)" and fits: "\<And>n. n \<in> set ns \<Longrightarrow> size_fits m n"
    and "linked (\<lambda>p. fwd m p i) h (level_list lv i ns)"
    using assms(1) Suc.prems(1) by (auto simp: searchable_def)
  then have link: "linked (\<lambda>p. fwd m p i) h (level_list lv i ?B @ level_list lv i ?A)"
    by (simp flip: level_list_simps(3))
  have walk: "skip_walk i q p m = ret (pred_of lv h ?B i)"
    unfolding pred_of_def
  proof (rule skip_walk_from [OF link])
    show "p \<in> set (h # level_list lv i ?B)" using Suc.prems(2) by simp
    show "hdr_size m n < q \<and> size_fits m n" if "n \<in> set (level_list lv i ?B)" for n
      using that below_small [of n m q ns] fits by (auto simp: set_level_list)
    show "q \<le> hdr_size m n" if "n \<in> set (level_list lv i ?A)" for n
      using that above_large(1) [OF sorted] by (auto simp: set_level_list)
  qed
  have "pred_of lv h ?B i \<in> set (h # level_list lv i ?B)"
    unfolding pred_of_def by (rule last_in_set) simp
  then have "pred_of lv h ?B i \<in> set (h # level_list lv (i - 1) ?B)"
    using level_list_mono [of "i - 1" i lv ?B] by auto
  then have "skip_descend i q (pred_of lv h ?B i) m =
      ret (if i = 0 then pred_of lv h ?B i else pred_of lv h ?B 0, map (pred_of lv h ?B) [0..<i])"
    using Suc.prems(1) by (intro Suc.IH) simp_all
  then show ?case using walk by simp
qed simp

lemma skip_descend_head:
  assumes "searchable m h ns lv" and "l \<le> 6"
  shows "skip_descend (Suc l) q h m =
    ret (pred_of lv h (below m q ns) 0, map (pred_of lv h (below m q ns)) [0..<Suc l])"
  using skip_descend_preds [OF assms(1), of "Suc l" h q] assms(2) by simp

lemma fwd_pred_0:
  assumes "searchable m h ns lv"
  shows "fwd m (pred_of lv h (below m q ns) 0) 0 = (case above m q ns of [] \<Rightarrow> 0 | n # _ \<Rightarrow> n)"
proof -
  have "linked (\<lambda>p. fwd m p 0) h (level_list lv 0 ns)" using assms unfolding searchable_def by blast
  then have "linked (\<lambda>p. fwd m p 0) h (below m q ns @ above m q ns)" by simp
  then show ?thesis unfolding pred_of_def level_list_simps(2)
    by (rule linked_suffix [THEN linked_first])
qed

text \<open>The best fit: the first block in the order of sizes that is large enough.\<close>

lemma findbest_above:
  assumes inv: "skip_list s ns lv"
  shows "klmalloc_skip_list_findbest q s =
    ret (case above (mem s) q ns of [] \<Rightarrow> 0 | n # _ \<Rightarrow> n)"
proof -
  note search = skip_list_searchable [OF inv]
  have "big_level s \<le> 6" using inv by (simp add: skip_list_def)
  note descend = skip_descend_head [OF search this, of q]
  show ?thesis
  proof (cases "above (mem s) q ns")
    case Nil
    then show ?thesis
      using descend fwd_pred_0 [OF search, of q] by (simp add: klmalloc_skip_list_findbest_def)
  next
    case (Cons n ns')
    then have "n \<in> set ns" using set_dropWhileD [of n] by (metis above_def list.set_intros(1))
    then have "n \<noteq> 0" "n mod 0x1000 = 0" "size_fits (mem s) n"
      using inv by (auto simp: skip_list_def)
    then show ?thesis
      using descend fwd_pred_0 [OF search, of q] Cons by (simp add: klmalloc_skip_list_findbest_def)
  qed
qed

lemma findbest_minimal:
  assumes inv: "skip_list s ns lv" and found: "klmalloc_skip_list_findbest q s = ret n" and "n \<noteq> 0"
  shows "n \<in> set ns" and "q \<le> hdr_size (mem s) n"
    and "\<And>k. k \<in> set ns \<Longrightarrow> q \<le> hdr_size (mem s) k \<Longrightarrow> hdr_size (mem s) n \<le> hdr_size (mem s) k"
proof -
  have sorted: "sorted (map (hdr_size (mem s)) ns)" using inv by (simp add: skip_list_def)
  obtain as where a: "above (mem s) q ns = n # as"
    using findbest_above [OF inv, of q] found assms(3) by (auto split: list.splits)
  then show "n \<in> set ns" "q \<le> hdr_size (mem s) n"
    using above_large [OF sorted, of n q] by simp_all
  show "hdr_size (mem s) n \<le> hdr_size (mem s) k" if k: "k \<in> set ns" "q \<le> hdr_size (mem s) k" for k
  proof -
    have "k \<notin> set (below (mem s) q ns)" using k(2) below_small [of k "mem s" q ns] by (auto simp: not_less)
    then have "k \<in> set (n # as)" using k(1) a below_above [of "mem s" q ns] by (metis Un_iff set_append)
    moreover have "sorted (map (hdr_size (mem s)) (n # as))"
      using sorted below_above [of "mem s" q ns] a by (metis map_append sorted_append)
    ultimately show ?thesis by auto
  qed
qed

lemma findbest_none:
  assumes "skip_list s ns lv" and "klmalloc_skip_list_findbest q s = ret 0" and "k \<in> set ns"
  shows "hdr_size (mem s) k < q"
proof -
  have "0 \<notin> set ns" using assms(1) by (simp add: skip_list_def)
  moreover have "n \<in> set ns" if "above (mem s) q ns = n # as" for n as
    using that set_dropWhileD [of n] by (metis above_def list.set_intros(1))
  ultimately have "above (mem s) q ns = []"
    using findbest_above [OF assms(1), of q] assms(2) by (cases "above (mem s) q ns") auto
  then have "k \<in> set (below (mem s) q ns)" using below_above [of "mem s" q ns] assms(3) by simp
  then show ?thesis using below_small by blast
qed

section \<open>Inserting\<close>

text \<open>All insertion and deletion write are forward words of headers.\<close>

definition fwd_words :: "u32 set \<Rightarrow> u32 set" where
  "fwd_words H = {p + 16 + 4 * of_nat j | p j. p \<in> H \<and> j \<le> 6}"

definition same_words :: "u32 set \<Rightarrow> mem \<Rightarrow> mem \<Rightarrow> bool" where
  "same_words W m m' \<longleftrightarrow> (\<forall>x. al4 x \<and> x \<notin> W \<longrightarrow> ld32 m' x = ld32 m x)"

lemma same_words_refl [simp]: "same_words W m m"
  by (simp add: same_words_def)

lemma same_words_trans: "same_words W m m' \<Longrightarrow> same_words W m' m'' \<Longrightarrow> same_words W m m''"
  by (simp add: same_words_def)

lemma same_words_mono: "same_words V m m' \<Longrightarrow> V \<subseteq> W \<Longrightarrow> same_words W m m'"
  by (auto simp: same_words_def)

lemma same_words_st32: "al4 x \<Longrightarrow> x \<in> W \<Longrightarrow> same_words W m (st32 m x v)"
  by (auto simp: same_words_def ld32_st32_aligned)

lemma fwd_word_in: "p \<in> H \<Longrightarrow> i \<le> 6 \<Longrightarrow> p + 4 * of_nat (4 + i) \<in> fwd_words H"
  by (force simp: fwd_words_def algebra_simps)

lemma header_word_not_fwd:
  assumes "headers H" and "p \<in> H" and "k < 4"
  shows "p + 4 * of_nat k \<notin> fwd_words H"
proof
  assume "p + 4 * of_nat k \<in> fwd_words H"
  then obtain q j where q: "q \<in> H" "j \<le> 6" "p + 4 * of_nat k = q + 16 + 4 * of_nat j"
    by (auto simp: fwd_words_def)
  then have eq: "p + 4 * of_nat k = q + 4 * of_nat (4 + j)" by simp
  have "\<forall>a < 11. \<forall>b < 11. p + 4 * of_nat a \<noteq> q + 4 * of_nat b" if "p \<noteq> q"
    using assms(1,2) q(1) that unfolding headers_def hdr_apart_def by blast
  moreover have "4 + j < 11" "k < 11" using q(2) assms(3) by simp_all
  ultimately have "p = q" using eq by blast
  then have "(of_nat (4 * k) :: u32) = of_nat (4 * (4 + j))" using eq by simp
  then have "4 * k = 4 * (4 + j)" using q(2) assms(3) by (subst (asm) of_nat_inject_small) simp_all
  then show False using assms(3) by simp
qed

lemma same_words_header:
  assumes "same_words (fwd_words H) m m'" and "headers H" and "p \<in> H" and "k < 4"
  shows "word_at m' p k = word_at m p k"
proof -
  have "al4 p" using assms(2,3) by (simp add: headers_def)
  then have "al4 (p + 4 * of_nat k)" by (rule al4_word)
  then show ?thesis using assms(1) header_word_not_fwd [OF assms(2-4)] by (simp add: same_words_def word_at_def)
qed

lemma same_words_fields:
  assumes "same_words (fwd_words H) m m'" and "headers H" and "p \<in> H"
  shows "hdr_size m' p = hdr_size m p" and "hdr_head m' p = hdr_head m p"
    and "size_fits m' p = size_fits m p"
  using same_words_header [OF assms, of 1] same_words_header [OF assms, of 2]
  by (simp_all add: hdr_words size_fits_def)

lemma set_fwd_same_words:
  assumes "headers H" and "p \<in> H" and "i \<le> 6"
  shows "same_words (fwd_words H) m (set_fwd m p i v)"
proof -
  have "al4 p" using assms(1,2) by (simp add: headers_def)
  then have "al4 (p + 4 * of_nat (4 + i))" by (rule al4_word)
  then show ?thesis unfolding hdr_words using fwd_word_in [OF assms(2,3)] by (rule same_words_st32)
qed

lemma linked_fwd_cong:
  assumes "headers H" and "set (p # ns) \<subseteq> H" and "\<And>q. q \<in> H \<Longrightarrow> fwd m' q i = fwd m q i"
  shows "linked (\<lambda>q. fwd m' q i) p ns = linked (\<lambda>q. fwd m q i) p ns"
  using assms by (intro linked_cong) auto

lemma link_level:
  assumes H: "headers H" "set (h # v # xs @ ys) \<subseteq> H" and i: "i \<le> 6"
    and link: "linked (\<lambda>q. fwd m q i) h (xs @ ys)"
    and dist: "distinct (h # xs @ ys)" "v \<notin> set (h # xs @ ys)" "v \<noteq> 0"
  defines "p \<equiv> last (h # xs)"
  shows "linked (\<lambda>q. fwd (set_fwd (set_fwd m v i (fwd m p i)) p i v) q i) h (xs @ v # ys)"
    and "fwd (set_fwd m v i (fwd m p i)) v i = (case ys of [] \<Rightarrow> 0 | y # _ \<Rightarrow> y)"
proof -
  have "p \<in> set (h # xs)" unfolding p_def by (rule last_in_set) simp
  then have pH: "p \<in> H" and vH: "v \<in> H" using H(2) by auto
  have new: "linked ((\<lambda>q. fwd m q i)(v := fwd m p i, p := v)) h (xs @ v # ys)"
    using linked_insert [OF link dist] unfolding p_def .
  have same: "fwd (set_fwd (set_fwd m v i (fwd m p i)) p i v) q i =
      ((\<lambda>q. fwd m q i)(v := fwd m p i, p := v)) q" if "q \<in> set (h # xs @ v # ys)" for q
  proof -
    have "q \<in> H" using that H(2) by auto
    then show ?thesis by (simp add: fwd_set_fwd [OF H(1) pH _ i i] fwd_set_fwd [OF H(1) vH _ i i])
  qed
  have "linked (\<lambda>q. fwd (set_fwd (set_fwd m v i (fwd m p i)) p i v) q i) h (xs @ v # ys) =
      linked ((\<lambda>q. fwd m q i)(v := fwd m p i, p := v)) h (xs @ v # ys)"
    by (rule linked_cong) (rule same)
  then show "linked (\<lambda>q. fwd (set_fwd (set_fwd m v i (fwd m p i)) p i v) q i) h (xs @ v # ys)"
    using new by (rule iffD2)
  show "fwd (set_fwd m v i (fwd m p i)) v i = (case ys of [] \<Rightarrow> 0 | y # _ \<Rightarrow> y)"
    using fwd_set_fwd [OF H(1) vH vH i i] linked_first [OF linked_suffix [OF link]] by (simp add: p_def)
qed

lemma skip_link_levels:
  assumes H: "headers H" "H = insert h (insert v (set (B @ A)))"
    and dist: "distinct (h # B @ A)" "v \<notin> set (h # B @ A)" "v \<noteq> 0" and l: "l \<le> 6"
  shows "n + i = Suc l \<Longrightarrow> (\<And>j. i \<le> j \<Longrightarrow> j \<le> l \<Longrightarrow> us ! j = pred_of lv h B j) \<Longrightarrow>
    (\<And>x. x \<in> set (B @ A) \<Longrightarrow> size_fits m x) \<Longrightarrow>
    (\<And>j. i \<le> j \<Longrightarrow> j \<le> l \<Longrightarrow> linked (\<lambda>q. fwd m q j) h (level_list lv j (B @ A))) \<Longrightarrow>
    \<exists>m'. skip_link n i us v m = ret m' \<and>
      (\<forall>j. i \<le> j \<and> j \<le> l \<longrightarrow>
         linked (\<lambda>q. fwd m' q j) h (level_list lv j B @ v # level_list lv j A)) \<and>
      (\<forall>q \<in> H. \<forall>j \<le> 6. j < i \<or> l < j \<longrightarrow> fwd m' q j = fwd m q j) \<and>
      same_words (fwd_words H) m m'"
proof (induction n arbitrary: i m)
  case 0
  then show ?case by (intro exI [of _ m]) auto
next
  case (Suc n)
  have i: "i \<le> 6" "i \<le> l" using Suc.prems(1) l by simp_all
  let ?B = "level_list lv i B" and ?A = "level_list lv i A"
  define p where "p = last (h # ?B)"
  define m1 where "m1 = set_fwd m v i (fwd m p i)"
  define m2 where "m2 = set_fwd m1 p i v"
  have us: "us ! i = p" using Suc.prems(2) i(2) by (simp add: p_def pred_of_def)
  have sub: "set (h # v # ?B @ ?A) \<subseteq> H" unfolding H(2) by (auto simp: set_level_list)
  have "p \<in> set (h # ?B)" unfolding p_def by (rule last_in_set) simp
  then have pH: "p \<in> H" and vH: "v \<in> H" using sub by auto
  have d: "distinct (h # ?B @ ?A)" "v \<notin> set (h # ?B @ ?A)"
    using dist by (auto simp: level_list_def)
  have link: "linked (\<lambda>q. fwd m q i) h (?B @ ?A)" using Suc.prems(4) [of i] i(2) by simp
  note lev = link_level [OF H(1) sub i(1) link d dist(3), folded p_def m1_def, folded m2_def]
  have same: "same_words (fwd_words H) m m1" "same_words (fwd_words H) m m2"
  proof -
    show "same_words (fwd_words H) m m1" unfolding m1_def by (rule set_fwd_same_words [OF H(1) vH i(1)])
    moreover have "same_words (fwd_words H) m1 m2"
      unfolding m2_def by (rule set_fwd_same_words [OF H(1) pH i(1)])
    ultimately show "same_words (fwd_words H) m m2" by (rule same_words_trans)
  qed
  have other: "fwd m2 q j = fwd m q j" if "q \<in> H" "j \<le> 6" "j \<noteq> i" for q j
    using that fwd_set_fwd [OF H(1) pH that(1) i(1) that(2)] fwd_set_fwd [OF H(1) vH that(1) i(1) that(2)]
    by (simp add: m2_def m1_def)
  have fits: "size_fits m1 x" if "x \<in> set (B @ A)" for x
    using that Suc.prems(3) same_words_fields(3) [OF same(1) H(1)] H(2) by auto
  have fits2: "size_fits m2 x" if "x \<in> set (B @ A)" for x
    using that Suc.prems(3) same_words_fields(3) [OF same(2) H(1)] H(2) by auto
  have step: "skip_link (Suc n) i us v m = skip_link n (Suc i) us v m2"
  proof (cases ?A)
    case Nil
    then show ?thesis using lev(2) by (simp add: Let_def us flip: m1_def m2_def)
  next
    case (Cons y ys)
    then have "y \<in> set ?A" by simp
    then have "y \<in> set (B @ A)" by (auto simp: set_level_list)
    then show ?thesis using lev(2) fits Cons by (simp add: Let_def us flip: m1_def m2_def)
  qed
  have "\<exists>m'. skip_link n (Suc i) us v m2 = ret m' \<and>
      (\<forall>j. Suc i \<le> j \<and> j \<le> l \<longrightarrow>
         linked (\<lambda>q. fwd m' q j) h (level_list lv j B @ v # level_list lv j A)) \<and>
      (\<forall>q \<in> H. \<forall>j \<le> 6. j < Suc i \<or> l < j \<longrightarrow> fwd m' q j = fwd m2 q j) \<and>
      same_words (fwd_words H) m2 m'"
  proof (rule Suc.IH)
    show "linked (\<lambda>q. fwd m2 q j) h (level_list lv j (B @ A))" if "Suc i \<le> j" "j \<le> l" for j
    proof -
      have "set (h # level_list lv j (B @ A)) \<subseteq> H" unfolding H(2) by (auto simp: set_level_list)
      then have "linked (\<lambda>q. fwd m2 q j) h (level_list lv j (B @ A)) =
          linked (\<lambda>q. fwd m q j) h (level_list lv j (B @ A))"
        using that l other by (intro linked_fwd_cong [OF H(1)]) auto
      then show ?thesis using Suc.prems(4) [of j] that by simp
    qed
  qed (use Suc.prems fits2 in auto)
  then obtain m' where m': "skip_link n (Suc i) us v m2 = ret m'"
    "\<And>j. Suc i \<le> j \<Longrightarrow> j \<le> l \<Longrightarrow> linked (\<lambda>q. fwd m' q j) h (level_list lv j B @ v # level_list lv j A)"
    "\<And>q j. q \<in> H \<Longrightarrow> j \<le> 6 \<Longrightarrow> j < Suc i \<or> l < j \<Longrightarrow> fwd m' q j = fwd m2 q j"
    "same_words (fwd_words H) m2 m'" by blast
  have "linked (\<lambda>q. fwd m' q i) h (?B @ v # ?A)"
  proof -
    have "set (h # ?B @ v # ?A) \<subseteq> H" using sub by auto
    then have "linked (\<lambda>q. fwd m' q i) h (?B @ v # ?A) = linked (\<lambda>q. fwd m2 q i) h (?B @ v # ?A)"
      using m'(3) i(1) by (intro linked_fwd_cong [OF H(1)]) auto
    then show ?thesis using lev(1) by simp
  qed
  then have "linked (\<lambda>q. fwd m' q j) h (level_list lv j B @ v # level_list lv j A)"
    if "i \<le> j" "j \<le> l" for j
    using m'(2) [of j] that by (cases "j = i") auto
  moreover have "fwd m' q j = fwd m q j" if "q \<in> H" "j \<le> 6" "j < i \<or> l < j" for q j
    using m'(3) [of q j] other [of q j] that i(2) by auto
  ultimately show ?case
    using step m'(1) same_words_trans [OF same(2) m'(4)] by (intro exI [of _ m']) auto
qed

definition rng_only :: "'a kheap_scheme \<Rightarrow> 'a kheap_scheme \<Rightarrow> bool" where
  "rng_only s s' \<longleftrightarrow> (\<exists>x y z w. s' = s\<lparr>rng_x := x, rng_y := y, rng_z := z, rng_w := w\<rparr>)"

lemma rng_only_refl: "rng_only s s"
  unfolding rng_only_def
  by (intro exI [of _ "rng_x s"] exI [of _ "rng_y s"] exI [of _ "rng_z s"] exI [of _ "rng_w s"]) simp

lemma rng_only_trans:
  assumes "rng_only s s'" and "rng_only s' s''"
  shows "rng_only s s''"
proof -
  obtain x y z w where "s' = s\<lparr>rng_x := x, rng_y := y, rng_z := z, rng_w := w\<rparr>"
    using assms(1) unfolding rng_only_def by blast
  moreover obtain x' y' z' w' where "s'' = s'\<lparr>rng_x := x', rng_y := y', rng_z := z', rng_w := w'\<rparr>"
    using assms(2) unfolding rng_only_def by blast
  ultimately have "s'' = s\<lparr>rng_x := x', rng_y := y', rng_z := z', rng_w := w'\<rparr>" by simp
  then show ?thesis unfolding rng_only_def by blast
qed

lemma rng_only_fields:
  assumes "rng_only s s'"
  shows "mem s' = mem s" "big_head s' = big_head s" "big_level s' = big_level s"
  using assms by (auto simp: rng_only_def)

lemma skip_rand_rng: "rng_only s (snd (klmalloc_skip_rand s))"
  by (auto simp: rng_only_def klmalloc_skip_rand_def Let_def)

lemma random_level_loop_bound:
  "fst (random_level_loop n l s) \<le> n + l \<and> rng_only s (snd (random_level_loop n l s))"
proof (induction n arbitrary: l s)
  case 0
  then show ?case
    using skip_rand_rng [of s] by (subst (1 2) random_level_loop.simps) (auto split: prod.splits)
next
  case (Suc n)
  obtain r s1 where r: "klmalloc_skip_rand s = (r, s1)" by (cases "klmalloc_skip_rand s")
  then have "rng_only s s1" using skip_rand_rng [of s] by simp
  then show ?case
    using Suc.IH [of "Suc l" s1] r
    by (subst (1 2) random_level_loop.simps) (auto intro: rng_only_trans)
qed

lemma random_level_bound:
  "fst (klmalloc_random_level s) \<le> 6" "rng_only s (snd (klmalloc_random_level s))"
  using random_level_loop_bound [of 6 0 s] by (simp_all add: klmalloc_random_level_def SKIP_MAX_LEVEL_def)

text \<open>What insertion and deletion leave alone in the state.\<close>

definition skip_frame :: "'a kheap_scheme \<Rightarrow> 'a kheap_scheme \<Rightarrow> bool" where
  "skip_frame s s' \<longleftrightarrow> (\<exists>m l x y z w. s' = s\<lparr>mem := m, big_level := l, rng_x := x, rng_y := y,
     rng_z := z, rng_w := w\<rparr>)"

lemma sorted_insert_mid:
  assumes "sorted (map (hdr_size m) ns)"
  shows "sorted (map (hdr_size m) (below m (hdr_size m v) ns @ v # above m (hdr_size m v) ns))"
proof -
  let ?B = "below m (hdr_size m v) ns" and ?A = "above m (hdr_size m v) ns"
  have "sorted (map (hdr_size m) (?B @ ?A))" using assms by simp
  then have "sorted (map (hdr_size m) ?B)" "sorted (map (hdr_size m) ?A)"
    by (simp_all only: map_append sorted_append)
  moreover have "hdr_size m b \<le> hdr_size m v" if "b \<in> set ?B" for b
    using below_small [OF that] by (simp add: order_less_imp_le)
  moreover have "hdr_size m v \<le> hdr_size m a" if "a \<in> set ?A" for a
    using above_large(1) [OF assms that] .
  ultimately show ?thesis by (fastforce simp: sorted_append)
qed

lemma set_insert_mid: "set (below m q ns @ v # above m q ns) = insert v (set ns)"
proof -
  have "set (below m q ns) \<union> set (above m q ns) = set ns" by (simp only: set_append [symmetric] below_above)
  then show ?thesis by auto
qed

lemma distinct_insert_mid:
  "distinct ns \<Longrightarrow> v \<notin> set ns \<Longrightarrow> distinct (below m q ns @ v # above m q ns)"
proof -
  assume "distinct ns" "v \<notin> set ns"
  then have "distinct (below m q ns @ above m q ns)" "v \<notin> set (below m q ns @ above m q ns)" by simp_all
  then show "distinct (below m q ns @ v # above m q ns)" unfolding distinct_append set_append by auto
qed

lemma insert_skip_list:
  assumes inv: "skip_list s ns lv"
    and v: "v \<notin> set ns" "v \<noteq> big_head s" "v \<noteq> 0" "v mod 0x1000 = 0" "size_fits (mem s) v"
      "hdr_size (mem s) v \<noteq> 0" "hdr_head (mem s) v \<noteq> 0"
    and H: "headers (insert (big_head s) (insert v (set ns)))"
  defines "q \<equiv> hdr_size (mem s) v"
  shows "\<exists>s' l. klmalloc_skip_list_insert v s = ret s' \<and> l \<le> 6 \<and>
    skip_list s' (below (mem s) q ns @ v # above (mem s) q ns) (lv(v := l)) \<and>
    same_words (fwd_words (insert (big_head s) (insert v (set ns)))) (mem s) (mem s') \<and> skip_frame s s'"
proof -
  let ?h = "big_head s" and ?B = "below (mem s) q ns" and ?A = "above (mem s) q ns"
  let ?H = "insert ?h (insert v (set ns))"
  have inv': "distinct ns" "0 \<notin> set ns" "?h \<notin> set ns" "big_level s \<le> 6"
    "\<And>n. n \<in> set ns \<Longrightarrow> lv n \<le> big_level s \<and> n mod 0x1000 = 0 \<and> size_fits (mem s) n"
    "sorted (map (hdr_size (mem s)) ns)"
    "\<And>i. i \<le> 6 \<Longrightarrow> linked (\<lambda>p. fwd (mem s) p i) ?h (level_list lv i ns)"
    using inv unfolding skip_list_def by blast+
  note search = skip_list_searchable [OF inv]
  note descend = skip_descend_head [OF search inv'(4), of q]
  have set_ns: "set (?B @ ?A) = set ns" by simp
  have "(case ?A of [] \<Rightarrow> 0 | n # _ \<Rightarrow> n) \<noteq> v"
  proof (cases ?A)
    case (Cons n as)
    then have "n \<in> set ns" using set_ns by (metis Un_iff list.set_intros(1) set_append)
    then show ?thesis using Cons v(1) by auto
  qed (use v(3) in simp)
  then have new: "fwd (mem s) (pred_of lv ?h ?B 0) 0 \<noteq> v" using fwd_pred_0 [OF search, of q] by simp
  obtain l s1 where l: "klmalloc_random_level s = (l, s1)" by (cases "klmalloc_random_level s")
  then have l6: "l \<le> 6" and rng: "rng_only s s1"
    using random_level_bound [of s] by simp_all
  note same1 = rng_only_fields [OF rng]
  define us where "us = map (pred_of lv ?h ?B) [0..<Suc (big_level s)] @ replicate (l - big_level s) ?h"
  define s2 where "s2 = (if l > big_level s1 then s1\<lparr>big_level := l\<rparr> else s1)"
  have s2: "mem s2 = mem s" "big_head s2 = ?h" "big_level s2 = max (big_level s) l"
    using same1 by (auto simp: s2_def)
  have empty: "level_list lv j ns = []" if "big_level s < j" for j
    using that inv'(5) by (force simp: level_list_def filter_empty_conv)
  have us: "us ! j = pred_of lv ?h ?B j" if "j \<le> l" for j
  proof (cases "j \<le> big_level s")
    case True
    then show ?thesis by (simp add: us_def nth_append del: upt_Suc)
  next
    case False
    then have "level_list lv j (?B @ ?A) = []" using empty [of j] by simp
    then have "level_list lv j ?B = []" by (simp only: level_list_simps(3) append_is_Nil_conv)
    then have "pred_of lv ?h ?B j = ?h" by (simp add: pred_of_def)
    then show ?thesis using False that by (simp add: us_def nth_append del: upt_Suc)
  qed
  have "\<exists>m'. skip_link (Suc l) 0 us v (mem s) = ret m' \<and>
      (\<forall>j. 0 \<le> j \<and> j \<le> l \<longrightarrow> linked (\<lambda>q. fwd m' q j) ?h (level_list lv j ?B @ v # level_list lv j ?A)) \<and>
      (\<forall>q \<in> ?H. \<forall>j \<le> 6. j < 0 \<or> l < j \<longrightarrow> fwd m' q j = fwd (mem s) q j) \<and>
      same_words (fwd_words ?H) (mem s) m'"
  proof (rule skip_link_levels [OF H])
    show "distinct (?h # ?B @ ?A)" using inv'(1,3) by simp
    show "v \<notin> set (?h # ?B @ ?A)" using v(1,2) by simp
    show "size_fits (mem s) x" if "x \<in> set (?B @ ?A)" for x
      using that inv'(5) [of x] unfolding set_ns by blast
    show "linked (\<lambda>q. fwd (mem s) q j) ?h (level_list lv j (?B @ ?A))" if "j \<le> l" for j
      using inv'(7) [of j] that l6 by (simp del: level_list_simps(3))
    show "?H = insert ?h (insert v (set (?B @ ?A)))" by (simp only: set_ns)
    show "v \<noteq> 0" "l \<le> 6" by (fact v(3) l6)+
    show "us ! j = pred_of lv ?h ?B j" if "j \<le> l" for j using us [OF that] .
  qed simp
  then obtain m' where m0: "skip_link (Suc l) 0 us v (mem s) = ret m'"
    "\<forall>j. 0 \<le> j \<and> j \<le> l \<longrightarrow> linked (\<lambda>q. fwd m' q j) ?h (level_list lv j ?B @ v # level_list lv j ?A)"
    "\<forall>q \<in> ?H. \<forall>j \<le> 6. j < 0 \<or> l < j \<longrightarrow> fwd m' q j = fwd (mem s) q j"
    "same_words (fwd_words ?H) (mem s) m'" by (elim exE conjE) (rule that)
  have "linked (\<lambda>q. fwd m' q j) ?h (level_list lv j ?B @ v # level_list lv j ?A)" if "j \<le> l" for j
    using m0(2) that by simp
  moreover have "fwd m' p j = fwd (mem s) p j" if "p \<in> ?H" "j \<le> 6" "l < j" for p j
    using that by (intro m0(3) [rule_format]) simp_all
  ultimately have m': "skip_link (Suc l) 0 us v (mem s) = ret m'"
    "\<And>j. j \<le> l \<Longrightarrow> linked (\<lambda>q. fwd m' q j) ?h (level_list lv j ?B @ v # level_list lv j ?A)"
    "\<And>p j. p \<in> ?H \<Longrightarrow> j \<le> 6 \<Longrightarrow> l < j \<Longrightarrow> fwd m' p j = fwd (mem s) p j"
    "same_words (fwd_words ?H) (mem s) m'" using m0(1,4) by blast+
  define s' where "s' = s2\<lparr>mem := m'\<rparr>"
  have "klmalloc_skip_list_insert v s = ret s'"
    using v descend new l m'(1) same1
    by (cases "big_level s < l")
      (simp_all add: klmalloc_skip_list_insert_def q_def us_def s2_def s'_def del: upt_Suc skip_link.simps)
  moreover have "skip_list s' (?B @ v # ?A) (lv(v := l))"
    unfolding skip_list_def
  proof (intro conjI ballI allI impI)
    have fields: "big_head s' = ?h" "big_level s' = max (big_level s) l" "mem s' = m'"
      using s2 by (simp_all add: s'_def)
    note kept = same_words_fields [OF m'(4) H]
    show "distinct (?B @ v # ?A)" using inv'(1) v(1) by (rule distinct_insert_mid)
    show "0 \<notin> set (?B @ v # ?A)" "big_head s' \<notin> set (?B @ v # ?A)"
      unfolding set_insert_mid using inv'(2,3) v(2,3) fields(1) by auto
    show "headers (insert (big_head s') (set (?B @ v # ?A)))"
      unfolding set_insert_mid using H fields(1) by simp
    show "big_level s' \<le> 6" using inv'(4) l6 fields(2) by simp
    fix n assume n: "n \<in> set (?B @ v # ?A)"
    then have nv: "n \<in> insert v (set ns)" unfolding set_insert_mid .
    then have nH: "n \<in> ?H" by blast
    show "n mod 0x1000 = 0" using nv inv'(5) [of n] v(4) by blast
    show "(lv(v := l)) n \<le> big_level s'" "size_fits (mem s') n"
      using nv inv'(5) [of n] v(1,4,5) kept(3) [OF nH] fields by (auto simp: le_max_iff_disj)
  next
    have fields: "mem s' = m'" by (simp add: s'_def)
    have "map (hdr_size m') (?B @ v # ?A) = map (hdr_size (mem s)) (?B @ v # ?A)"
      by (rule map_cong [OF refl]) (use same_words_fields(1) [OF m'(4) H] set_insert_mid in blast)
    then show "sorted (map (hdr_size (mem s')) (?B @ v # ?A))"
      unfolding fields using sorted_insert_mid [OF inv'(6), of v] unfolding q_def by (rule ssubst)
  next
    fix j :: nat assume j: "j \<le> 6"
    have cong: "level_list (lv(v := l)) j ?B = level_list lv j ?B" "level_list (lv(v := l)) j ?A = level_list lv j ?A"
      using v(1) below_small above_large(2) [OF inv'(6)] by (intro level_list_cong; fastforce)+
    have "linked (\<lambda>q. fwd m' q j) ?h (level_list (lv(v := l)) j (?B @ v # ?A))"
    proof (cases "j \<le> l")
      case True
      then show ?thesis using m'(2) [OF True] cong by simp
    next
      case False
      have "linked (\<lambda>q. fwd m' q j) ?h (level_list lv j ns) = linked (\<lambda>q. fwd (mem s) q j) ?h (level_list lv j ns)"
      proof (rule linked_fwd_cong [OF H])
        show "set (?h # level_list lv j ns) \<subseteq> ?H" by (auto simp: set_level_list)
      qed (use m'(3) j False in auto)
      moreover have "level_list lv j ns = level_list lv j ?B @ level_list lv j ?A"
        by (simp flip: level_list_simps(3))
      ultimately show ?thesis using False inv'(7) [OF j] cong by simp
    qed
    then show "linked (\<lambda>p. fwd (mem s') p j) (big_head s') (level_list (lv(v := l)) j (?B @ v # ?A))"
      using s2 by (simp add: s'_def)
  qed
  moreover have "skip_frame s s'"
  proof -
    obtain x y z w where "s1 = s\<lparr>rng_x := x, rng_y := y, rng_z := z, rng_w := w\<rparr>"
      using rng unfolding rng_only_def by blast
    then have "s' = s\<lparr>mem := m', big_level := max (big_level s) l, rng_x := x, rng_y := y, rng_z := z, rng_w := w\<rparr>"
      by (simp add: s'_def s2_def)
    then show ?thesis unfolding skip_frame_def by blast
  qed
  ultimately show ?thesis using m'(4) l6 by (auto simp: s'_def)
qed

section \<open>Deleting\<close>

lemma unlink_level:
  assumes H: "headers H" "set (h # xs @ v # ys) \<subseteq> H" and i: "i \<le> 6"
    and link: "linked (\<lambda>q. fwd m q i) h (xs @ v # ys)" and dist: "distinct (h # xs @ v # ys)"
  defines "p \<equiv> last (h # xs)"
  shows "linked (\<lambda>q. fwd (set_fwd m p i (fwd m v i)) q i) h (xs @ ys)"
    and "fwd (set_fwd m p i (fwd m v i)) p i = (case ys of [] \<Rightarrow> 0 | y # _ \<Rightarrow> y)"
    and "fwd m p i = v"
proof -
  have "p \<in> set (h # xs)" unfolding p_def by (rule last_in_set) simp
  then have pH: "p \<in> H" using H(2) by auto
  have new: "linked ((\<lambda>q. fwd m q i)(p := fwd m v i)) h (xs @ ys)"
    using linked_remove [OF link dist] unfolding p_def .
  have same: "fwd (set_fwd m p i (fwd m v i)) q i = ((\<lambda>q. fwd m q i)(p := fwd m v i)) q"
    if "q \<in> set (h # xs @ ys)" for q
  proof -
    have "q \<in> H" using that H(2) by auto
    then show ?thesis by (simp add: fwd_set_fwd [OF H(1) pH _ i i])
  qed
  have "linked (\<lambda>q. fwd (set_fwd m p i (fwd m v i)) q i) h (xs @ ys) =
      linked ((\<lambda>q. fwd m q i)(p := fwd m v i)) h (xs @ ys)"
    by (rule linked_cong) (rule same)
  then show "linked (\<lambda>q. fwd (set_fwd m p i (fwd m v i)) q i) h (xs @ ys)"
    using new by (rule iffD2)
  have after: "linked (\<lambda>q. fwd m q i) p (v # ys)" using linked_suffix [OF link] unfolding p_def .
  then show "fwd m p i = v" by simp
  have "linked (\<lambda>q. fwd m q i) v ys" using after by simp
  then show "fwd (set_fwd m p i (fwd m v i)) p i = (case ys of [] \<Rightarrow> 0 | y # _ \<Rightarrow> y)"
    using fwd_set_fwd [OF H(1) pH pH i i] linked_first by simp
qed

lemma skip_unlink_stop:
  assumes "linked (\<lambda>q. fwd m q i) h (xs @ ys)" and "v \<notin> set ys" and "v \<noteq> 0"
    and "us ! i = last (h # xs)"
  shows "skip_unlink n i us v m = ret m"
proof -
  have "fwd m (last (h # xs)) i = (case ys of [] \<Rightarrow> 0 | y # _ \<Rightarrow> y)"
    by (rule linked_first [OF linked_suffix [OF assms(1)]])
  then have "fwd m (us ! i) i \<noteq> v" using assms(2-4) by (auto split: list.splits)
  then show ?thesis by (cases n) simp_all
qed

lemma skip_unlink_levels:
  assumes H: "headers H" "H = insert h (set (B @ v # A))"
    and dist: "distinct (h # B @ v # A)" "v \<noteq> 0" and l: "lv v \<le> l" "l \<le> 6"
  shows "n + i = Suc l \<Longrightarrow> (\<And>j. i \<le> j \<Longrightarrow> j \<le> l \<Longrightarrow> us ! j = pred_of lv h B j) \<Longrightarrow>
    (\<And>x. x \<in> set A \<Longrightarrow> size_fits m x \<and> x mod 0x1000 = 0) \<Longrightarrow>
    (\<And>j. i \<le> j \<Longrightarrow> j \<le> l \<Longrightarrow> linked (\<lambda>q. fwd m q j) h (level_list lv j (B @ v # A))) \<Longrightarrow>
    \<exists>m'. skip_unlink n i us v m = ret m' \<and>
      (\<forall>j. i \<le> j \<and> j \<le> lv v \<longrightarrow> linked (\<lambda>q. fwd m' q j) h (level_list lv j B @ level_list lv j A)) \<and>
      (\<forall>q \<in> H. \<forall>j \<le> 6. j < i \<or> lv v < j \<longrightarrow> fwd m' q j = fwd m q j) \<and>
      same_words (fwd_words H) m m'"
proof (induction n arbitrary: i m)
  case 0
  then show ?case using l(1) by (intro exI [of _ m]) auto
next
  case (Suc n)
  have i: "i \<le> 6" "i \<le> l" using Suc.prems(1) l by simp_all
  let ?B = "level_list lv i B" and ?A = "level_list lv i A"
  define p where "p = last (h # ?B)"
  have us: "us ! i = p" using Suc.prems(2) i(2) by (simp add: p_def pred_of_def)
  show ?case
  proof (cases "i \<le> lv v")
    case False
    have "linked (\<lambda>q. fwd m q i) h (?B @ ?A)" using Suc.prems(4) [of i] i(2) False by simp
    moreover have "v \<notin> set ?A" using dist(1) by (simp add: set_level_list)
    ultimately have "skip_unlink (Suc n) i us v m = ret m"
      using skip_unlink_stop dist(2) us unfolding p_def by blast
    then show ?thesis using False by (intro exI [of _ m]) auto
  next
    case True
    define m1 where "m1 = set_fwd m p i (fwd m v i)"
    have sub: "set (h # ?B @ v # ?A) \<subseteq> H" unfolding H(2) by (auto simp: set_level_list)
    have "p \<in> set (h # ?B)" unfolding p_def by (rule last_in_set) simp
    then have pH: "p \<in> H" using sub by auto
    have d: "distinct (h # ?B @ v # ?A)" using dist by (auto simp: level_list_def)
    have link: "linked (\<lambda>q. fwd m q i) h (?B @ v # ?A)" using Suc.prems(4) [of i] i(2) True by simp
    note lev = unlink_level [OF H(1) sub i(1) link d, folded p_def, folded m1_def]
    have same: "same_words (fwd_words H) m m1" unfolding m1_def by (rule set_fwd_same_words [OF H(1) pH i(1)])
    have other: "fwd m1 q j = fwd m q j" if "q \<in> H" "j \<le> 6" "j \<noteq> i" for q j
      using that fwd_set_fwd [OF H(1) pH that(1) i(1) that(2)] by (simp add: m1_def)
    have fits: "size_fits m1 x \<and> x mod 0x1000 = 0" if "x \<in> set A" for x
      using that Suc.prems(3) same_words_fields(3) [OF same H(1)] H(2) by auto
    have step: "skip_unlink (Suc n) i us v m = skip_unlink n (Suc i) us v m1"
    proof (cases ?A)
      case Nil
      then show ?thesis using lev(2,3) by (simp add: Let_def us flip: m1_def)
    next
      case (Cons y ys)
      then have "y \<in> set ?A" by simp
      then have "y \<in> set A" by (auto simp: set_level_list)
      then show ?thesis using lev(2,3) fits Cons by (simp add: Let_def us flip: m1_def)
    qed
    have "\<exists>m'. skip_unlink n (Suc i) us v m1 = ret m' \<and>
        (\<forall>j. Suc i \<le> j \<and> j \<le> lv v \<longrightarrow> linked (\<lambda>q. fwd m' q j) h (level_list lv j B @ level_list lv j A)) \<and>
        (\<forall>q \<in> H. \<forall>j \<le> 6. j < Suc i \<or> lv v < j \<longrightarrow> fwd m' q j = fwd m1 q j) \<and>
        same_words (fwd_words H) m1 m'"
    proof (rule Suc.IH)
      show "linked (\<lambda>q. fwd m1 q j) h (level_list lv j (B @ v # A))" if "Suc i \<le> j" "j \<le> l" for j
      proof -
        have "set (h # level_list lv j (B @ v # A)) \<subseteq> H" unfolding H(2) by (auto simp: set_level_list)
        then have "linked (\<lambda>q. fwd m1 q j) h (level_list lv j (B @ v # A)) =
            linked (\<lambda>q. fwd m q j) h (level_list lv j (B @ v # A))"
          using that l other by (intro linked_fwd_cong [OF H(1)]) auto
        then show ?thesis using Suc.prems(4) [of j] that by simp
      qed
    qed (use Suc.prems fits in auto)
    then obtain m' where m': "skip_unlink n (Suc i) us v m1 = ret m'"
      "\<And>j. Suc i \<le> j \<Longrightarrow> j \<le> lv v \<Longrightarrow> linked (\<lambda>q. fwd m' q j) h (level_list lv j B @ level_list lv j A)"
      "\<And>q j. q \<in> H \<Longrightarrow> j \<le> 6 \<Longrightarrow> j < Suc i \<or> lv v < j \<Longrightarrow> fwd m' q j = fwd m1 q j"
      "same_words (fwd_words H) m1 m'" by blast
    have "set (h # ?B @ ?A) \<subseteq> H" using sub by auto
    then have "linked (\<lambda>q. fwd m' q i) h (?B @ ?A) = linked (\<lambda>q. fwd m1 q i) h (?B @ ?A)"
      using m'(3) i(1) by (intro linked_fwd_cong [OF H(1)]) auto
    then have "linked (\<lambda>q. fwd m' q j) h (level_list lv j B @ level_list lv j A)"
      if "i \<le> j" "j \<le> lv v" for j
      using m'(2) [of j] lev(1) that by (cases "j = i") auto
    moreover have "fwd m' q j = fwd m q j" if "q \<in> H" "j \<le> 6" "j < i \<or> lv v < j" for q j
      using m'(3) [of q j] other [of q j] that True by auto
    ultimately show ?thesis
      using step m'(1) same_words_trans [OF same m'(4)] by (intro exI [of _ m']) auto
  qed
qed

lemma skip_shrink_le: "skip_shrink l h m \<le> l"
  by (induction l) auto

lemma skip_shrink_empty: "skip_shrink l h m < j \<Longrightarrow> j \<le> l \<Longrightarrow> fwd m h j = 0"
  by (induction l) (auto split: if_splits simp: le_Suc_eq)

lemma skip_seek_found: "skip_seek v v m = ret v"
  by (subst skip_seek.simps) simp

lemma delete_skip_list:
  assumes inv: "skip_list s ns lv" and first: "above (mem s) (hdr_size (mem s) v) ns = v # A"
    and head: "hdr_head (mem s) v \<noteq> 0"
  defines "B \<equiv> below (mem s) (hdr_size (mem s) v) ns"
  shows "\<exists>s'. klmalloc_skip_list_delete v s = ret s' \<and> skip_list s' (B @ A) lv \<and>
    same_words (fwd_words (insert (big_head s) (set ns))) (mem s) (mem s') \<and> skip_frame s s'"
proof -
  let ?h = "big_head s" and ?l = "big_level s"
  let ?H = "insert ?h (set ns)"
  have ns: "ns = B @ v # A" using below_above [of "mem s" "hdr_size (mem s) v" ns] first by (simp add: B_def)
  have inv': "distinct ns" "0 \<notin> set ns" "?h \<notin> set ns" "?l \<le> 6" "headers ?H"
    "\<And>n. n \<in> set ns \<Longrightarrow> lv n \<le> ?l \<and> n mod 0x1000 = 0 \<and> size_fits (mem s) n"
    "sorted (map (hdr_size (mem s)) ns)"
    "\<And>i. i \<le> 6 \<Longrightarrow> linked (\<lambda>p. fwd (mem s) p i) ?h (level_list lv i ns)"
    using inv unfolding skip_list_def by blast+
  note search = skip_list_searchable [OF inv]
  note descend = skip_descend_head [OF search inv'(4), of "hdr_size (mem s) v", folded B_def]
  define us where "us = map (pred_of lv ?h B) [0..<Suc ?l]"
  have v0: "v \<noteq> 0" using inv'(2) unfolding ns by auto
  have at: "fwd (mem s) (pred_of lv ?h B 0) 0 = v"
    using fwd_pred_0 [OF search, of "hdr_size (mem s) v"] first by (simp add: B_def)
  have "\<exists>m'. skip_unlink (Suc ?l) 0 us v (mem s) = ret m' \<and>
      (\<forall>j. 0 \<le> j \<and> j \<le> lv v \<longrightarrow> linked (\<lambda>q. fwd m' q j) ?h (level_list lv j B @ level_list lv j A)) \<and>
      (\<forall>q \<in> ?H. \<forall>j \<le> 6. j < 0 \<or> lv v < j \<longrightarrow> fwd m' q j = fwd (mem s) q j) \<and>
      same_words (fwd_words ?H) (mem s) m'"
  proof (rule skip_unlink_levels [OF inv'(5)])
    show "?H = insert ?h (set (B @ v # A))" by (simp only: ns)
    show "distinct (?h # B @ v # A)" using inv'(1,3) unfolding ns by simp
    show "lv v \<le> ?l" using inv'(6) unfolding ns by simp
    show "us ! j = pred_of lv ?h B j" if "j \<le> ?l" for j using that by (simp add: us_def del: upt_Suc)
    show "size_fits (mem s) x \<and> x mod 0x1000 = 0" if "x \<in> set A" for x
      using inv'(6) [of x] that unfolding ns by simp
    show "linked (\<lambda>q. fwd (mem s) q j) ?h (level_list lv j (B @ v # A))" if "j \<le> ?l" for j
      using inv'(8) [of j] that inv'(4) unfolding ns by linarith
  qed (use v0 inv'(4) in simp_all)
  then obtain m' where m0: "skip_unlink (Suc ?l) 0 us v (mem s) = ret m'"
    "\<forall>j. 0 \<le> j \<and> j \<le> lv v \<longrightarrow> linked (\<lambda>q. fwd m' q j) ?h (level_list lv j B @ level_list lv j A)"
    "\<forall>q \<in> ?H. \<forall>j \<le> 6. j < 0 \<or> lv v < j \<longrightarrow> fwd m' q j = fwd (mem s) q j"
    "same_words (fwd_words ?H) (mem s) m'" by (elim exE conjE) (rule that)
  have kept: "fwd m' p j = fwd (mem s) p j" if "p \<in> ?H" "j \<le> 6" "lv v < j" for p j
    using that by (intro m0(3) [rule_format]) simp_all
  define s' where "s' = s\<lparr>mem := m', big_level := skip_shrink ?l ?h m'\<rparr>"
  have fields: "mem s' = m'" "big_head s' = ?h" "big_level s' = skip_shrink ?l ?h m'"
    by (simp_all add: s'_def)
  have "klmalloc_skip_list_delete v s = ret s'"
    using v0 head descend at m0(1)
    by (simp add: klmalloc_skip_list_delete_def us_def s'_def skip_seek_found
        del: upt_Suc skip_unlink.simps skip_descend.simps)
  moreover have links: "linked (\<lambda>p. fwd m' p j) ?h (level_list lv j (B @ A))" if j: "j \<le> 6" for j
  proof (cases "j \<le> lv v")
    case True
    then show ?thesis using m0(2) by simp
  next
    case False
    have "linked (\<lambda>q. fwd m' q j) ?h (level_list lv j ns) = linked (\<lambda>q. fwd (mem s) q j) ?h (level_list lv j ns)"
    proof (rule linked_fwd_cong [OF inv'(5)])
      show "set (?h # level_list lv j ns) \<subseteq> ?H" by (auto simp: set_level_list)
    qed (use kept j False in auto)
    moreover have "level_list lv j ns = level_list lv j (B @ A)" using False unfolding ns by simp
    ultimately show ?thesis using inv'(8) [OF j] by simp
  qed
  moreover have "skip_list s' (B @ A) lv"
    unfolding skip_list_def fields
  proof (intro conjI ballI allI impI)
    have sub: "set (B @ A) \<subseteq> set ns" unfolding ns by auto
    show "distinct (B @ A)" using inv'(1) unfolding ns by simp
    show "0 \<notin> set (B @ A)" "?h \<notin> set (B @ A)" using inv'(2,3) sub by blast+
    show "headers (insert ?h (set (B @ A)))" using inv'(5) sub by (blast intro: headers_mono)
    show "skip_shrink ?l ?h m' \<le> 6" using skip_shrink_le [of ?l ?h m'] inv'(4) by linarith
    fix n assume n: "n \<in> set (B @ A)"
    then have nn: "n \<in> set ns" using sub by blast
    then show "n mod 0x1000 = 0" using inv'(6) by blast
    show "size_fits m' n" using same_words_fields(3) [OF m0(4) inv'(5)] nn inv'(6) by blast
    show "lv n \<le> skip_shrink ?l ?h m'"
    proof (rule ccontr)
      assume "\<not> lv n \<le> skip_shrink ?l ?h m'"
      then have "fwd m' ?h (lv n) = 0" using inv'(6) [OF nn] by (intro skip_shrink_empty [of ?l]) simp_all
      moreover have "linked (\<lambda>p. fwd m' p (lv n)) ?h (level_list lv (lv n) (B @ A))"
        using inv'(4) inv'(6) [OF nn] by (intro links) simp
      ultimately have "level_list lv (lv n) (B @ A) = []"
        by (cases "level_list lv (lv n) (B @ A)") auto
      moreover have "n \<in> set (level_list lv (lv n) (B @ A))" unfolding set_level_list using n by blast
      ultimately show False by simp
    qed
  next
    have "map (hdr_size m') (B @ A) = map (hdr_size (mem s)) (B @ A)"
      using same_words_fields(1) [OF m0(4) inv'(5)] unfolding ns by simp
    moreover have "sorted (map (hdr_size (mem s)) (B @ A))" using inv'(7) unfolding ns
      by (simp add: sorted_append)
    ultimately show "sorted (map (hdr_size m') (B @ A))" by (simp only:)
  qed (rule links)
  moreover have "skip_frame s s'"
  proof -
    have "s' = s\<lparr>mem := m', big_level := skip_shrink ?l ?h m', rng_x := rng_x s, rng_y := rng_y s,
      rng_z := rng_z s, rng_w := rng_w s\<rparr>" by (simp add: s'_def)
    then show ?thesis unfolding skip_frame_def by blast
  qed
  ultimately show ?thesis using m0(4) fields(1) by blast
qed

lemma seek_linked:
  "linked (\<lambda>q. fwd m q 0) p (xs @ v # ys) \<Longrightarrow> v \<notin> set xs \<Longrightarrow> skip_seek v (fwd m p 0) m = ret v"
proof (induction xs arbitrary: p)
  case Nil
  then show ?case by (simp add: skip_seek_found)
next
  case (Cons x xs)
  then have "fwd m p 0 = x" "x \<noteq> v" "skip_seek v (fwd m x 0) m = ret v" by auto
  then show ?case by (subst skip_seek.simps) simp
qed

lemma delete_not_first:
  assumes inv: "skip_list s ns lv" and above: "above (mem s) (hdr_size (mem s) v) ns = u # A"
    and v: "v \<in> set A" "hdr_head (mem s) v \<noteq> 0"
  shows "klmalloc_skip_list_delete v s =
    ret (s\<lparr>big_level := skip_shrink (big_level s) (big_head s) (mem s)\<rparr>)"
proof -
  let ?B = "below (mem s) (hdr_size (mem s) v) ns" and ?h = "big_head s"
  have ns: "ns = ?B @ u # A" using below_above [of "mem s" "hdr_size (mem s) v" ns] above by simp
  have inv': "distinct ns" "0 \<notin> set ns" "big_level s \<le> 6" using inv by (simp_all add: skip_list_def)
  note search = skip_list_searchable [OF inv]
  have "distinct (?B @ u # A)" using inv'(1) ns by simp
  then have vu: "v \<noteq> u" using v(1) by auto
  have "v \<in> set ns" using v(1) by (subst ns) simp
  then have v0: "v \<noteq> 0" using inv'(2) by auto
  note descend = skip_descend_head [OF search inv'(3), of "hdr_size (mem s) v"]
  have at: "fwd (mem s) (pred_of lv ?h ?B 0) 0 = u"
    using fwd_pred_0 [OF search, of "hdr_size (mem s) v"] above by simp
  have "linked (\<lambda>q. fwd (mem s) q 0) ?h (level_list lv 0 ns)" using inv unfolding skip_list_def by blast
  then have "linked (\<lambda>q. fwd (mem s) q 0) ?h (?B @ u # A)" using ns by simp
  then have after: "linked (\<lambda>q. fwd (mem s) q 0) (pred_of lv ?h ?B 0) (u # A)"
    unfolding pred_of_def level_list_simps(2) by (rule linked_suffix)
  obtain xs ys where A: "A = xs @ v # ys" "v \<notin> set xs" using split_list_first [OF v(1)] by blast
  have "skip_seek v (fwd (mem s) (pred_of lv ?h ?B 0) 0) (mem s) = ret v"
    by (rule seek_linked [of _ _ "u # xs" v ys]) (use after A vu in auto)
  moreover have "skip_unlink (Suc (big_level s)) 0 (map (pred_of lv ?h ?B) [0..<Suc (big_level s)]) v (mem s) =
      ret (mem s)"
    using at vu by (simp del: upt_Suc)
  ultimately show ?thesis
    using v0 v(2) descend
    by (simp add: klmalloc_skip_list_delete_def del: upt_Suc skip_unlink.simps skip_descend.simps)
qed

section \<open>Properties of the skip list\<close>

lemma hdr_apart_far:
  assumes "unat p + 44 \<le> 2 ^ 32" and "unat q + 44 \<le> 2 ^ 32"
    and "unat p + 44 \<le> unat q \<or> unat q + 44 \<le> unat p"
  shows "hdr_apart p q"
  unfolding hdr_apart_def
proof (intro allI impI)
  fix j k :: nat assume jk: "j < 11" "k < 11"
  have "unat (p + of_nat (4 * j)) = unat p + 4 * j" "unat (q + of_nat (4 * k)) = unat q + 4 * k"
    using assms(1,2) jk by (intro unat_add_small; linarith)+
  then have "unat (p + of_nat (4 * j)) \<noteq> unat (q + of_nat (4 * k))" using assms(3) jk by linarith
  then show "p + 4 * of_nat j \<noteq> q + 4 * of_nat k" by auto
qed

text \<open>
  An example: free blocks of 4052, 4052 and 8148 bytes at 0x10000, 0x20000 and 0x40000, all of
  level 0, and a block of 8148 bytes at 0x30000 that is not in the list.
\<close>

definition demo_blocks :: mem where
  "demo_blocks = fold (\<lambda>(a, v) m. st32 m a v)
     [(0x510, 0x10000), (0x10004, 0x1002C), (0x10008, 4052), (0x10010, 0x20000),
      (0x20004, 0x2002C), (0x20008, 4052), (0x20010, 0x40000),
      (0x30004, 0x3002C), (0x30008, 8148), (0x40004, 0x4002C), (0x40008, 8148)]
     (mem demo_kmm)"

definition demo_heap :: kheap where
  "demo_heap = kmm.extend (demo_kmm\<lparr>mem := demo_blocks\<rparr>)
     (kheap.fields (replicate 10 0) 0x500 0 0 123456789 362436069 521288629 88675123)"

lemma demo_heap_fields:
  "mem demo_heap = demo_blocks" "big_head demo_heap = 0x500" "big_level demo_heap = 0"
  by (simp_all add: demo_heap_def kmm.defs kheap.defs demo_kmm_def)

lemma demo_blocks_words:
  assumes "al4 p"
  shows "ld32 demo_blocks p =
     (if p = 0x510 then 0x10000 else if p = 0x10004 then 0x1002C else if p = 0x10008 then 4052
      else if p = 0x10010 then 0x20000 else if p = 0x20004 then 0x2002C else if p = 0x20008 then 4052
      else if p = 0x20010 then 0x40000 else if p = 0x30004 then 0x3002C else if p = 0x30008 then 8148
      else if p = 0x40004 then 0x4002C else if p = 0x40008 then 8148
      else if p = 0x2000 then 0x8000 else 0)"
  using assms unfolding demo_blocks_def
  by (simp add: ld32_st32_aligned demo_ld32 al4_def)

lemma demo_skip_list: "skip_list demo_heap [0x10000, 0x20000, 0x40000] (\<lambda>_. 0)"
  unfolding skip_list_def demo_heap_fields
proof (intro conjI allI impI)
  show "headers (insert 0x500 (set [0x10000, 0x20000, 0x40000]))"
    unfolding headers_def
    by (auto simp: al4_def intro!: hdr_apart_far)
  show "sorted (map (hdr_size demo_blocks) [0x10000, 0x20000, 0x40000])"
    by (simp add: hdr_size_def demo_blocks_words al4_def)
  show "\<forall>n \<in> set [0x10000, 0x20000, 0x40000]. 0 \<le> (0::nat) \<and> n mod 0x1000 = 0 \<and> size_fits demo_blocks n"
    by (simp add: size_fits_def hdr_size_def demo_blocks_words al4_def)
  fix i :: nat assume i: "i \<le> 6"
  then have "i = 0 \<or> i = 1 \<or> i = 2 \<or> i = 3 \<or> i = 4 \<or> i = 5 \<or> i = 6" by linarith
  then show "linked (\<lambda>p. fwd demo_blocks p i) 0x500 (level_list (\<lambda>_. 0) i [0x10000, 0x20000, 0x40000])"
    by (elim disjE) (simp_all add: fwd_def demo_blocks_words al4_def)
qed simp_all

text \<open>C21: \<^verbatim>\<open>klmalloc_skip_list_findbest\<close> returns, and returns the best fit: a null pointer only when
  every free big block is smaller than the request, and otherwise a free block that is large
  enough and no larger than any other that is.\<close>

theorem findbest_best_fit:
  assumes "skip_list s ns lv"
  shows "\<exists>n. klmalloc_skip_list_findbest q s = ret n \<and>
    (if n = 0 then \<forall>k \<in> set ns. hdr_size (mem s) k < q
     else n \<in> set ns \<and> q \<le> hdr_size (mem s) n \<and>
       (\<forall>k \<in> set ns. q \<le> hdr_size (mem s) k \<longrightarrow> hdr_size (mem s) n \<le> hdr_size (mem s) k))"
proof -
  obtain n where n: "klmalloc_skip_list_findbest q s = ret n" using findbest_above [OF assms] by blast
  then show ?thesis using findbest_none [OF assms] findbest_minimal [OF assms n] by auto
qed

theorem findbest_best_fit_witness:
  "\<exists>n. klmalloc_skip_list_findbest 5000 demo_heap = ret n \<and> n = 0x40000"
  using findbest_best_fit [OF demo_skip_list, of 5000]
  by (auto simp: demo_heap_fields hdr_size_def demo_blocks_words al4_def split: if_splits)

text \<open>C22: \<^verbatim>\<open>klmalloc_skip_list_insert\<close> of a page-aligned block with a valid size that is not in the list
  passes all its assertions and returns: the list then holds the block too, in front of the
  first one that is not smaller, on all the levels up to a random one of at most 6, and is
  again ordered and properly linked; of the memory only forward pointers have changed.\<close>

theorem skip_insert_ordered:
  assumes "skip_list s ns lv" and "v \<notin> set ns" and "v \<noteq> big_head s" and "v \<noteq> 0"
    and "v mod 0x1000 = 0" and "size_fits (mem s) v" and "hdr_size (mem s) v \<noteq> 0"
    and "hdr_head (mem s) v \<noteq> 0" and "headers (insert (big_head s) (insert v (set ns)))"
  shows "\<exists>s' l. klmalloc_skip_list_insert v s = ret s' \<and> l \<le> 6 \<and>
    skip_list s' (below (mem s) (hdr_size (mem s) v) ns @ v # above (mem s) (hdr_size (mem s) v) ns) (lv(v := l)) \<and>
    same_words (fwd_words (insert (big_head s) (insert v (set ns)))) (mem s) (mem s')"
  using insert_skip_list [OF assms] by blast

lemma demo_headers: "headers (insert 0x500 (insert 0x30000 (set [0x10000, 0x20000, 0x40000])))"
  unfolding headers_def by (auto simp: al4_def intro!: hdr_apart_far)

theorem skip_insert_ordered_witness:
  "\<exists>s' l. klmalloc_skip_list_insert 0x30000 demo_heap = ret s' \<and> l \<le> 6 \<and>
    skip_list s' [0x10000, 0x20000, 0x30000, 0x40000] ((\<lambda>_. 0)(0x30000 := l))"
proof -
  have fits: "size_fits (mem demo_heap) 0x30000" "hdr_size (mem demo_heap) 0x30000 = 8148"
    "hdr_head (mem demo_heap) 0x30000 = 0x3002C"
    by (simp_all add: demo_heap_fields size_fits_def hdr_size_def hdr_head_def demo_blocks_words al4_def)
  have split: "below (mem demo_heap) 8148 [0x10000, 0x20000, 0x40000] = [0x10000, 0x20000]"
    "above (mem demo_heap) 8148 [0x10000, 0x20000, 0x40000] = [0x40000]"
    by (simp_all add: below_def above_def demo_heap_fields hdr_size_def demo_blocks_words al4_def)
  have "headers (insert (big_head demo_heap) (insert 0x30000 (set [0x10000, 0x20000, 0x40000])))"
    unfolding demo_heap_fields by (rule demo_headers)
  then show ?thesis
    using skip_insert_ordered [OF demo_skip_list, where v = "0x30000"] fits
    unfolding split fits by (auto simp: demo_heap_fields split)
qed

text \<open>C23: \<^verbatim>\<open>klmalloc_skip_list_delete\<close> of the first block of its size, such as the one
  \<^verbatim>\<open>klmalloc_skip_list_findbest\<close> returns, returns and removes exactly this block from every level;
  the rest of the list stays ordered and properly linked, and only forward pointers change.\<close>

theorem skip_delete_removes:
  assumes "skip_list s ns lv" and "above (mem s) (hdr_size (mem s) v) ns = v # vs"
    and "hdr_head (mem s) v \<noteq> 0"
  shows "\<exists>s'. klmalloc_skip_list_delete v s = ret s' \<and>
    skip_list s' (below (mem s) (hdr_size (mem s) v) ns @ vs) lv \<and>
    same_words (fwd_words (insert (big_head s) (set ns))) (mem s) (mem s')"
  using delete_skip_list [OF assms] by blast

theorem skip_delete_removes_witness:
  "\<exists>s'. klmalloc_skip_list_delete 0x10000 demo_heap = ret s' \<and>
    skip_list s' [0x20000, 0x40000] (\<lambda>_. 0)"
proof -
  have sz: "hdr_size (mem demo_heap) 0x10000 = 4052" "hdr_head (mem demo_heap) 0x10000 \<noteq> 0"
    by (simp_all add: demo_heap_fields hdr_size_def hdr_head_def demo_blocks_words al4_def)
  have split: "below (mem demo_heap) 4052 [0x10000, 0x20000, 0x40000] = []"
    "above (mem demo_heap) 4052 [0x10000, 0x20000, 0x40000] = 0x10000 # [0x20000, 0x40000]"
    by (simp_all add: below_def above_def demo_heap_fields hdr_size_def demo_blocks_words al4_def)
  show ?thesis
    using skip_delete_removes [OF demo_skip_list _ sz(2), where vs = "[0x20000, 0x40000]"] unfolding sz(1) split by auto
qed

text \<open>\<^verbatim>\<open>klmalloc_skip_list_delete\<close> of a block that is in the list behind another one of the same
  size returns without removing it: the node is found, but it is not the successor of the
  recorded predecessors, so the memory is left as it is.\<close>

theorem skip_delete_shadowed:
  assumes "skip_list s ns lv" and "above (mem s) (hdr_size (mem s) v) ns = u # vs"
    and "v \<in> set vs" and "hdr_head (mem s) v \<noteq> 0"
  shows "\<exists>s'. klmalloc_skip_list_delete v s = ret s' \<and> mem s' = mem s"
  using delete_not_first [OF assms] by simp

theorem skip_delete_shadowed_witness:
  "\<exists>s'. klmalloc_skip_list_delete 0x20000 demo_heap = ret s' \<and> mem s' = demo_blocks"
proof -
  have sz: "hdr_size (mem demo_heap) 0x20000 = 4052" "hdr_head (mem demo_heap) 0x20000 \<noteq> 0"
    by (simp_all add: demo_heap_fields hdr_size_def hdr_head_def demo_blocks_words al4_def)
  have "above (mem demo_heap) 4052 [0x10000, 0x20000, 0x40000] = 0x10000 # [0x20000, 0x40000]"
    by (simp add: above_def demo_heap_fields hdr_size_def demo_blocks_words al4_def)
  then have "above (mem demo_heap) (hdr_size (mem demo_heap) 0x20000) [0x10000, 0x20000, 0x40000] =
      0x10000 # [0x20000, 0x40000]" unfolding sz(1) .
  then show ?thesis
    using skip_delete_shadowed [OF demo_skip_list _ _ sz(2)] by (simp add: demo_heap_fields)
qed

end
