(* ===== verification/KMalloc.thy ===== *)
theory KMalloc
  imports SkipList
begin

text \<open>
  The slab allocator of \<^verbatim>\<open>kernel/core/alloc.c\<close> on top of the skip list: bins, the stacks of free
  cells, and \<^verbatim>\<open>malloc\<close>, \<^verbatim>\<open>free\<close>, \<^verbatim>\<open>realloc\<close>, \<^verbatim>\<open>calloc\<close>.  The parts under \<^verbatim>\<open>#if 0\<close> (splitting and
  coalescing) are not compiled and have no counterpart.
\<close>

section \<open>Bins\<close>

definition NUM_BINS :: u32 where "NUM_BINS = 11"

definition BIG_BIN :: u32 where "BIG_BIN = NUM_BINS - 1"

text \<open>\<^verbatim>\<open>__builtin_clzl\<close> of a nonzero word: the number of zero bits above the highest one.\<close>

definition clz32 :: "u32 \<Rightarrow> nat" where
  "clz32 w = length (takeWhile (\<lambda>i. \<not> bit w i) (rev [0..<32]))"

definition klmalloc_adjust_bin :: "u32 \<Rightarrow> u32" where
  "klmalloc_adjust_bin bin =
     (if bin \<le> 2 then 0 else let b = bin - (2 + 1) in if b > BIG_BIN then BIG_BIN else b)"

definition klmalloc_bin_size :: "u32 \<Rightarrow> u32" where
  "klmalloc_bin_size sz =
     klmalloc_adjust_bin (32 - of_nat (clz32 sz) + (if sz AND (sz - 1) \<noteq> 0 then 1 else 0))"

section \<open>The lists of pages\<close>

definition klmalloc_list_decouple :: "nat \<Rightarrow> u32 \<Rightarrow> 'a kheap_scheme \<Rightarrow> 'a kheap_scheme" where
  "klmalloc_list_decouple b node s =
     s\<lparr>bin_head := (bin_head s)[b := hdr_next (mem s) node], mem := st32 (mem s) node 0\<rparr>"

definition klmalloc_list_insert :: "nat \<Rightarrow> u32 \<Rightarrow> 'a kheap_scheme \<Rightarrow> 'a kheap_scheme" where
  "klmalloc_list_insert b node s =
     s\<lparr>mem := st32 (mem s) node (bin_head s ! b), bin_head := (bin_head s)[b := node]\<rparr>"

definition klmalloc_list_head :: "nat \<Rightarrow> 'a kheap_scheme \<Rightarrow> u32" where
  "klmalloc_list_head b s = bin_head s ! b"

section \<open>The stacks of cells\<close>

definition klmalloc_stack_pop :: "u32 \<Rightarrow> 'a kheap_scheme \<Rightarrow> (u32 \<times> 'a kheap_scheme) run" where
  "klmalloc_stack_pop header s =
     bind_run (assert_run (header \<noteq> 0) ''header'') (\<lambda>_.
     bind_run (assert_run (hdr_head (mem s) header \<noteq> 0) ''header->head != NULL'') (\<lambda>_.
       let item = hdr_head (mem s) header; next = ld32 (mem s) item
       in ret (item, s\<lparr>mem := st32 (mem s) (header + 4) next\<rparr>)))"

definition klmalloc_stack_push :: "u32 \<Rightarrow> u32 \<Rightarrow> 'a kheap_scheme \<Rightarrow> 'a kheap_scheme run" where
  "klmalloc_stack_push header p s =
     bind_run (assert_run (p \<noteq> 0) ''ptr != NULL'') (\<lambda>_.
       ret (s\<lparr>mem := st32 (st32 (mem s) p (hdr_head (mem s) header)) (header + 4) p\<rparr>))"

definition klmalloc_stack_empty :: "u32 \<Rightarrow> 'a kheap_scheme \<Rightarrow> bool" where
  "klmalloc_stack_empty header s \<longleftrightarrow> hdr_head (mem s) header = 0"

section \<open>Allocation\<close>

text \<open>\<open>cell_at base b i\<close> is \<^verbatim>\<open>&base[i << b]\<close>, and \<open>cells_available b\<close> the variable \<^verbatim>\<open>available\<close>.\<close>

definition cell_at :: "u32 \<Rightarrow> nat \<Rightarrow> nat \<Rightarrow> u32" where
  "cell_at base b i = base + 4 * push_bit b (of_nat i)"

definition cells_available :: "nat \<Rightarrow> nat" where
  "cells_available b = drop_bit (2 + b) (0x1000 - 12) - 1"

fun init_stack :: "nat \<Rightarrow> nat \<Rightarrow> nat \<Rightarrow> u32 \<Rightarrow> mem \<Rightarrow> mem" where
  "init_stack 0 i b base m = m"
| "init_stack (Suc n) i b base m =
     init_stack n (Suc i) b base (st32 m (cell_at base b i) (cell_at base b (Suc i)))"

definition klmalloc_new_bin :: "nat \<Rightarrow> 'a kheap_scheme \<Rightarrow> (u32 \<times> 'a kheap_scheme) run" where
  "klmalloc_new_bin b s =
     bind_run (sbrk 0x1000 s) (\<lambda>(h, s1).
     bind_run (assert_run (h mod 0x1000 = 0) ''(uintptr_t)bin_header % PAGE_SIZE == 0'') (\<lambda>_.
       let s2 = klmalloc_list_insert b h (s1\<lparr>mem := st32 (mem s1) (h + 4) (h + 12)\<rparr>);
           base = hdr_head (mem s2) h;
           m = init_stack (cells_available b) 0 b base (mem s2);
           m' = st32 m (cell_at base b (cells_available b)) 0
       in ret (h, s2\<lparr>mem := st32 m' (h + 8) (of_nat b)\<rparr>)))"

definition klmalloc_small :: "nat \<Rightarrow> 'a kheap_scheme \<Rightarrow> (u32 \<times> 'a kheap_scheme) run" where
  "klmalloc_small b s =
     bind_run (let h = klmalloc_list_head b s in if h = 0 then klmalloc_new_bin b s else ret (h, s)) (\<lambda>(h, s1).
     bind_run (klmalloc_stack_pop h s1) (\<lambda>(item, s2).
       ret (item, if klmalloc_stack_empty h s2 then klmalloc_list_decouple b h s2 else s2)))"

definition klmalloc_new_big :: "u32 \<Rightarrow> 'a kheap_scheme \<Rightarrow> (u32 \<times> 'a kheap_scheme) run" where
  "klmalloc_new_big sz s =
     (let pages = (sz + 44) div 0x1000 + 1 in
      bind_run (sbrk (0x1000 * pages) s) (\<lambda>(h, s1).
      bind_run (assert_run (h mod 0x1000 = 0) ''(uintptr_t)bin_header % PAGE_SIZE == 0'') (\<lambda>_.
        let m1 = st32 (mem s1) (h + 8) (pages * 0x1000 - 44) in
      bind_run (assert_run (size_fits m1 h) ''(bin_header->size + sizeof) % PAGE_SIZE == 0'') (\<lambda>_.
        let m2 = st32 m1 (h + 12) (newest_big s1);
            m3 = (if hdr_prev m2 h \<noteq> 0 then st32 m2 (hdr_prev m2 h) h else m2)
        in ret (h + 44, s1\<lparr>newest_big := h, mem := st32 (st32 m3 h 0) (h + 4) 0\<rparr>)))))"

definition klmalloc_big :: "u32 \<Rightarrow> 'a kheap_scheme \<Rightarrow> (u32 \<times> 'a kheap_scheme) run" where
  "klmalloc_big sz s =
     bind_run (klmalloc_skip_list_findbest sz s) (\<lambda>h.
       if h \<noteq> 0 then bind_run (klmalloc_skip_list_delete h s) (klmalloc_stack_pop h)
       else klmalloc_new_big sz s)"

definition klmalloc :: "u32 \<Rightarrow> 'a kheap_scheme \<Rightarrow> (u32 \<times> 'a kheap_scheme) run" where
  "klmalloc sz s =
     (if sz = 0 then ret (0, s)
      else let b = klmalloc_bin_size sz in
        if b < BIG_BIN then klmalloc_small (unat b) s else klmalloc_big sz s)"

section \<open>Release\<close>

definition block_header :: "u32 \<Rightarrow> u32" where
  "block_header p = p AND NOT 0xFFF"

definition klfree :: "u32 \<Rightarrow> 'a kheap_scheme \<Rightarrow> 'a kheap_scheme run" where
  "klfree p s =
     (if p = 0 then ret s
      else let h = block_header p; bucket_id = hdr_size (mem s) h in
        bind_run (assert_run (h mod 0x1000 = 0) ''(uintptr_t)header % PAGE_SIZE == 0'') (\<lambda>_.
          if bucket_id > NUM_BINS then
            bind_run (assert_run (h \<noteq> 0) ''bheader'') (\<lambda>_.
            bind_run (assert_run (hdr_head (mem s) h = 0) ''bheader->head == NULL'') (\<lambda>_.
            bind_run (assert_run (size_fits (mem s) h) ''(bheader->size + sizeof) % PAGE_SIZE == 0'') (\<lambda>_.
            bind_run (klmalloc_stack_push h (h + 44) s) (\<lambda>s1.
            bind_run (assert_run (hdr_head (mem s1) h \<noteq> 0) ''bheader->head != NULL'') (\<lambda>_.
              klmalloc_skip_list_insert h s1)))))
          else if klmalloc_stack_empty h s then
            (if bucket_id < BIG_BIN then klmalloc_stack_push h p (klmalloc_list_insert (unat bucket_id) h s)
             else halt (Undefined ''klmalloc_bin_head[bucket_id]''))
          else klmalloc_stack_push h p s))"

section \<open>Resizing\<close>

definition klrealloc :: "u32 \<Rightarrow> u32 \<Rightarrow> 'a kheap_scheme \<Rightarrow> (u32 \<times> 'a kheap_scheme) run" where
  "klrealloc p sz s =
     (if p = 0 then klmalloc sz s
      else if sz = 0 then bind_run (klfree p s) (\<lambda>s1. ret (0, s1))
      else let h = block_header p in
        if hdr_size (mem s) h \<ge> sz then ret (p, s)
        else bind_run (klmalloc sz s) (\<lambda>(newptr, s1).
          if newptr \<noteq> 0 then
            let old = hdr_size (mem s1) h;
                old_size = (if old < BIG_BIN then push_bit (2 + unat old) 1 else old)
            in bind_run (klfree p (s1\<lparr>mem := memcpy (mem s1) newptr p old_size\<rparr>)) (\<lambda>s2. ret (newptr, s2))
          else ret (0, s1)))"

definition klcalloc :: "u32 \<Rightarrow> u32 \<Rightarrow> 'a kheap_scheme \<Rightarrow> (u32 \<times> 'a kheap_scheme) run" where
  "klcalloc nmemb sz s =
     bind_run (klmalloc (nmemb * sz) s) (\<lambda>(p, s1).
       ret (p, if p \<noteq> 0 then s1\<lparr>mem := memset (mem s1) p 0 (nmemb * sz)\<rparr> else s1))"

definition malloc :: "u32 \<Rightarrow> 'a kheap_scheme \<Rightarrow> (u32 \<times> 'a kheap_scheme) run" where
  "malloc sz s = klmalloc sz s"

definition realloc :: "u32 \<Rightarrow> u32 \<Rightarrow> 'a kheap_scheme \<Rightarrow> (u32 \<times> 'a kheap_scheme) run" where
  "realloc p sz s = klrealloc p sz s"

definition calloc :: "u32 \<Rightarrow> u32 \<Rightarrow> 'a kheap_scheme \<Rightarrow> (u32 \<times> 'a kheap_scheme) run" where
  "calloc nmemb sz s = klcalloc nmemb sz s"

definition free :: "u32 \<Rightarrow> 'a kheap_scheme \<Rightarrow> 'a kheap_scheme run" where
  "free p s = klfree p s"

section \<open>The bin of a size\<close>

lemma takeWhile_rev_upt:
  assumes "k < n" and "P k" and "\<And>i. k < i \<Longrightarrow> i < n \<Longrightarrow> \<not> P i"
  shows "length (takeWhile (\<lambda>i. \<not> P i) (rev [0..<n])) = n - 1 - k"
  using assms
proof (induction n)
  case (Suc n)
  show ?case
  proof (cases "k = n")
    case False
    then have "\<not> P n" "k < n" using Suc.prems by simp_all
    then have "length (takeWhile (\<lambda>i. \<not> P i) (rev [0..<n])) = n - 1 - k"
      using Suc.prems by (intro Suc.IH) simp_all
    then show ?thesis using \<open>\<not> P n\<close> \<open>k < n\<close> by simp
  qed (use Suc.prems in simp)
qed simp

lemma clz32_eq:
  assumes "2 ^ k \<le> unat w" and "unat w < 2 ^ Suc k" and "k < 32"
  shows "clz32 w = 31 - k"
proof -
  have "unat w div 2 ^ k = 1" using assms(1,2) by (simp add: div_nat_eqI)
  then have "bit (unat w) k" by (simp add: bit_iff_odd)
  then have "bit w k" by (simp add: bit_unsigned_iff)
  moreover have "\<not> bit w i" if "k < i" "i < 32" for i
  proof -
    have "unat w < 2 ^ i" using assms(2) power_increasing [of "Suc k" i "2::nat"] that by simp
    then have "\<not> bit (unat w) i" by (simp add: bit_iff_odd)
    then show ?thesis using that by (simp add: bit_unsigned_iff)
  qed
  ultimately show ?thesis using takeWhile_rev_upt [of k 32 "bit w"] assms(3) by (simp add: clz32_def)
qed

lemma power_of_two_test:
  assumes "2 ^ k \<le> unat (w :: u32)" and "unat w < 2 ^ Suc k" and "k < 32"
  shows "w AND (w - 1) = 0 \<longleftrightarrow> unat w = 2 ^ k"
proof
  assume zero: "w AND (w - 1) = 0"
  show "unat w = 2 ^ k"
  proof (rule ccontr)
    assume "unat w \<noteq> 2 ^ k"
    then have gt: "2 ^ k \<le> unat w - 1" using assms(1) by simp
    have "w \<noteq> 0" using assms(1) by auto
    then have w1: "unat (w - 1) = unat w - 1" by (simp add: unat_minus_one)
    have "unat w div 2 ^ k = 1" "(unat w - 1) div 2 ^ k = 1"
      using assms(1,2) gt by (simp_all add: div_nat_eqI)
    then have "bit (unat w) k" "bit (unat (w - 1)) k" unfolding w1 by (simp_all add: bit_iff_odd)
    then have "bit (w AND (w - 1)) k" by (simp add: bit_simps bit_unsigned_iff)
    then show False using zero by simp
  qed
next
  assume "unat w = 2 ^ k"
  then have "(of_nat (unat w) :: u32) = 2 ^ k" by simp
  then have "w = 2 ^ k" by simp
  then have "w AND (w - 1) = 2 ^ k AND mask k" by (simp add: mask_eq_exp_minus_1)
  also have "\<dots> = 0" by (rule bit_word_eqI) (simp add: bit_simps)
  finally show "w AND (w - 1) = 0" .
qed

lemma bin_size_value:
  assumes "2 ^ k \<le> unat sz" and "unat sz < 2 ^ Suc k" and "k < 32"
  shows "unat (klmalloc_bin_size sz) = min 10 (k + (if unat sz = 2 ^ k then 1 else 2) - 3)"
proof -
  define e where "e = (if unat sz = 2 ^ k then 1 else 2 :: nat)"
  have e: "e \<le> 2" by (simp add: e_def)
  have "32 - of_nat (clz32 sz) = (of_nat (Suc k) :: u32)"
    using assms(3) by (simp add: clz32_eq [OF assms])
  then have bin: "32 - of_nat (clz32 sz) + (if sz AND (sz - 1) \<noteq> 0 then 1 else 0) = (of_nat (k + e) :: u32)"
    using power_of_two_test [OF assms] by (simp add: e_def)
  have small: "unat (of_nat (k + e) :: u32) = k + e" using assms(3) e by (intro unat_of_nat_small) simp
  have "unat (klmalloc_adjust_bin (of_nat (k + e))) = min 10 (k + e - 3)"
  proof (cases "k + e \<le> 2")
    case True
    then show ?thesis using small by (simp add: klmalloc_adjust_bin_def word_le_nat_alt)
  next
    case False
    then have "unat (of_nat (k + e) - 3 :: u32) = k + e - 3"
      using small by (subst unat_sub) (simp_all add: word_le_nat_alt)
    then show ?thesis using False small
      by (simp add: klmalloc_adjust_bin_def word_le_nat_alt word_less_nat_alt BIG_BIN_def NUM_BINS_def Let_def)
  qed
  then show ?thesis by (simp add: klmalloc_bin_size_def bin e_def)
qed

lemma bracket_power:
  assumes "0 < (n :: nat)"
  obtains k where "2 ^ k \<le> n" and "n < 2 ^ Suc k"
proof -
  have "\<exists>k. 2 ^ k \<le> n \<and> n < 2 ^ Suc k"
    using assms
  proof (induction n)
    case (Suc n)
    show ?case
    proof (cases "n = 0")
      case True
      then show ?thesis by (intro exI [of _ 0]) simp
    next
      case False
      then obtain k where "2 ^ k \<le> n" "n < 2 ^ Suc k" using Suc by auto
      then show ?thesis
        by (cases "Suc n = 2 ^ Suc k") (auto intro: exI [of _ "Suc k"] exI [of _ k])
    qed
  qed simp
  then show ?thesis using that by blast
qed

lemma bin_size_fits:
  assumes "sz \<noteq> 0"
  shows "if sz \<le> 2048
    then unat (klmalloc_bin_size sz) < 10 \<and> unat sz \<le> 2 ^ (unat (klmalloc_bin_size sz) + 2) \<and>
      (unat (klmalloc_bin_size sz) = 0 \<or> 2 ^ (unat (klmalloc_bin_size sz) + 1) < unat sz)
    else klmalloc_bin_size sz = 10"
proof -
  have "0 < unat sz" using assms by (simp add: unat_gt_0)
  then obtain k where k: "2 ^ k \<le> unat sz" "unat sz < 2 ^ Suc k" by (rule bracket_power)
  have "unat sz < 2 ^ 32" using unsigned_less [of sz] by simp
  then have "(2::nat) ^ k < 2 ^ 32" using k(1) by linarith
  then have "k < 32" by (simp only: power_strict_increasing_iff)
  note bin = bin_size_value [OF k this]
  show ?thesis
  proof (cases "sz \<le> 2048")
    case True
    then have le: "unat sz \<le> 2 ^ 11" by (simp add: word_le_nat_alt)
    then have "(2::nat) ^ k \<le> 2 ^ 11" using k(1) by (rule order_trans [rotated])
    then have "k \<le> 11" by (rule power_le_imp_le_exp [rotated]) simp
    then have "k = 11 \<or> k \<le> 10" by linarith
    moreover have "unat sz = 2 ^ k" if "k = 11" using le k(1) that by simp
    ultimately have k10: "k + (if unat sz = 2 ^ k then 1 else 2) - 3 \<le> 9" by auto
    then have b: "unat (klmalloc_bin_size sz) = k + (if unat sz = 2 ^ k then 1 else 2) - 3"
      using bin by simp
    show ?thesis
    proof (cases "k \<le> 1")
      case True
      then have "k = 0 \<or> k = 1" by linarith
      then have "unat sz \<le> 4" using k(2) by auto
      moreover have "unat (klmalloc_bin_size sz) = 0" using b True by simp
      ultimately show ?thesis using \<open>sz \<le> 2048\<close> by simp
    next
      case False
      then obtain j where j: "k = Suc (Suc j)" by (metis One_nat_def not_less_eq_eq nat.exhaust le0)
      have jj: "(2::nat) ^ Suc j < 2 ^ k" by (simp add: j)
      show ?thesis
      proof (cases "unat sz = 2 ^ k")
        case True
        then show ?thesis using b k10 \<open>sz \<le> 2048\<close> by (auto simp: j)
      next
        case False
        then have "2 ^ k < unat sz" using k(1) by simp
        then show ?thesis using b k10 False k(2) \<open>sz \<le> 2048\<close> by (auto simp: j)
      qed
    qed
  next
    case False
    then have gt: "2 ^ 11 < unat sz" by (simp add: word_le_nat_alt)
    then have "(2::nat) ^ 11 < 2 ^ Suc k" using k(2) by (rule order_less_trans)
    then have "11 < Suc k" by (simp only: power_strict_increasing_iff)
    then have "k = 11 \<or> 12 \<le> k" by linarith
    moreover have "unat sz \<noteq> 2 ^ k" if "k = 11" using gt that by simp
    ultimately have "10 \<le> k + (if unat sz = 2 ^ k then 1 else 2) - 3" by auto
    then have "unat (klmalloc_bin_size sz) = 10" using bin by simp
    then have "klmalloc_bin_size sz = 10" by (simp add: word_unat_eq_iff)
    then show ?thesis using False by simp
  qed
qed

text \<open>C24: \<^verbatim>\<open>klmalloc_bin_size\<close> puts every request of 1 to 2048 bytes into the smallest of the bins
  0 to 9 whose cells of \<open>4 * 2 ^ b\<close> bytes hold it, and every larger request, up to the largest
  \<^verbatim>\<open>size_t\<close>, into the bin of big blocks.\<close>

theorem bin_size_minimal:
  assumes "sz \<noteq> 0"
  shows "if sz \<le> 2048
    then unat (klmalloc_bin_size sz) < 10 \<and> unat sz \<le> 2 ^ (unat (klmalloc_bin_size sz) + 2) \<and>
      (unat (klmalloc_bin_size sz) = 0 \<or> 2 ^ (unat (klmalloc_bin_size sz) + 1) < unat sz)
    else klmalloc_bin_size sz = BIG_BIN"
proof -
  have "BIG_BIN = 10" by (simp add: BIG_BIN_def NUM_BINS_def)
  then show ?thesis using bin_size_fits [OF assms] by (simp only:)
qed

theorem bin_size_minimal_witness: "klmalloc_bin_size 2049 = BIG_BIN \<and> unat (klmalloc_bin_size 2048) < 10"
  using bin_size_minimal [of 2049] bin_size_minimal [of 2048] by simp

end
