(* ===== verification/HeapInv.thy ===== *)
theory HeapInv
  imports KMalloc
begin

text \<open>
  The invariant of the heap of \<^verbatim>\<open>kernel/core/alloc.c\<close> and what \<^verbatim>\<open>klmalloc\<close> and \<^verbatim>\<open>klfree\<close> do to it.
  The abstract heap is a map from page addresses to chunks: a page of cells with its stack of
  free cells, or a big block that is free or in use.
\<close>

section \<open>Regions of words\<close>

definition words :: "u32 \<Rightarrow> nat \<Rightarrow> u32 set" where
  "words p n = {x. al4 x \<and> in_range p n x}"

lemma words_offset: "al4 (p + of_nat k) \<Longrightarrow> k < n \<Longrightarrow> n \<le> 2 ^ 32 \<Longrightarrow> p + of_nat k \<in> words p n"
  by (simp add: words_def)

lemma words_mono: "n \<le> k \<Longrightarrow> words p n \<subseteq> words p k"
  by (auto simp: words_def intro: in_range_mono)

lemma words_sub:
  assumes "unat p + n \<le> 2 ^ 32" and "k + l \<le> n"
  shows "words (p + of_nat k) l \<subseteq> words p n"
proof
  fix x assume "x \<in> words (p + of_nat k) l"
  then have x: "al4 x" "in_range (p + of_nat k) l x" by (simp_all add: words_def)
  from x(2) obtain j where j: "j < l" "x = p + of_nat k + of_nat j" by (rule in_range_obtain)
  have "x = p + of_nat (k + j)" using j(2) by (simp add: add.assoc)
  moreover have "n \<le> 2 ^ 32" using assms(1) by simp
  ultimately have "in_range p n x" using assms j(1) by (simp only: in_range_offset)
  then show "x \<in> words p n" using x(1) by (simp add: words_def)
qed

lemma words_apart:
  assumes "unat p + n \<le> 2 ^ 32" and "unat q + l \<le> 2 ^ 32"
    and "unat p + n \<le> unat q \<or> unat q + l \<le> unat p"
  shows "words p n \<inter> words q l = {}"
proof -
  have "\<not> in_range p n x" if "in_range q l x" for x
    using that range_apart [OF assms] by (elim in_range_obtain) auto
  then show ?thesis by (auto simp: words_def)
qed

lemma al4_page: "p mod 0x1000 = (0 :: u32) \<Longrightarrow> al4 p"
proof -
  assume "p mod 0x1000 = 0"
  then have "unat p mod 0x1000 = 0" by (simp add: word_unat_eq_iff unat_mod_distrib)
  moreover have "unat p mod 0x1000 mod 4 = unat p mod 4" by (rule mod_mod_cancel) simp
  ultimately have "unat p mod 4 = 0" by simp
  then show ?thesis by (simp add: al4_def)
qed

lemma al4_4_times: "al4 (of_nat (4 * k))"
  using al4_times [of "of_nat k"] by simp

lemma header_word_in: "al4 p \<Longrightarrow> j < 11 \<Longrightarrow> 44 \<le> n \<Longrightarrow> n \<le> 2 ^ 32 \<Longrightarrow> p + 4 * of_nat j \<in> words p n"
  using words_offset [of p "4 * j" n] al4_word [of p "of_nat j"] by simp

lemma hdr_apart_words:
  assumes "al4 p" and "al4 q" and "words p n \<inter> words q l = {}"
    and "44 \<le> n" and "n \<le> 2 ^ 32" and "44 \<le> l" and "l \<le> 2 ^ 32"
  shows "hdr_apart p q"
  unfolding hdr_apart_def
proof (intro allI impI)
  fix j k :: nat assume "j < 11" "k < 11"
  then have "p + 4 * of_nat j \<in> words p n" "q + 4 * of_nat k \<in> words q l"
    using assms by (simp_all add: header_word_in)
  then show "p + 4 * of_nat j \<noteq> q + 4 * of_nat k" using assms(3) by auto
qed

lemma same_words_un: "same_words V m m' \<Longrightarrow> same_words W m' m'' \<Longrightarrow> same_words (V \<union> W) m m''"
  by (auto simp: same_words_def)

lemma same_words_at: "al4 x \<Longrightarrow> same_words {x} m (st32 m x v)"
  by (rule same_words_st32) simp_all

lemma same_wordsD: "same_words W m m' \<Longrightarrow> al4 x \<Longrightarrow> x \<notin> W \<Longrightarrow> ld32 m' x = ld32 m x"
  by (simp add: same_words_def)

lemma fwd_words_in_header:
  assumes "x \<in> fwd_words H" and "\<And>p. p \<in> H \<Longrightarrow> al4 p"
  obtains p where "p \<in> H" and "x \<in> words p 44" and "x \<noteq> p" and "x \<noteq> p + 4" and "x \<noteq> p + 8"
proof -
  obtain p j where p: "p \<in> H" "j \<le> 6" "x = p + 4 * of_nat (4 + j)"
    using assms(1) by (auto simp: fwd_words_def algebra_simps)
  have "x \<in> words p 44" unfolding p(3) using assms(2) [OF p(1)] p(2) by (intro header_word_in) simp_all
  moreover have "x \<noteq> p + 4 * of_nat k" if "k < 4" for k
  proof
    assume "x = p + 4 * of_nat k"
    then have "(of_nat (4 * (4 + j)) :: u32) = of_nat (4 * k)" using p(3) by simp
    then have "4 * (4 + j) = 4 * k" using p(2) that by (subst (asm) of_nat_inject_small) simp_all
    then show False using that by simp
  qed
  from this [of 0] this [of 1] this [of 2] have "x \<noteq> p" "x \<noteq> p + 4" "x \<noteq> p + 8" by simp_all
  ultimately show ?thesis using p(1) that by blast
qed

section \<open>Chunks\<close>

datatype chunk = Small nat "u32 list" | Big u32 bool

fun chunk_len :: "chunk \<Rightarrow> nat" where
  "chunk_len (Small b fs) = 0x1000"
| "chunk_len (Big n f) = unat n + 44"

definition cell_addr :: "u32 \<Rightarrow> nat \<Rightarrow> nat \<Rightarrow> u32" where
  "cell_addr p b i = p + of_nat (12 + i * 2 ^ (b + 2))"

definition cells :: "u32 \<Rightarrow> nat \<Rightarrow> u32 set" where
  "cells p b = cell_addr p b ` {..cells_available b}"

fun chunk_ok :: "mem \<Rightarrow> u32 \<Rightarrow> chunk \<Rightarrow> bool" where
  "chunk_ok m p (Small b fs) \<longleftrightarrow> p \<noteq> 0 \<and> p mod 0x1000 = 0 \<and> unat p + 0x1000 \<le> 2 ^ 32 \<and> b < 10 \<and>
     hdr_size m p = of_nat b \<and> distinct fs \<and> set fs \<subseteq> cells p b \<and> linked (ld32 m) (p + 4) fs"
| "chunk_ok m p (Big n f) \<longleftrightarrow> p \<noteq> 0 \<and> p mod 0x1000 = 0 \<and> unat p + (unat n + 44) \<le> 2 ^ 32 \<and>
     hdr_size m p = n \<and> (n + 44) mod 0x1000 = 0 \<and> 4052 \<le> unat n \<and>
     (if f then hdr_head m p = p + 44 \<and> ld32 m (p + 44) = 0 else hdr_head m p = 0)"

text \<open>The words of a chunk that \<open>chunk_ok\<close> speaks of.\<close>

fun chunk_meta :: "u32 \<Rightarrow> chunk \<Rightarrow> u32 set" where
  "chunk_meta p (Small b fs) = {p + 4, p + 8} \<union> set fs"
| "chunk_meta p (Big n f) = (if f then {p + 4, p + 8, p + 44} else {p + 4, p + 8})"

lemma chunk_okD:
  assumes "chunk_ok m p c"
  shows "p \<noteq> 0" "p mod 0x1000 = 0" "unat p + chunk_len c \<le> 2 ^ 32" "al4 p" "0x1000 \<le> chunk_len c"
    "chunk_len c \<le> 2 ^ 32"
proof -
  show "p \<noteq> 0" using assms by (cases c) auto
  show mod: "p mod 0x1000 = 0" using assms by (cases c) (simp_all only: chunk_ok.simps)
  show len: "unat p + chunk_len c \<le> 2 ^ 32" using assms by (cases c) (simp_all only: chunk_ok.simps chunk_len.simps)
  show "al4 p" using mod by (rule al4_page)
  show "chunk_len c \<le> 2 ^ 32" using len by linarith
  show "0x1000 \<le> chunk_len c"
  proof (cases c)
    case (Big n f)
    then have "4052 \<le> unat n" using assms by (simp only: chunk_ok.simps)
    then show ?thesis using Big by simp
  qed simp
qed

lemma cells_available_fits:
  assumes "b < 10"
  shows "12 + (cells_available b + 1) * 2 ^ (b + 2) \<le> 0x1000"
proof -
  define c :: nat where "c = 2 ^ (b + 2)"
  have "c \<le> 2 ^ 11" unfolding c_def using assms by (intro power_increasing) simp_all
  moreover have "0 < c" by (simp add: c_def)
  ultimately have "0 < 4084 div c" by (simp add: div_greater_zero_iff)
  moreover have "cells_available b = 4084 div c - 1"
    by (simp add: cells_available_def drop_bit_eq_div c_def add.commute)
  ultimately have "cells_available b + 1 = 4084 div c" by simp
  then have "(cells_available b + 1) * c \<le> 4084" by (simp only: div_times_less_eq_dividend)
  then show ?thesis unfolding c_def by simp
qed

lemma cell_offset:
  assumes "b < 10" and "i \<le> cells_available b"
  shows "12 + i * 2 ^ (b + 2) + 2 ^ (b + 2) \<le> 0x1000"
proof -
  define c :: nat where "c = 2 ^ (b + 2)"
  have "(i + 1) * c \<le> (cells_available b + 1) * c" using assms(2) by (intro mult_le_mono1) simp
  then have "i * c + c \<le> (cells_available b + 1) * c" by (simp only: add_mult_distrib mult_1)
  then show ?thesis using cells_available_fits [OF assms(1)] unfolding c_def [symmetric] by linarith
qed

lemma cell_words:
  assumes "b < 10" and "unat p + 0x1000 \<le> 2 ^ 32" and "q \<in> cells p b"
  shows "words q (2 ^ (b + 2)) \<subseteq> words (p + 12) 4084" and "words (p + 12) 4084 \<subseteq> words p 0x1000"
proof -
  obtain i where i: "i \<le> cells_available b" "q = cell_addr p b i" using assms(3) by (auto simp: cells_def)
  have "q = p + 12 + of_nat (i * 2 ^ (b + 2))" by (simp add: i(2) cell_addr_def)
  moreover have "unat (p + 12) = unat p + 12" using unat_add_small [of p 12] assms(2) by simp
  moreover have "i * 2 ^ (b + 2) + 2 ^ (b + 2) \<le> 4084" using cell_offset [OF assms(1) i(1)] by simp
  ultimately show "words q (2 ^ (b + 2)) \<subseteq> words (p + 12) 4084"
    using assms(2) by (simp only:) (rule words_sub; simp)
  show "words (p + 12) 4084 \<subseteq> words p 0x1000" using words_sub [of p "0x1000" 12 4084] assms(2) by simp
qed

lemma al4_cell:
  assumes "al4 p" and "q \<in> cells p b"
  shows "al4 q"
proof -
  obtain i where "q = cell_addr p b i" using assms(2) by (auto simp: cells_def)
  then have "q = p + of_nat (4 * (3 + i * 2 ^ b))" by (simp add: cell_addr_def algebra_simps power_add)
  then show ?thesis using assms(1) al4_4_times by (simp only: al4_add)
qed

lemma cell_self: "al4 p \<Longrightarrow> q \<in> cells p b \<Longrightarrow> q \<in> words q (2 ^ (b + 2))"
  using al4_cell by (simp add: words_def in_range_def)

lemma cell_in_page:
  assumes "al4 p" and "b < 10" and "unat p + 0x1000 \<le> 2 ^ 32" and "q \<in> cells p b"
  shows "q \<in> words (p + 12) 4084" and "q \<in> words p 0x1000"
  using cell_self [OF assms(1,4)] cell_words [OF assms(2-4)] by blast+

lemma header_not_after:
  assumes "unat p + 0x1000 \<le> 2 ^ 32" and "al4 p"
  shows "p \<notin> words (p + 12) 4084" "p + 4 \<notin> words (p + 12) 4084" "p + 8 \<notin> words (p + 12) 4084"
proof -
  have "unat (p + 12) = unat p + 12" using unat_add_small [of p 12] assms(1) by simp
  then have "words p 12 \<inter> words (p + 12) 4084 = {}" using assms(1) by (intro words_apart) simp_all
  moreover have "al4 (p + of_nat (4 * k))" for k using assms(2) al4_4_times by (rule al4_add)
  from this [of 0] this [of 1] this [of 2] have "p \<in> words p 12" "p + 4 \<in> words p 12" "p + 8 \<in> words p 12"
    using words_offset [of p 0 12] words_offset [of p 4 12] words_offset [of p 8 12] by simp_all
  ultimately show "p \<notin> words (p + 12) 4084" "p + 4 \<notin> words (p + 12) 4084" "p + 8 \<notin> words (p + 12) 4084"
    by blast+
qed

lemma cells_apart:
  assumes "b < 10" and "unat p + 0x1000 \<le> 2 ^ 32" and "q \<in> cells p b" and "r \<in> cells p b" and "q \<noteq> r"
  shows "words q (2 ^ (b + 2)) \<inter> words r (2 ^ (b + 2)) = {}"
proof -
  obtain i j where i: "i \<le> cells_available b" "q = cell_addr p b i"
    and j: "j \<le> cells_available b" "r = cell_addr p b j" using assms(3,4) by (auto simp: cells_def)
  have ij: "i \<noteq> j" using i(2) j(2) assms(5) by auto
  have at: "unat (cell_addr p b k) = unat p + 12 + k * 2 ^ (b + 2)" "k * 2 ^ (b + 2) + 2 ^ (b + 2) \<le> 4084"
    if "k \<le> cells_available b" for k
  proof -
    show le: "k * 2 ^ (b + 2) + 2 ^ (b + 2) \<le> 4084" using cell_offset [OF assms(1) that] by linarith
    have "unat p + (12 + k * 2 ^ (b + 2)) < 2 ^ 32" using le assms(2) zero_less_power [of "2::nat" "b + 2"] by linarith
    then have "unat (p + of_nat (12 + k * 2 ^ (b + 2))) = unat p + (12 + k * 2 ^ (b + 2))" by (rule unat_add_small)
    then show "unat (cell_addr p b k) = unat p + 12 + k * 2 ^ (b + 2)"
      unfolding cell_addr_def by (simp only: add.assoc)
  qed
  have step: "k * 2 ^ (b + 2) + 2 ^ (b + 2) \<le> l * 2 ^ (b + 2)" if "k < l" for k l :: nat
    using mult_le_mono1 [of "Suc k" l "2 ^ (b + 2)"] that by simp
  show ?thesis
    using at [OF i(1)] at [OF j(1)] step [of i j] step [of j i] ij assms(2) unfolding i(2) j(2)
    by (intro words_apart) linarith+
qed

lemma al4_meta:
  assumes "chunk_ok m p c" and "x \<in> chunk_meta p c"
  shows "al4 x"
proof -
  have p: "al4 p" using assms(1) by (rule chunk_okD)
  have "al4 (p + of_nat (4 * k))" for k using p al4_4_times by (rule al4_add)
  from this [of 1] this [of 2] this [of 11] have h: "al4 (p + 4)" "al4 (p + 8)" "al4 (p + 44)" by simp_all
  show ?thesis
  proof (cases c)
    case (Small b fs)
    then have "set fs \<subseteq> cells p b" using assms(1) by simp
    then show ?thesis using assms(2) Small h al4_cell [OF p] by auto
  next
    case (Big n f)
    then show ?thesis using assms(2) h by (auto split: if_splits)
  qed
qed

lemma chunk_ok_frame:
  assumes "chunk_ok m p c" and same: "same_words W m m'" and "W \<inter> chunk_meta p c = {}"
  shows "chunk_ok m' p c"
proof -
  have eq: "ld32 m' x = ld32 m x" if "x \<in> chunk_meta p c" for x
    using same al4_meta [OF assms(1) that] assms(3) that by (intro same_wordsD) auto
  show ?thesis
  proof (cases c)
    case (Small b fs)
    have "linked (ld32 m') (p + 4) fs = linked (ld32 m) (p + 4) fs"
      using eq Small by (intro linked_cong) auto
    moreover have "hdr_size m' p = hdr_size m p" unfolding hdr_size_def by (rule eq) (simp add: Small)
    ultimately show ?thesis using assms(1) Small by simp
  next
    case (Big n f)
    have "hdr_size m' p = hdr_size m p" "hdr_head m' p = hdr_head m p"
      unfolding hdr_size_def hdr_head_def by (rule eq; simp add: Big)+
    moreover have "f \<Longrightarrow> ld32 m' (p + 44) = ld32 m (p + 44)" by (rule eq) (simp add: Big)
    ultimately show ?thesis using assms(1) Big by simp
  qed
qed

lemma header_in_chunk:
  assumes "chunk_ok m p c" and "k < 12"
  shows "p + of_nat (4 * k) \<in> words p (chunk_len c)"
proof -
  have "al4 p" "0x1000 \<le> chunk_len c" "chunk_len c \<le> 2 ^ 32" using chunk_okD [OF assms(1)] by blast+
  then show ?thesis using assms(2) by (intro words_offset al4_add al4_4_times) simp_all
qed

lemma header_fields_in_chunk:
  assumes "chunk_ok m p c"
  shows "p \<in> words p (chunk_len c)" "p + 4 \<in> words p (chunk_len c)" "p + 8 \<in> words p (chunk_len c)"
    "p + 12 \<in> words p (chunk_len c)" "p + 44 \<in> words p (chunk_len c)"
    "words p 44 \<subseteq> words p (chunk_len c)"
proof -
  show "words p 44 \<subseteq> words p (chunk_len c)" using chunk_okD(5) [OF assms] by (intro words_mono) simp
qed (use header_in_chunk [OF assms, of 0] header_in_chunk [OF assms, of 1] header_in_chunk [OF assms, of 2]
    header_in_chunk [OF assms, of 3] header_in_chunk [OF assms, of 11] in simp_all)

lemma meta_in_chunk:
  assumes "chunk_ok m p c"
  shows "chunk_meta p c \<subseteq> words p (chunk_len c)"
proof (cases c)
  case (Small b fs)
  then have ok: "set fs \<subseteq> cells p b" "b < 10" "unat p + 0x1000 \<le> 2 ^ 32" using assms by simp_all
  have "q \<in> words p 0x1000" if "q \<in> set fs" for q
    using cell_in_page(2) [OF chunk_okD(4) [OF assms] ok(2,3)] ok(1) that by blast
  then show ?thesis using header_fields_in_chunk [OF assms] Small by auto
next
  case (Big n f)
  then show ?thesis using header_fields_in_chunk [OF assms] by auto
qed

section \<open>The invariant\<close>

text \<open>\<open>chain f a ns\<close>: the list that starts at \<open>a\<close> and continues by \<open>f\<close> is \<open>ns\<close>.\<close>

primrec chain :: "(u32 \<Rightarrow> u32) \<Rightarrow> u32 \<Rightarrow> u32 list \<Rightarrow> bool" where
  "chain f a [] \<longleftrightarrow> a = 0"
| "chain f a (n # ns) \<longleftrightarrow> a = n \<and> n \<noteq> 0 \<and> chain f (f n) ns"

lemma chain_cong: "(\<And>x. x \<in> set ns \<Longrightarrow> f x = g x) \<Longrightarrow> chain f a ns = chain g a ns"
  by (induction ns arbitrary: a) auto

text \<open>
  \<open>heap_ok s A ns lv busy\<close>: the heap of the state \<open>s\<close> consists of the chunks \<open>A\<close>, which are in
  order, lie apart from each other and from the list head, and below the heap end; the free
  big blocks form the skip list \<open>ns\<close>; the pages of each bin that have a free cell form the list
  \<open>busy b\<close>.
\<close>

definition chunks_ok :: "'a kheap_scheme \<Rightarrow> (u32 \<Rightarrow> chunk option) \<Rightarrow> bool" where
  "chunks_ok s A \<longleftrightarrow> (\<forall>p c. A p = Some c \<longrightarrow> chunk_ok (mem s) p c \<and>
     unat p + chunk_len c \<le> unat (heap_end s) \<and> words p (chunk_len c) \<inter> words (big_head s) 44 = {})"

definition chunks_apart :: "(u32 \<Rightarrow> chunk option) \<Rightarrow> bool" where
  "chunks_apart A \<longleftrightarrow> (\<forall>p c q d. A p = Some c \<longrightarrow> A q = Some d \<longrightarrow> p \<noteq> q \<longrightarrow>
     words p (chunk_len c) \<inter> words q (chunk_len d) = {})"

definition bins_ok :: "'a kheap_scheme \<Rightarrow> (u32 \<Rightarrow> chunk option) \<Rightarrow> (nat \<Rightarrow> u32 list) \<Rightarrow> bool" where
  "bins_ok s A busy \<longleftrightarrow> length (bin_head s) = 10 \<and>
     (\<forall>b < 10. chain (ld32 (mem s)) (bin_head s ! b) (busy b) \<and> distinct (busy b) \<and>
        set (busy b) = {p. \<exists>fs. fs \<noteq> [] \<and> A p = Some (Small b fs)})"

definition newest_ok :: "'a kheap_scheme \<Rightarrow> (u32 \<Rightarrow> chunk option) \<Rightarrow> bool" where
  "newest_ok s A \<longleftrightarrow> newest_big s = 0 \<or> (\<exists>n f. A (newest_big s) = Some (Big n f))"

definition heap_ok :: "'a kheap_scheme \<Rightarrow> (u32 \<Rightarrow> chunk option) \<Rightarrow> u32 list \<Rightarrow> (u32 \<Rightarrow> nat) \<Rightarrow>
    (nat \<Rightarrow> u32 list) \<Rightarrow> bool" where
  "heap_ok s A ns lv busy \<longleftrightarrow> chunks_ok s A \<and> chunks_apart A \<and> skip_list s ns lv \<and>
     set ns = {p. \<exists>n. A p = Some (Big n True)} \<and> bins_ok s A busy \<and> newest_ok s A \<and>
     heap_end s mod 0x1000 = 0"

lemma chunks_okD:
  "chunks_ok s A \<Longrightarrow> A p = Some c \<Longrightarrow> chunk_ok (mem s) p c"
  "chunks_ok s A \<Longrightarrow> A p = Some c \<Longrightarrow> unat p + chunk_len c \<le> unat (heap_end s)"
  "chunks_ok s A \<Longrightarrow> A p = Some c \<Longrightarrow> words p (chunk_len c) \<inter> words (big_head s) 44 = {}"
  unfolding chunks_ok_def by blast+

lemma chunks_apartD:
  "chunks_apart A \<Longrightarrow> A p = Some c \<Longrightarrow> A q = Some d \<Longrightarrow> p \<noteq> q \<Longrightarrow>
    words p (chunk_len c) \<inter> words q (chunk_len d) = {}"
  unfolding chunks_apart_def by blast

lemma bins_okD:
  "bins_ok s A busy \<Longrightarrow> length (bin_head s) = 10"
  "bins_ok s A busy \<Longrightarrow> b < 10 \<Longrightarrow> chain (ld32 (mem s)) (bin_head s ! b) (busy b)"
  "bins_ok s A busy \<Longrightarrow> b < 10 \<Longrightarrow> distinct (busy b)"
  "bins_ok s A busy \<Longrightarrow> b < 10 \<Longrightarrow> p \<in> set (busy b) \<longleftrightarrow> (\<exists>fs. fs \<noteq> [] \<and> A p = Some (Small b fs))"
  unfolding bins_ok_def by simp_all

lemma heap_okD:
  assumes "heap_ok s A ns lv busy"
  shows "chunks_ok s A" "chunks_apart A" "skip_list s ns lv" "set ns = {p. \<exists>n. A p = Some (Big n True)}"
    "bins_ok s A busy" "newest_ok s A" "heap_end s mod 0x1000 = 0"
  using assms unfolding heap_ok_def by blast+

text \<open>One chunk has changed, or come into being.\<close>

lemma chunks_update:
  assumes ok: "chunks_ok s A" "chunks_apart A" and same: "same_words W (mem s) (mem s')"
    and meta: "\<And>q c. A q = Some c \<Longrightarrow> q \<noteq> p \<Longrightarrow> W \<inter> chunk_meta q c = {}"
    and new: "chunk_ok (mem s') p c'"
    and place: "unat p + chunk_len c' \<le> unat (heap_end s')" "unat (heap_end s) \<le> unat (heap_end s')"
      "words p (chunk_len c') \<inter> words (big_head s) 44 = {}"
      "\<And>q c. A q = Some c \<Longrightarrow> q \<noteq> p \<Longrightarrow> words p (chunk_len c') \<inter> words q (chunk_len c) = {}"
    and head: "big_head s' = big_head s"
  shows "chunks_ok s' (A(p \<mapsto> c')) \<and> chunks_apart (A(p \<mapsto> c'))"
proof
  show "chunks_ok s' (A(p \<mapsto> c'))"
    unfolding chunks_ok_def head
  proof (intro allI impI)
    fix q c assume q: "(A(p \<mapsto> c')) q = Some c"
    show "chunk_ok (mem s') q c \<and> unat q + chunk_len c \<le> unat (heap_end s') \<and>
      words q (chunk_len c) \<inter> words (big_head s) 44 = {}"
    proof (cases "q = p")
      case True
      then have "c = c'" using q by simp
      then show ?thesis using True new place(1,3) by blast
    next
      case False
      then have A: "A q = Some c" using q by simp
      have "chunk_ok (mem s') q c"
        using chunks_okD(1) [OF ok(1) A] same meta [OF A False] by (rule chunk_ok_frame)
      then show ?thesis
        using chunks_okD(2,3) [OF ok(1) A] order_trans [OF _ place(2)] by blast
    qed
  qed
  show "chunks_apart (A(p \<mapsto> c'))"
    unfolding chunks_apart_def
  proof (intro allI impI)
    fix q c r d assume *: "(A(p \<mapsto> c')) q = Some c" "(A(p \<mapsto> c')) r = Some d" "q \<noteq> r"
    show "words q (chunk_len c) \<inter> words r (chunk_len d) = {}"
    proof (cases "q = p")
      case True
      then have "c = c'" "A r = Some d" "r \<noteq> p" using * by auto
      then show ?thesis using place(4) [of r d] True by simp
    next
      case False
      then have A: "A q = Some c" using * by simp
      show ?thesis
      proof (cases "r = p")
        case True
        then have "d = c'" using * by simp
        then show ?thesis using place(4) [OF A False] True by (simp add: Int_commute)
      next
        case False
        then have "A r = Some d" using * by simp
        then show ?thesis using chunks_apartD [OF ok(2) A _ *(3)] by blast
      qed
    qed
  qed
qed

text \<open>The skip list does not depend on anything but its headers, and not on their first words.\<close>

lemma skip_list_frame_first:
  assumes "skip_list s ns lv" and same: "same_words W (mem s) (mem s')"
    and apart: "\<And>p. p \<in> insert (big_head s) (set ns) \<Longrightarrow> W \<inter> (words p 44 - {p}) = {}"
    and fields: "big_head s' = big_head s" "big_level s' = big_level s"
  shows "skip_list s' ns lv"
proof -
  let ?H = "insert (big_head s) (set ns)"
  have H: "headers ?H" using assms(1) unfolding skip_list_def by blast
  have eq: "word_at (mem s') p k = word_at (mem s) p k" if "p \<in> ?H" "0 < k" "k < 11" for p k
  proof -
    have p: "al4 p" using H that(1) unfolding headers_def by blast
    then have "p + 4 * of_nat k \<in> words p 44" using that(3) by (intro header_word_in) simp_all
    moreover have "p + 4 * of_nat k \<noteq> p"
    proof
      assume "p + 4 * of_nat k = p"
      then have "(of_nat (4 * k) :: u32) = of_nat 0" by simp
      then have "4 * k = 0" using that(3) by (subst (asm) of_nat_inject_small) simp_all
      then show False using that(2) by simp
    qed
    ultimately show ?thesis using same_wordsD [OF same al4_word [OF p]] apart [OF that(1)]
      unfolding word_at_def by blast
  qed
  have sz: "hdr_size (mem s') p = hdr_size (mem s) p" if "p \<in> ?H" for p
    unfolding hdr_words using eq [OF that] by simp
  have fits: "size_fits (mem s') p = size_fits (mem s) p" if "p \<in> ?H" for p
    unfolding size_fits_def sz [OF that] ..
  have link: "linked (\<lambda>q. fwd (mem s') q i) (big_head s) (level_list lv i ns) =
      linked (\<lambda>q. fwd (mem s) q i) (big_head s) (level_list lv i ns)" if "i \<le> 6" for i
  proof (rule linked_fwd_cong [OF H])
    show "set (big_head s # level_list lv i ns) \<subseteq> ?H" by (auto simp: set_level_list)
    show "fwd (mem s') q i = fwd (mem s) q i" if "q \<in> ?H" for q
      unfolding hdr_words using eq [OF that] \<open>i \<le> 6\<close> by simp
  qed
  have map: "map (hdr_size (mem s')) ns = map (hdr_size (mem s)) ns" using sz by simp
  have all: "(\<forall>n \<in> set ns. lv n \<le> big_level s \<and> n mod 0x1000 = 0 \<and> size_fits (mem s') n) =
      (\<forall>n \<in> set ns. lv n \<le> big_level s \<and> n mod 0x1000 = 0 \<and> size_fits (mem s) n)"
    using fits by (intro ball_cong refl) simp
  show ?thesis
    using assms(1) link unfolding skip_list_def fields map all by blast
qed

lemma skip_list_frame:
  assumes "skip_list s ns lv" and "same_words W (mem s) (mem s')"
    and "\<And>p. p \<in> insert (big_head s) (set ns) \<Longrightarrow> W \<inter> words p 44 = {}"
    and "big_head s' = big_head s" and "big_level s' = big_level s"
  shows "skip_list s' ns lv"
  using assms(1,2) _ assms(4,5) by (rule skip_list_frame_first) (use assms(3) in blast)

end
