(* ===== verification/HeapOps.thy ===== *)
theory HeapOps
  imports HeapInv
begin

text \<open>
  What taking a cell or a free big block from the heap and giving it back do to the chunks, and
  that the invariant of the heap survives.
\<close>

section \<open>Pages of cells\<close>

lemma other_chunk:
  assumes "chunks_ok s A" and "chunks_apart A" and "A p = Some c" and "A q = Some d" and "p \<noteq> q"
  shows "words p (chunk_len c) \<inter> chunk_meta q d = {}" and "q \<notin> words p (chunk_len c)"
    and "words p (chunk_len c) \<inter> words q 44 = {}"
proof -
  have q: "chunk_ok (mem s) q d" using chunks_okD(1) [OF assms(1,4)] .
  have "words p (chunk_len c) \<inter> words q (chunk_len d) = {}"
    using chunks_apartD [OF assms(2-5)] .
  then show "words p (chunk_len c) \<inter> chunk_meta q d = {}" "q \<notin> words p (chunk_len c)"
    "words p (chunk_len c) \<inter> words q 44 = {}"
    using meta_in_chunk [OF q] header_fields_in_chunk(1,6) [OF q] by blast+
qed

lemma skip_apart:
  assumes ok: "heap_ok s A ns lv busy" and "A p = Some c"
    and "q \<in> insert (big_head s) (set ns - {p})"
  shows "words p (chunk_len c) \<inter> words q 44 = {}"
proof (cases "q = big_head s")
  case True
  then show ?thesis using chunks_okD(3) [OF heap_okD(1) [OF ok] assms(2)] by simp
next
  case False
  then have q: "q \<in> set ns" "p \<noteq> q" using assms(3) by blast+
  then obtain n where "A q = Some (Big n True)" using heap_okD(4) [OF ok] by blast
  then show ?thesis using other_chunk(3) [OF heap_okD(1,2) [OF ok] assms(2)] q(2) by blast
qed

lemma busy_apart:
  assumes ok: "heap_ok s A ns lv busy" and "A p = Some c" and "b < 10" and "q \<in> set (busy b)" and "q \<noteq> p"
  shows "al4 q" and "q \<notin> words p (chunk_len c)"
proof -
  note parts = heap_okD [OF ok]
  obtain gs where q: "A q = Some (Small b gs)"
    using bins_okD(4) [OF parts(5) assms(3), THEN iffD1, OF assms(4)] by blast
  show "al4 q" using chunk_okD(4) [OF chunks_okD(1) [OF parts(1) q]] .
  show "q \<notin> words p (chunk_len c)" using other_chunk(2) [OF parts(1,2) assms(2) q] assms(5) by blast
qed

lemma heap_ok_small:
  assumes ok: "heap_ok s A ns lv busy" and A: "A p = Some (Small b fs)"
    and same: "same_words W (mem s) (mem s')" and W: "W \<subseteq> words p 0x1000"
    and new: "chunk_ok (mem s') p (Small b fs')"
    and bins: "length (bin_head s') = 10" "\<And>c. c \<noteq> b \<Longrightarrow> bin_head s' ! c = bin_head s ! c"
      "chain (ld32 (mem s')) (bin_head s' ! b) bs" "distinct bs"
      "\<And>q. q \<in> set bs \<longleftrightarrow> (if q = p then fs' \<noteq> [] else q \<in> set (busy b))"
    and fields: "big_head s' = big_head s" "big_level s' = big_level s" "newest_big s' = newest_big s"
      "heap_end s' = heap_end s"
  shows "heap_ok s' (A(p \<mapsto> Small b fs')) ns lv (busy(b := bs))"
proof -
  note parts = heap_okD [OF ok]
  let ?A = "A(p \<mapsto> Small b fs')"
  have W': "W \<subseteq> words p (chunk_len (Small b fs))" using W by simp
  have pns: "p \<notin> set ns" using parts(4) A by simp
  have old: "chunk_ok (mem s) p (Small b fs)" using chunks_okD(1) [OF parts(1) A] .
  have chunks: "chunks_ok s' ?A \<and> chunks_apart ?A"
  proof (rule chunks_update [OF parts(1,2) same _ new])
    show "W \<inter> chunk_meta q c = {}" if "A q = Some c" "q \<noteq> p" for q c
      using other_chunk(1) [OF parts(1,2) A that(1) that(2) [symmetric]] W' by blast
    show "unat p + chunk_len (Small b fs') \<le> unat (heap_end s')"
      using chunks_okD(2) [OF parts(1) A] unfolding fields(4) by simp
    show "words p (chunk_len (Small b fs')) \<inter> words (big_head s) 44 = {}"
      using chunks_okD(3) [OF parts(1) A] by simp
    show "words p (chunk_len (Small b fs')) \<inter> words q (chunk_len c) = {}" if "A q = Some c" "q \<noteq> p" for q c
      using chunks_apartD [OF parts(2) A that(1)] that(2) by simp
  qed (use fields in simp_all)
  have skip: "skip_list s' ns lv"
  proof (rule skip_list_frame [OF parts(3) same])
    show "W \<inter> words q 44 = {}" if "q \<in> insert (big_head s) (set ns)" for q
      using skip_apart [OF ok A, of q] that pns W' by blast
  qed (use fields in simp_all)
  have big: "(?A q = Some (Big n f)) = (A q = Some (Big n f))" for q n f using A by simp
  have bins': "bins_ok s' ?A (busy(b := bs))"
    unfolding bins_ok_def
  proof (intro conjI allI impI)
    fix c :: nat assume c: "c < 10"
    note bin = bins_okD [OF parts(5)]
    show "chain (ld32 (mem s')) (bin_head s' ! c) ((busy(b := bs)) c)"
    proof (cases "c = b")
      case False
      have "ld32 (mem s') q = ld32 (mem s) q" if q: "q \<in> set (busy c)" for q
      proof -
        have "q \<noteq> p" using bin(4) [OF c, THEN iffD1, OF q] A False by auto
        then have "al4 q" "q \<notin> W" using busy_apart [OF ok A c q] W' by blast+
        then show ?thesis by (rule same_wordsD [OF same])
      qed
      then have "chain (ld32 (mem s')) (bin_head s ! c) (busy c) = chain (ld32 (mem s)) (bin_head s ! c) (busy c)"
        by (rule chain_cong)
      then show ?thesis using bin(2) [OF c] bins(2) [OF False] False by simp
    qed (use bins(3) in simp)
    show "distinct ((busy(b := bs)) c)" using bins(4) bin(3) [OF c] by simp
    show "set ((busy(b := bs)) c) = {q. \<exists>fs. fs \<noteq> [] \<and> ?A q = Some (Small c fs)}"
    proof (rule set_eqI)
      fix q
      show "q \<in> set ((busy(b := bs)) c) \<longleftrightarrow> q \<in> {q. \<exists>fs. fs \<noteq> [] \<and> ?A q = Some (Small c fs)}"
        using bin(4) [OF c, of q] bins(5) [of q] A by (cases "q = p"; cases "c = b") auto
    qed
  qed (rule bins(1))
  have "newest_ok s' ?A" using parts(6) big unfolding newest_ok_def fields(3) by simp
  then show ?thesis
    unfolding heap_ok_def fields(4) using chunks skip bins' parts(4,7) big by simp
qed

lemma linked_pop:
  assumes "linked f x (q # fs)" and "g y = f q" and "\<And>z. z \<in> set fs \<Longrightarrow> g z = f z"
  shows "linked g y fs"
proof (cases fs)
  case Nil
  then show ?thesis using assms by simp
next
  case (Cons r rs)
  have "linked g r rs = linked f r rs" using assms(3) Cons by (intro linked_cong) auto
  then show ?thesis using assms(1,2) Cons by simp
qed

lemma linked_push:
  assumes "linked f x fs" and "g q = f x" and "g y = q" and "q \<noteq> 0" and "\<And>z. z \<in> set fs \<Longrightarrow> g z = f z"
  shows "linked g y (q # fs)"
proof (cases fs)
  case Nil
  then show ?thesis using assms by simp
next
  case (Cons r rs)
  have "linked g r rs = linked f r rs" using assms(5) Cons by (intro linked_cong) auto
  then show ?thesis using assms(1-4) Cons by simp
qed

lemma small_page:
  assumes "chunk_ok m p (Small b fs)"
  shows "al4 p" "al4 (p + 4)" "p \<in> words p 0x1000" "p + 4 \<in> words p 0x1000" "p \<notin> cells p b"
    "p + 4 \<notin> cells p b" "p + 8 \<notin> cells p b" "0 \<notin> cells p b" "cells p b \<subseteq> words p 0x1000" "p \<noteq> p + 4"
proof -
  have p: "al4 p" "unat p + 0x1000 \<le> 2 ^ 32" "b < 10" using chunk_okD(4) [OF assms] assms by simp_all
  note hdr = header_fields_in_chunk [OF assms] header_not_after [OF p(2,1)]
  have in_page: "cells p b \<subseteq> words (p + 12) 4084" using cell_in_page(1) [OF p(1,3,2)] by blast
  show "al4 p" by (rule p)
  show "al4 (p + 4)" using p(1) by (rule al4_add) (rule al4_4)
  show "p \<in> words p 0x1000" "p + 4 \<in> words p 0x1000" using hdr(1,2) by simp_all
  show "p \<notin> cells p b" "p + 4 \<notin> cells p b" "p + 8 \<notin> cells p b" using in_page hdr(7-9) by blast+
  show "cells p b \<subseteq> words p 0x1000" using cell_in_page(2) [OF p(1,3,2)] by blast
  show "0 \<notin> cells p b"
  proof
    assume "0 \<in> cells p b"
    then obtain i where i: "i \<le> cells_available b" "0 = p + of_nat (12 + i * 2 ^ (b + 2))"
      by (auto simp: cells_def cell_addr_def)
    have "0 < (2::nat) ^ (b + 2)" by simp
    then have "unat p + (12 + i * 2 ^ (b + 2)) < 2 ^ 32" using cell_offset [OF p(3) i(1)] p(2) by linarith
    then have "unat (0 :: u32) = unat p + (12 + i * 2 ^ (b + 2))" unfolding i(2) by (rule unat_add_small)
    then show False by simp
  qed
  show "p \<noteq> p + 4" by simp
qed

lemma pop_small:
  assumes ok: "heap_ok s A ns lv busy" and b: "b < 10" and first: "busy b = p # ps"
    and A: "A p = Some (Small b (q # fs))"
  shows "\<exists>s' busy'. klmalloc_small b s = ret (q, s') \<and> heap_ok s' (A(p \<mapsto> Small b fs)) ns lv busy' \<and>
    same_words {p, p + 4} (mem s) (mem s')"
proof -
  note parts = heap_okD [OF ok]
  note bin = bins_okD [OF parts(5)]
  have chunk: "chunk_ok (mem s) p (Small b (q # fs))" using chunks_okD(1) [OF parts(1) A] .
  note page = small_page [OF chunk]
  have chain: "bin_head s ! b = p" "p \<noteq> 0" "chain (ld32 (mem s)) (ld32 (mem s) p) ps"
    using bin(2) [OF b] first by simp_all
  have link: "linked (ld32 (mem s)) (p + 4) (q # fs)" and dist: "distinct (q # fs)" "set (q # fs) \<subseteq> cells p b"
    using chunk by simp_all
  then have head: "hdr_head (mem s) p = q" "q \<noteq> 0" by (simp_all add: hdr_head_def)
  define m1 where "m1 = st32 (mem s) (p + 4) (ld32 (mem s) q)"
  have head1: "hdr_head m1 p = ld32 (mem s) q" by (simp add: hdr_head_def m1_def)
  have pop: "klmalloc_stack_pop p s = ret (q, s\<lparr>mem := m1\<rparr>)"
    using chain(2) head by (simp add: klmalloc_stack_pop_def m1_def)
  have same1: "same_words {p + 4} (mem s) m1" unfolding m1_def using page(2) by (rule same_words_at)
  have "ld32 (mem s) q = (case fs of [] \<Rightarrow> 0 | r # _ \<Rightarrow> r)" using link by (cases fs) auto
  moreover have "0 \<notin> set fs" using dist(2) page(8) by auto
  ultimately have empty: "ld32 (mem s) q = 0 \<longleftrightarrow> fs = []" by (cases fs) auto
  have new: "chunk_ok m' p (Small b fs)" if same: "same_words {p, p + 4} (mem s) m'"
    and at: "ld32 m' (p + 4) = ld32 (mem s) q" for m'
  proof -
    have cell: "ld32 m' z = ld32 (mem s) z" if "z \<in> set fs" for z
      using same_wordsD [OF same] al4_cell [OF page(1)] page(5,6) that dist(2) by auto
    have "p + 8 \<notin> {p, p + 4}" by simp
    then have "hdr_size m' p = hdr_size (mem s) p"
      using same_wordsD [OF same, of "p + 8"] page(1) al4_word [of p 2] unfolding hdr_size_def by simp
    moreover have "linked (ld32 m') (p + 4) fs" using link at cell by (rule linked_pop)
    ultimately show ?thesis using chunk by simp
  qed
  show ?thesis
  proof (cases "fs = []")
    case True
    define s' where "s' = klmalloc_list_decouple b p (s\<lparr>mem := m1\<rparr>)"
    have s': "mem s' = st32 m1 p 0" "bin_head s' = (bin_head s)[b := hdr_next m1 p]"
      by (simp_all add: s'_def klmalloc_list_decouple_def)
    have nxt: "hdr_next m1 p = ld32 (mem s) p"
      using same_wordsD [OF same1 page(1)] page(10) by (simp add: hdr_next_def)
    have "same_words {p} m1 (mem s')" unfolding s'(1) using page(1) by (rule same_words_at)
    then have same: "same_words {p, p + 4} (mem s) (mem s')"
      using same_words_un [OF same1, of "{p}" "mem s'"] by (simp add: insert_commute)
    have "p \<notin> {p + 4}" by simp
    then have at: "ld32 (mem s') (p + 4) = ld32 (mem s) q"
      unfolding s'(1) using head1 page(1,2,10) by (simp add: ld32_st32_aligned hdr_head_def)
    have chain': "chain (ld32 (mem s')) (bin_head s' ! b) ps"
    proof -
      have "ld32 (mem s') r = ld32 (mem s) r" if "r \<in> set ps" for r
      proof -
        have "r \<in> set (busy b)" "r \<noteq> p" using that first bin(3) [OF b] by auto
        then have r: "al4 r" "r \<notin> words p 0x1000" using busy_apart [OF ok A b] by simp_all
        then have "r \<notin> {p, p + 4}" using page(3,4) by blast
        with r(1) show ?thesis by (rule same_wordsD [OF same])
      qed
      then have "chain (ld32 (mem s')) (ld32 (mem s) p) ps = chain (ld32 (mem s)) (ld32 (mem s) p) ps"
        by (rule chain_cong)
      then show ?thesis using chain(3) bin(1) b by (simp add: s'(2) nxt)
    qed
    have "heap_ok s' (A(p \<mapsto> Small b fs)) ns lv (busy(b := ps))"
    proof (rule heap_ok_small [OF ok A same _ new [OF same at] _ _ chain'])
      show "{p, p + 4} \<subseteq> words p 0x1000" using page(3,4) by simp
      show "distinct ps" using bin(3) [OF b] first by simp
      show "r \<in> set ps \<longleftrightarrow> (if r = p then fs \<noteq> [] else r \<in> set (busy b))" for r
        using bin(3) [OF b] first True by auto
    qed (use bin(1) in \<open>simp_all add: s'_def klmalloc_list_decouple_def\<close>)
    moreover have "klmalloc_small b s = ret (q, s')"
      using chain(1,2) pop empty True head1
      by (simp add: klmalloc_small_def klmalloc_list_head_def klmalloc_stack_empty_def s'_def)
    ultimately show ?thesis using same by blast
  next
    case False
    define s' where "s' = s\<lparr>mem := m1\<rparr>"
    have same: "same_words {p, p + 4} (mem s) (mem s')"
      using same_words_mono [OF same1, of "{p, p + 4}"] by (simp add: s'_def)
    have at: "ld32 (mem s') (p + 4) = ld32 (mem s) q" using head1 by (simp add: hdr_head_def s'_def)
    have chain': "chain (ld32 (mem s')) (bin_head s' ! b) (busy b)"
    proof -
      have "ld32 (mem s') r = ld32 (mem s) r" if r: "r \<in> set (busy b)" for r
      proof (cases "r = p")
        case True
        then show ?thesis using same_wordsD [OF same1 page(1)] by (simp add: s'_def)
      next
        case False
        then have r: "al4 r" "r \<notin> words p 0x1000" using busy_apart [OF ok A b r] by simp_all
        then have "r \<notin> {p + 4}" using page(4) by blast
        with r(1) show ?thesis using same_wordsD [OF same1] by (simp add: s'_def)
      qed
      then have "chain (ld32 (mem s')) (bin_head s ! b) (busy b) = chain (ld32 (mem s)) (bin_head s ! b) (busy b)"
        by (rule chain_cong)
      then show ?thesis using bin(2) [OF b] by (simp add: s'_def)
    qed
    have "heap_ok s' (A(p \<mapsto> Small b fs)) ns lv (busy(b := busy b))"
    proof (rule heap_ok_small [OF ok A same _ new [OF same at] _ _ chain'])
      show "{p, p + 4} \<subseteq> words p 0x1000" using page(3,4) by simp
      show "distinct (busy b)" using bin(3) [OF b] .
      show "r \<in> set (busy b) \<longleftrightarrow> (if r = p then fs \<noteq> [] else r \<in> set (busy b))" for r
        using first False by auto
    qed (use bin(1) in \<open>simp_all add: s'_def\<close>)
    moreover have "klmalloc_small b s = ret (q, s')"
      using chain(1,2) pop empty False head1
      by (simp add: klmalloc_small_def klmalloc_list_head_def klmalloc_stack_empty_def s'_def)
    ultimately show ?thesis using same by blast
  qed
qed

lemma block_header_offset:
  assumes "p mod 0x1000 = 0" and "unat p + 0x1000 \<le> 2 ^ 32" and "k < 0x1000"
  shows "block_header (p + of_nat k) = p"
proof -
  have p: "unat p mod 0x1000 = 0" using assms(1) by (simp add: word_unat_eq_iff unat_mod_distrib)
  have "unat (p + of_nat k) = unat p + k" using assms(2,3) by (intro unat_add_small) linarith
  moreover obtain c where "unat p = 0x1000 * c" using p by (auto simp: mod_eq_0_iff_dvd)
  ultimately have "unat (p + of_nat k) div 0x1000 * 0x1000 = unat p" using assms(3) by simp
  moreover have "(NOT 0xFFF :: u32) = 0xFFFFF000" by simp
  ultimately have "unat (block_header (p + of_nat k)) = unat p"
    unfolding block_header_def by (simp only: unat_align_down)
  then show ?thesis by (simp only: word_unat_eq_iff)
qed

lemma cell_header:
  assumes "chunk_ok m p (Small b fs)" and "q \<in> cells p b"
  shows "block_header q = p"
proof -
  obtain i where i: "i \<le> cells_available b" "q = p + of_nat (12 + i * 2 ^ (b + 2))"
    using assms(2) by (auto simp: cells_def cell_addr_def)
  have b: "b < 10" "unat p + 0x1000 \<le> 2 ^ 32" using assms(1) by simp_all
  have "0 < (2::nat) ^ (b + 2)" by simp
  then have "12 + i * 2 ^ (b + 2) < 0x1000" using cell_offset [OF b(1) i(1)] by linarith
  then show ?thesis unfolding i(2) using chunk_okD(2) [OF assms(1)] b(2)
    by (intro block_header_offset)
qed

lemma push_small:
  assumes ok: "heap_ok s A ns lv busy" and A: "A p = Some (Small b fs)"
    and q: "q \<in> cells p b" "q \<notin> set fs"
  shows "\<exists>s' busy'. klfree q s = ret s' \<and> heap_ok s' (A(p \<mapsto> Small b (q # fs))) ns lv busy' \<and>
    same_words {p, p + 4, q} (mem s) (mem s')"
proof -
  note parts = heap_okD [OF ok]
  note bin = bins_okD [OF parts(5)]
  have chunk: "chunk_ok (mem s) p (Small b fs)" using chunks_okD(1) [OF parts(1) A] .
  note page = small_page [OF chunk]
  have b: "b < 10" using chunk by simp
  have link: "linked (ld32 (mem s)) (p + 4) fs" "distinct fs" "set fs \<subseteq> cells p b" using chunk by simp_all
  have q0: "q \<noteq> 0" "q \<noteq> p" "q \<noteq> p + 4" "q \<noteq> p + 8" using q(1) page(5-8) by auto
  have al: "al4 q" "al4 p" "al4 (p + 4)" "al4 (p + 8)"
    using al4_cell [OF page(1) q(1)] page(1,2) al4_word [OF page(1), of 2] by simp_all
  have "ld32 (mem s) (p + 4) = (case fs of [] \<Rightarrow> 0 | r # _ \<Rightarrow> r)" using linked_first [OF link(1)] .
  moreover have "0 \<notin> set fs" using link(3) page(8) by auto
  ultimately have empty: "hdr_head (mem s) p = 0 \<longleftrightarrow> fs = []" by (cases fs) (auto simp: hdr_head_def)
  define s1 where "s1 = (if fs = [] then klmalloc_list_insert b p s else s)"
  have s1: "ld32 (mem s1) (p + 4) = ld32 (mem s) (p + 4)" "same_words {p} (mem s) (mem s1)"
    "bin_head s1 = (if fs = [] then (bin_head s)[b := p] else bin_head s)"
    "big_head s1 = big_head s" "big_level s1 = big_level s" "newest_big s1 = newest_big s" "heap_end s1 = heap_end s"
    using al(2,3) page(10) same_words_at [OF al(2)]
    by (simp_all add: s1_def klmalloc_list_insert_def ld32_st32_aligned)
  define m2 where "m2 = st32 (mem s1) q (hdr_head (mem s1) p)"
  define s' where "s' = s1\<lparr>mem := st32 m2 (p + 4) q\<rparr>"
  have "same_words {q} (mem s1) m2" "same_words {p + 4} m2 (mem s')"
    unfolding s'_def m2_def using al by (simp_all add: same_words_at)
  from same_words_un [OF same_words_un [OF s1(2) this(1)] this(2)]
  have same: "same_words {p, p + 4, q} (mem s) (mem s')" by (simp add: insert_commute)
  have at: "ld32 (mem s') (p + 4) = q" "ld32 (mem s') q = ld32 (mem s) (p + 4)"
    using al q0 s1(1) by (simp_all add: s'_def m2_def ld32_st32_aligned hdr_head_def)
  have next_p: "ld32 (mem s') p = ld32 (mem s1) p"
    using al q0 page(10) by (simp add: s'_def m2_def ld32_st32_aligned)
  have new: "chunk_ok (mem s') p (Small b (q # fs))"
  proof -
    have cell: "ld32 (mem s') z = ld32 (mem s) z" if "z \<in> set fs" for z
    proof -
      have "z \<in> cells p b" using that link(3) by blast
      then show ?thesis using same_wordsD [OF same] al4_cell [OF page(1)] page(5,6) that q(2) by auto
    qed
    have "p + 8 \<notin> {p, p + 4, q}" using q0 by auto
    then have "hdr_size (mem s') p = hdr_size (mem s) p"
      using same_wordsD [OF same al(4)] unfolding hdr_size_def by blast
    moreover have "linked (ld32 (mem s')) (p + 4) (q # fs)"
      using link(1) at(2,1) q0(1) cell by (rule linked_push)
    ultimately show ?thesis using chunk q by simp
  qed
  define bs where "bs = (if fs = [] then p # busy b else busy b)"
  have pbusy: "p \<in> set (busy b) \<longleftrightarrow> fs \<noteq> []" using bin(4) [OF b, of p] A by simp
  have kept: "chain (ld32 (mem s')) a (busy b) = chain (ld32 (mem s)) a (busy b)" for a
  proof (rule chain_cong)
    fix r assume r: "r \<in> set (busy b)"
    show "ld32 (mem s') r = ld32 (mem s) r"
    proof (cases "r = p")
      case True
      then have "fs \<noteq> []" using r pbusy by simp
      then show ?thesis using next_p True by (simp add: s1_def)
    next
      case False
      then have "al4 r" "r \<notin> words p 0x1000" using busy_apart [OF ok A b r] by simp_all
      then show ?thesis using page(3,4,9) q(1) by (intro same_wordsD [OF same]) auto
    qed
  qed
  have chain': "chain (ld32 (mem s')) (bin_head s' ! b) bs"
  proof (cases "fs = []")
    case True
    have "ld32 (mem s') p = bin_head s ! b" using next_p True by (simp add: s1_def klmalloc_list_insert_def)
    then show ?thesis using kept bin(1,2) b True chunk by (simp add: bs_def s'_def s1(3))
  next
    case False
    then show ?thesis using kept bin(2) [OF b] by (simp add: bs_def s'_def s1(3))
  qed
  have "heap_ok s' (A(p \<mapsto> Small b (q # fs))) ns lv (busy(b := bs))"
  proof (rule heap_ok_small [OF ok A same _ new _ _ chain'])
    show "{p, p + 4, q} \<subseteq> words p 0x1000" using page(3,4,9) q(1) by auto
    show "distinct bs" using bin(3) [OF b] pbusy by (simp add: bs_def)
    show "r \<in> set bs \<longleftrightarrow> (if r = p then q # fs \<noteq> [] else r \<in> set (busy b))" for r
      using pbusy by (auto simp: bs_def)
  qed (use bin(1) s1 in \<open>simp_all add: s'_def\<close>)
  moreover have "klfree q s = ret s'"
  proof -
    have "unat (of_nat b :: u32) = b" using b by (intro unat_of_nat_small) simp
    then have sz: "hdr_size (mem s) p = of_nat b" "\<not> of_nat b > NUM_BINS" "of_nat b < BIG_BIN"
      "unat (of_nat b :: u32) = b"
      using chunk b by (simp_all add: word_less_nat_alt NUM_BINS_def BIG_BIN_def)
    have "klmalloc_stack_push p q s1 = ret s'"
      using q0(1) by (simp add: klmalloc_stack_push_def s'_def m2_def)
    then show ?thesis
      using q0(1) chunk_okD(2) [OF chunk] cell_header [OF chunk q(1)] sz empty
      by (cases "fs = []") (simp_all add: klfree_def klmalloc_stack_empty_def s1_def Let_def)
  qed
  ultimately show ?thesis using same by blast
qed

section \<open>Big blocks\<close>

lemma above_at_first:
  assumes "sorted (map (hdr_size m) ns)" and "above m sz ns = p # as"
  shows "above m (hdr_size m p) ns = p # as" and "below m (hdr_size m p) ns = below m sz ns"
proof -
  let ?P = "\<lambda>n. hdr_size m n < hdr_size m p"
  have ns: "ns = below m sz ns @ p # as" using below_above [of m sz ns] assms(2) by simp
  have "sz \<le> hdr_size m p" using above_large(1) [OF assms(1), of p sz] assms(2) by simp
  then have small: "?P n" if "n \<in> set (below m sz ns)" for n
    using below_small [OF that] by (auto intro: order_less_le_trans)
  have "dropWhile ?P (below m sz ns @ p # as) = p # as" "takeWhile ?P (below m sz ns @ p # as) = below m sz ns"
    using small by (simp_all add: dropWhile_append2 takeWhile_append2)
  then show "above m (hdr_size m p) ns = p # as" "below m (hdr_size m p) ns = below m sz ns"
    unfolding above_def [of m "hdr_size m p"] below_def [of m "hdr_size m p"] using ns by simp_all
qed

text \<open>The words the operations on the big block \<open>p\<close> write.\<close>

definition big_words :: "'a kheap_scheme \<Rightarrow> u32 list \<Rightarrow> u32 \<Rightarrow> u32 set" where
  "big_words s ns p = fwd_words (insert (big_head s) (insert p (set ns))) \<union> {p + 4, p + 44}"

lemma heap_header_al4:
  assumes "heap_ok s A ns lv busy" and "q \<in> insert (big_head s) (set ns)"
  shows "al4 q"
proof -
  have "headers (insert (big_head s) (set ns))"
    using heap_okD(3) [OF assms(1)] unfolding skip_list_def by blast
  then show ?thesis using assms(2) unfolding headers_def by blast
qed

lemma big_words_apart:
  assumes ok: "heap_ok s A ns lv busy" and A: "A p = Some (Big n f)" and q: "A q = Some c" "q \<noteq> p"
  shows "big_words s ns p \<inter> chunk_meta q c = {}" and "(\<exists>b fs. c = Small b fs) \<Longrightarrow> q \<notin> big_words s ns p"
proof -
  note parts = heap_okD [OF ok]
  have chunk: "chunk_ok (mem s) q c" "chunk_ok (mem s) p (Big n f)"
    using chunks_okD(1) [OF parts(1)] q(1) A by blast+
  have H: "al4 r" if "r \<in> insert (big_head s) (insert p (set ns))" for r
    using that heap_header_al4 [OF ok] chunk_okD(4) [OF chunk(2)] by blast
  have other: "words r 44 \<inter> words q (chunk_len c) = {}"
    if r: "r \<in> insert (big_head s) (insert p (set ns))" and "r \<noteq> q" for r
  proof (cases "r = big_head s")
    case True
    then show ?thesis using chunks_okD(3) [OF parts(1) q(1)] by (simp add: Int_commute)
  next
    case False
    then have "r = p \<or> r \<in> set ns" using r by blast
    then obtain k g where "A r = Some (Big k g)" using A parts(4) by blast
    then show ?thesis using other_chunk(3) [OF parts(1,2) q(1)] that(2) by (simp add: Int_commute)
  qed
  have own: "{p + 4, p + 44} \<inter> words q (chunk_len c) = {}"
    using chunks_apartD [OF parts(2) A q(1)] q(2) header_fields_in_chunk(2,5) [OF chunk(2)] by blast
  have fwd: "x \<notin> chunk_meta q c" if x: "x \<in> fwd_words (insert (big_head s) (insert p (set ns)))" for x
  proof
    assume meta: "x \<in> chunk_meta q c"
    then have "x \<in> words q (chunk_len c)" using meta_in_chunk [OF chunk(1)] by blast
    obtain r where r: "r \<in> insert (big_head s) (insert p (set ns))" "x \<in> words r 44" "x \<noteq> r" "x \<noteq> r + 4" "x \<noteq> r + 8"
      using fwd_words_in_header [OF x H] by blast
    then have rq: "r = q" using other [OF r(1)] \<open>x \<in> words q (chunk_len c)\<close> by blast
    then have "q \<in> set ns \<or> q = big_head s" using r(1) q(2) by blast
    moreover have "q \<noteq> big_head s"
    proof
      assume "q = big_head s"
      then have "words q (chunk_len c) \<inter> words q 44 = {}" using chunks_okD(3) [OF parts(1) q(1)] by simp
      then show False using header_fields_in_chunk(1,6) [OF chunk(1)] chunk_okD(4) [OF chunk(1)]
        by (auto simp: words_def in_range_def)
    qed
    ultimately obtain k where "c = Big k True" using parts(4) q(1) by auto
    moreover have "p + 44 \<notin> words p 44" for p :: u32 by (simp add: words_def in_range_def)
    ultimately show False using meta r(2-5) unfolding rq by auto
  qed
  show "big_words s ns p \<inter> chunk_meta q c = {}"
    using own meta_in_chunk [OF chunk(1)] fwd unfolding big_words_def by blast
  assume small: "\<exists>b fs. c = Small b fs"
  show "q \<notin> big_words s ns p"
  proof
    assume "q \<in> big_words s ns p"
    moreover have qq: "q \<in> words q (chunk_len c)" using header_fields_in_chunk(1) [OF chunk(1)] .
    ultimately have "q \<in> fwd_words (insert (big_head s) (insert p (set ns)))"
      using own unfolding big_words_def by blast
    then obtain r where r: "r \<in> insert (big_head s) (insert p (set ns))" "q \<in> words r 44" "q \<noteq> r"
      using fwd_words_in_header [OF _ H] by blast
    then show False using other [OF r(1)] qq by blast
  qed
qed

lemma heap_ok_big:
  assumes ok: "heap_ok s A ns lv busy" and A: "A p = Some (Big n f)"
    and same: "same_words (big_words s ns p) (mem s) (mem s')"
    and new: "chunk_ok (mem s') p (Big n f')"
    and skip: "skip_list s' ns' lv'" "set ns' = (if f' then insert p (set ns) else set ns - {p})"
    and fields: "big_head s' = big_head s" "bin_head s' = bin_head s" "newest_big s' = newest_big s"
      "heap_end s' = heap_end s"
  shows "heap_ok s' (A(p \<mapsto> Big n f')) ns' lv' busy"
proof -
  note parts = heap_okD [OF ok]
  let ?A = "A(p \<mapsto> Big n f')"
  have chunks: "chunks_ok s' ?A \<and> chunks_apart ?A"
  proof (rule chunks_update [OF parts(1,2) same _ new])
    show "big_words s ns p \<inter> chunk_meta q c = {}" if "A q = Some c" "q \<noteq> p" for q c
      using big_words_apart(1) [OF ok A that] .
    show "unat p + chunk_len (Big n f') \<le> unat (heap_end s')"
      using chunks_okD(2) [OF parts(1) A] unfolding fields(4) by simp
    show "words p (chunk_len (Big n f')) \<inter> words (big_head s) 44 = {}"
      using chunks_okD(3) [OF parts(1) A] by simp
    show "words p (chunk_len (Big n f')) \<inter> words q (chunk_len c) = {}" if "A q = Some c" "q \<noteq> p" for q c
      using chunks_apartD [OF parts(2) A that(1)] that(2) by simp
  qed (use fields in simp_all)
  have small: "(?A q = Some (Small b fs)) = (A q = Some (Small b fs))" for q b fs using A by simp
  have bins': "bins_ok s' ?A busy"
    unfolding bins_ok_def small fields(2)
  proof (intro conjI allI impI)
    fix b :: nat assume b: "b < 10"
    note bin = bins_okD [OF parts(5)]
    have "ld32 (mem s') q = ld32 (mem s) q" if q: "q \<in> set (busy b)" for q
    proof -
      obtain fs where A': "A q = Some (Small b fs)" using bin(4) [OF b, THEN iffD1, OF q] by blast
      then have "q \<noteq> p" using A by auto
      then have "q \<notin> big_words s ns p" using big_words_apart(2) [OF ok A A'] by blast
      then show ?thesis using same_wordsD [OF same chunk_okD(4) [OF chunks_okD(1) [OF parts(1) A']]] by blast
    qed
    then have "chain (ld32 (mem s')) (bin_head s ! b) (busy b) = chain (ld32 (mem s)) (bin_head s ! b) (busy b)"
      by (rule chain_cong)
    then show "chain (ld32 (mem s')) (bin_head s ! b) (busy b)" using bin(2) [OF b] by simp
    show "distinct (busy b)" using bin(3) [OF b] .
    show "set (busy b) = {q. \<exists>fs. fs \<noteq> [] \<and> A q = Some (Small b fs)}" using bin(4) [OF b] by blast
  qed (rule bins_okD(1) [OF parts(5)])
  have "newest_ok s' ?A" using parts(6) A unfolding newest_ok_def fields(3) by (auto split: if_splits)
  moreover have "set ns' = {q. \<exists>k. ?A q = Some (Big k True)}"
    unfolding skip(2) parts(4) using A by auto
  ultimately show ?thesis
    unfolding heap_ok_def fields(4) using chunks skip(1) bins' parts(7) by blast
qed

lemma own_meta:
  assumes ok: "heap_ok s A ns lv busy" and A: "A p = Some (Big n f)"
  shows "{p + 4, p + 8, p + 44} \<inter> fwd_words (insert (big_head s) (insert p (set ns))) = {}"
proof -
  have chunk: "chunk_ok (mem s) p (Big n f)" using chunks_okD(1) [OF heap_okD(1) [OF ok] A] .
  note own = header_fields_in_chunk [OF chunk]
  have H: "al4 r" if "r \<in> insert (big_head s) (insert p (set ns))" for r
    using that heap_header_al4 [OF ok] chunk_okD(4) [OF chunk] by blast
  have "x \<notin> {p + 4, p + 8, p + 44}" if x: "x \<in> fwd_words (insert (big_head s) (insert p (set ns)))" for x
  proof
    assume x3: "x \<in> {p + 4, p + 8, p + 44}"
    obtain r where r: "r \<in> insert (big_head s) (insert p (set ns))" "x \<in> words r 44" "x \<noteq> r + 4" "x \<noteq> r + 8"
      using fwd_words_in_header [OF x H] by blast
    show False
    proof (cases "r \<in> insert (big_head s) (set ns - {p})")
      case True
      then show ?thesis using skip_apart [OF ok A True] own x3 r(2) by blast
    next
      case False
      then have "r = p" using r(1) by blast
      moreover have "p + 44 \<notin> words p 44" by (simp add: words_def in_range_def)
      ultimately show ?thesis using x3 r(2-4) by auto
    qed
  qed
  then show ?thesis by blast
qed

lemma skip_frame_fields:
  assumes "skip_frame s s'"
  shows "big_head s' = big_head s" "bin_head s' = bin_head s" "newest_big s' = newest_big s"
    "heap_end s' = heap_end s"
  using assms by (auto simp: skip_frame_def)

lemma big_mem:
  assumes "chunk_ok m p (Big n f)"
  shows "al4 p" "al4 (p + 4)" "al4 (p + 8)" "al4 (p + 44)" "p + 4 \<noteq> p + 44" "p + 8 \<noteq> p + 44" "p + 44 \<noteq> 0"
proof -
  show p: "al4 p" using assms by (rule chunk_okD)
  show "al4 (p + 4)" "al4 (p + 8)" "al4 (p + 44)"
    using al4_word [OF p, of 1] al4_word [OF p, of 2] al4_word [OF p, of 11] by simp_all
  show "p + 4 \<noteq> p + 44" "p + 8 \<noteq> p + 44" by simp_all
  have "unat p + (unat n + 44) \<le> 2 ^ 32" "4052 \<le> unat n" using assms by simp_all
  then have "unat (p + 44) = unat p + 44" using unat_add_small [of p 44] by simp
  then show "p + 44 \<noteq> 0" by auto
qed

lemma pop_big:
  assumes ok: "heap_ok s A ns lv busy" and first: "above (mem s) sz ns = p # as"
    and A: "A p = Some (Big n True)"
  shows "\<exists>s'. klmalloc_big sz s = ret (p + 44, s') \<and>
    heap_ok s' (A(p \<mapsto> Big n False)) (below (mem s) sz ns @ as) lv busy \<and>
    same_words (big_words s ns p) (mem s) (mem s')"
proof -
  note parts = heap_okD [OF ok]
  let ?H = "insert (big_head s) (set ns)" and ?ns = "below (mem s) sz ns @ as"
  have chunk: "chunk_ok (mem s) p (Big n True)" using chunks_okD(1) [OF parts(1) A] .
  then have hdr: "hdr_size (mem s) p = n" "hdr_head (mem s) p = p + 44" "ld32 (mem s) (p + 44) = 0" "p \<noteq> 0"
    by simp_all
  note al = big_mem [OF chunk]
  have sorted: "sorted (map (hdr_size (mem s)) ns)" and distinct: "distinct ns"
    using parts(3) unfolding skip_list_def by blast+
  have ns: "ns = below (mem s) sz ns @ p # as" using below_above [of "mem s" sz ns] first by simp
  have p: "p \<in> set ns" by (subst ns) simp
  have "set ns = set (below (mem s) sz ns @ p # as)" "distinct (below (mem s) sz ns @ p # as)"
    using ns distinct by simp_all
  then have set: "set ?ns = set ns - {p}" by auto
  note at = above_at_first [OF sorted first]
  obtain s1 where s1: "klmalloc_skip_list_delete p s = ret s1" "skip_list s1 ?ns lv"
    "same_words (fwd_words ?H) (mem s) (mem s1)" "skip_frame s s1"
    using delete_skip_list [OF parts(3) at(1)] hdr(2) al(7) unfolding at(2) by auto
  note frame = skip_frame_fields [OF s1(4)]
  have H: "insert (big_head s) (insert p (set ns)) = ?H" using p by blast
  have kept: "ld32 (mem s1) x = ld32 (mem s) x" if "x \<in> {p + 4, p + 8, p + 44}" for x
    using same_wordsD [OF s1(3)] own_meta [OF ok A] that al(2-4) unfolding H by blast
  define s' where "s' = s1\<lparr>mem := st32 (mem s1) (p + 4) 0\<rparr>"
  have "klmalloc_stack_pop p s1 = ret (p + 44, s')"
    using kept [of "p + 4"] kept [of "p + 44"] hdr al(7)
    by (simp add: klmalloc_stack_pop_def hdr_head_def s'_def)
  moreover have "klmalloc_skip_list_findbest sz s = ret p" using findbest_above [OF parts(3)] first by simp
  ultimately have run: "klmalloc_big sz s = ret (p + 44, s')" using s1(1) hdr(4) by (simp add: klmalloc_big_def)
  have step: "same_words {p + 4} (mem s1) (mem s')" using al(2) by (simp add: s'_def same_words_at)
  have "same_words (fwd_words ?H \<union> {p + 4}) (mem s) (mem s')" using s1(3) step by (rule same_words_un)
  then have same: "same_words (big_words s ns p) (mem s) (mem s')"
    by (rule same_words_mono) (auto simp: big_words_def H)
  have "heap_ok s' (A(p \<mapsto> Big n False)) ?ns lv busy"
  proof (rule heap_ok_big [OF ok A same])
    have "hdr_size (mem s') p = n" "hdr_head (mem s') p = 0"
      using kept [of "p + 8"] hdr(1) al(2,3) by (simp_all add: s'_def hdr_size_def hdr_head_def ld32_st32_aligned)
    then show "chunk_ok (mem s') p (Big n False)" using chunk by simp
    show "skip_list s' ?ns lv"
    proof (rule skip_list_frame [OF s1(2) step])
      show "{p + 4} \<inter> words q 44 = {}" if "q \<in> insert (big_head s1) (set ?ns)" for q
        using skip_apart [OF ok A, of q] that header_fields_in_chunk(2) [OF chunk] unfolding set frame by blast
    qed (simp_all add: s'_def)
  qed (use set frame in \<open>simp_all add: s'_def\<close>)
  then show ?thesis using run same by blast
qed

lemma headers_insert_chunk:
  assumes ok: "heap_ok s A ns lv busy" and A: "A p = Some c" and "p \<notin> set ns"
  shows "headers (insert (big_head s) (insert p (set ns)))" and "p \<noteq> big_head s"
proof -
  have chunk: "chunk_ok (mem s) p c" using chunks_okD(1) [OF heap_okD(1) [OF ok] A] .
  have H: "headers (insert (big_head s) (set ns))" using heap_okD(3) [OF ok] unfolding skip_list_def by blast
  have p: "al4 p" using chunk_okD(4) [OF chunk] .
  have apart: "hdr_apart p q \<and> hdr_apart q p" if q: "q \<in> insert (big_head s) (set ns)" for q
  proof -
    have "words p (chunk_len c) \<inter> words q 44 = {}" using skip_apart [OF ok A, of q] q assms(3) by blast
    moreover have "words p 44 \<subseteq> words p (chunk_len c)" using header_fields_in_chunk(6) [OF chunk] .
    ultimately have "words p 44 \<inter> words q 44 = {}" by blast
    moreover have "al4 q" using heap_header_al4 [OF ok q] .
    ultimately show ?thesis using p hdr_apart_words [of p q 44 44] hdr_apart_words [of q p 44 44]
      by (simp add: Int_commute)
  qed
  show "headers (insert (big_head s) (insert p (set ns)))"
    using H p apart unfolding headers_def by blast
  show "p \<noteq> big_head s"
  proof
    assume "p = big_head s"
    then have "hdr_apart p p" using apart by blast
    moreover have "(0::nat) < 11" by simp
    ultimately show False unfolding hdr_apart_def by blast
  qed
qed

lemma push_big:
  assumes ok: "heap_ok s A ns lv busy" and A: "A p = Some (Big n False)"
  shows "\<exists>s' ns' lv'. klfree (p + 44) s = ret s' \<and> heap_ok s' (A(p \<mapsto> Big n True)) ns' lv' busy \<and>
    same_words (big_words s ns p) (mem s) (mem s')"
proof -
  note parts = heap_okD [OF ok]
  have chunk: "chunk_ok (mem s) p (Big n False)" using chunks_okD(1) [OF parts(1) A] .
  then have hdr: "hdr_size (mem s) p = n" "hdr_head (mem s) p = 0" "p \<noteq> 0" "p mod 0x1000 = 0"
    "(n + 44) mod 0x1000 = 0" "4052 \<le> unat n" "unat p + (unat n + 44) \<le> 2 ^ 32" by simp_all
  note al = big_mem [OF chunk]
  have pns: "p \<notin> set ns" using parts(4) A by simp
  define m1 where "m1 = st32 (st32 (mem s) (p + 44) 0) (p + 4) (p + 44)"
  define s1 where "s1 = s\<lparr>mem := m1\<rparr>"
  have "same_words {p + 44} (mem s) (st32 (mem s) (p + 44) 0)"
    "same_words {p + 4} (st32 (mem s) (p + 44) 0) m1"
    unfolding m1_def by (rule same_words_at, rule al)+
  from same_words_un [OF this] have same1: "same_words {p + 4, p + 44} (mem s) (mem s1)"
    by (simp add: s1_def insert_commute)
  have hdr1: "hdr_size m1 p = n" "hdr_head m1 p = p + 44" "ld32 m1 (p + 44) = 0"
    using hdr(1) al by (simp_all add: m1_def hdr_size_def hdr_head_def ld32_st32_aligned)
  have skip1: "skip_list s1 ns lv"
  proof (rule skip_list_frame [OF parts(3) same1])
    show "{p + 4, p + 44} \<inter> words q 44 = {}" if "q \<in> insert (big_head s) (set ns)" for q
      using skip_apart [OF ok A, of q] that pns header_fields_in_chunk(2,5) [OF chunk] by blast
  qed (simp_all add: s1_def)
  have fits: "size_fits m1 p" using hdr(5) hdr1(1) by (simp only: size_fits_def)
  have "n \<noteq> 0" using hdr(6) by auto
  then have valid: "p \<noteq> big_head s1" "size_fits (mem s1) p" "hdr_size (mem s1) p \<noteq> 0" "hdr_head (mem s1) p \<noteq> 0"
    "headers (insert (big_head s1) (insert p (set ns)))"
    using headers_insert_chunk [OF ok A pns] fits hdr1 al(7) by (simp_all add: s1_def)
  let ?ns = "below (mem s1) n ns @ p # above (mem s1) n ns"
  obtain s' l where s': "klmalloc_skip_list_insert p s1 = ret s'" "skip_list s' ?ns (lv(p := l))"
    "same_words (fwd_words (insert (big_head s1) (insert p (set ns)))) (mem s1) (mem s')" "skip_frame s1 s'"
    using insert_skip_list [OF skip1 pns valid(1) hdr(3,4) valid(2-5)] hdr1(1) by (auto simp: s1_def)
  note frame = skip_frame_fields [OF s'(4)]
  have same: "same_words (big_words s ns p) (mem s) (mem s')"
    using same_words_un [OF same1 s'(3)] by (simp add: big_words_def s1_def Un_commute)
  have kept: "ld32 (mem s') x = ld32 m1 x" if "x \<in> {p + 4, p + 8, p + 44}" for x
  proof -
    have step: "same_words (fwd_words (insert (big_head s) (insert p (set ns)))) m1 (mem s')"
      using s'(3) by (simp add: s1_def)
    have "al4 x" "x \<notin> fwd_words (insert (big_head s) (insert p (set ns)))"
      using own_meta [OF ok A] that al(2-4) by blast+
    then show ?thesis by (rule same_wordsD [OF step])
  qed
  have "heap_ok s' (A(p \<mapsto> Big n True)) ?ns (lv(p := l)) busy"
  proof (rule heap_ok_big [OF ok A same _ s'(2)])
    have "hdr_size (mem s') p = n" "hdr_head (mem s') p = p + 44" "ld32 (mem s') (p + 44) = 0"
      using kept [of "p + 4"] kept [of "p + 8"] kept [of "p + 44"] hdr1
      unfolding hdr_size_def hdr_head_def by simp_all
    then show "chunk_ok (mem s') p (Big n True)" using hdr by simp
    show "set ?ns = (if True then insert p (set ns) else set ns - {p})" by (simp only: set_insert_mid if_True)
  qed (use frame in \<open>simp_all add: s1_def\<close>)
  moreover have "klfree (p + 44) s = ret s'"
  proof -
    have h: "block_header (p + 44) = p"
      using block_header_offset [of p 44] hdr(4,6,7) by simp
    have n: "n > NUM_BINS" using hdr(6) by (simp add: NUM_BINS_def word_less_nat_alt)
    have fits0: "size_fits (mem s) p" using hdr(5) hdr(1) by (simp only: size_fits_def)
    have "klmalloc_stack_push p (p + 44) s = ret s1"
      using al(7) hdr(2) by (simp add: klmalloc_stack_push_def s1_def m1_def)
    then show ?thesis
      using al(7) h n hdr(1-4) fits0 hdr1(2) s'(1)
      by (simp add: klfree_def Let_def) (simp add: s1_def)
  qed
  ultimately show ?thesis using same by blast
qed

end
