(* ===== verification/HeapGrow.thy ===== *)
theory HeapGrow
  imports HeapOps
begin

text \<open>
  How the heap grows: \<^verbatim>\<open>sbrk\<close> leaves it as it is and adds room behind it, in which \<^verbatim>\<open>klmalloc\<close>
  makes a page of cells or a big block.
\<close>

section \<open>Changes outside the heap\<close>

lemma heap_ok_frame:
  assumes ok: "heap_ok s A ns lv busy" and same: "same_words W (mem s) (mem s')"
    and meta: "\<And>p c. A p = Some c \<Longrightarrow> W \<inter> chunk_meta p c = {}"
    and pages: "\<And>p b fs. A p = Some (Small b fs) \<Longrightarrow> p \<notin> W"
    and headers: "\<And>q. q \<in> insert (big_head s) (set ns) \<Longrightarrow> W \<inter> words q 44 = {}"
    and fields: "big_head s' = big_head s" "big_level s' = big_level s" "bin_head s' = bin_head s"
      "newest_big s' = newest_big s" "unat (heap_end s) \<le> unat (heap_end s')" "heap_end s' mod 0x1000 = 0"
  shows "heap_ok s' A ns lv busy"
proof -
  note parts = heap_okD [OF ok]
  have "chunks_ok s' A"
    unfolding chunks_ok_def fields(1)
  proof (intro allI impI)
    fix p c assume A: "A p = Some c"
    have "chunk_ok (mem s') p c" using chunks_okD(1) [OF parts(1) A] same meta [OF A] by (rule chunk_ok_frame)
    then show "chunk_ok (mem s') p c \<and> unat p + chunk_len c \<le> unat (heap_end s') \<and>
        words p (chunk_len c) \<inter> words (big_head s) 44 = {}"
      using chunks_okD(2,3) [OF parts(1) A] order_trans [OF _ fields(5)] by blast
  qed
  moreover have "skip_list s' ns lv" by (rule skip_list_frame [OF parts(3) same headers fields(1,2)])
  moreover have "bins_ok s' A busy"
    unfolding bins_ok_def fields(3)
  proof (intro conjI allI impI)
    fix b :: nat assume b: "b < 10"
    note bin = bins_okD [OF parts(5)]
    have "ld32 (mem s') q = ld32 (mem s) q" if q: "q \<in> set (busy b)" for q
    proof -
      obtain fs where A: "A q = Some (Small b fs)" using bin(4) [OF b, THEN iffD1, OF q] by blast
      show ?thesis
        using same_wordsD [OF same chunk_okD(4) [OF chunks_okD(1) [OF parts(1) A]] pages [OF A]] .
    qed
    then have "chain (ld32 (mem s')) (bin_head s ! b) (busy b) = chain (ld32 (mem s)) (bin_head s ! b) (busy b)"
      by (rule chain_cong)
    then show "chain (ld32 (mem s')) (bin_head s ! b) (busy b)" using bin(2) [OF b] by simp
    show "distinct (busy b)" using bin(3) [OF b] .
    show "set (busy b) = {q. \<exists>fs. fs \<noteq> [] \<and> A q = Some (Small b fs)}" using bin(4) [OF b] by blast
  qed (rule bins_okD(1) [OF parts(5)])
  moreover have "newest_ok s' A" using parts(6) unfolding newest_ok_def fields(4) .
  ultimately show ?thesis unfolding heap_ok_def using parts(2,4) fields(6) by blast
qed

section \<open>Room for the heap to grow\<close>

text \<open>The words \<^verbatim>\<open>sbrk\<close> of \<open>n\<close> pages may write: the frame bitmap and the entries of the new pages.\<close>

definition kernel_words :: "'a kmm_scheme \<Rightarrow> nat \<Rightarrow> u32 set" where
  "kernel_words s n = {x. \<exists>y. in_range x 4 y \<and> (in_bitmap s y \<or>
     (\<exists>a \<in> set (page_run (heap_end s) n). in_range (page_entry s a) 4 y))}"

definition can_grow :: "'a kheap_scheme \<Rightarrow> (u32 \<Rightarrow> chunk option) \<Rightarrow> nat \<Rightarrow> bool" where
  "can_grow s A n \<longleftrightarrow> frames_ok s \<and> heap_end s \<noteq> 0 \<and> unat (heap_end s) + 0x1000 * n < 2 ^ 32 \<and>
     card (used_frames s) + n \<le> frame_limit s \<and> pages_ready s (page_run (heap_end s) n) \<and>
     (\<forall>p c. A p = Some c \<longrightarrow> kernel_words s n \<inter> words p (chunk_len c) = {}) \<and>
     kernel_words s n \<inter> words (big_head s) 44 = {} \<and>
     words (heap_end s) (0x1000 * n) \<inter> words (big_head s) 44 = {}"

lemma sbrk_heap:
  assumes ok: "heap_ok s A ns lv busy" and grow: "can_grow s A n"
  shows "\<exists>s'. sbrk (0x1000 * of_nat n) s = ret (heap_end s, s') \<and>
    same_words (kernel_words s n) (mem s) (mem s') \<and> heap_ok s' A ns lv busy \<and>
    s' = s\<lparr>heap_end := heap_end s + 0x1000 * of_nat n, mem := mem s'\<rparr> \<and>
    unat (heap_end s') = unat (heap_end s) + 0x1000 * n"
proof -
  have g: "frames_ok s" "unat (heap_end s) + 0x1000 * n < 2 ^ 32"
    "card (used_frames s) + n \<le> frame_limit s" "pages_ready s (page_run (heap_end s) n)"
    "\<And>p c. A p = Some c \<Longrightarrow> kernel_words s n \<inter> words p (chunk_len c) = {}"
    "kernel_words s n \<inter> words (big_head s) 44 = {}"
    using grow unfolding can_grow_def by blast+
  note parts = heap_okD [OF ok]
  let ?s = "s\<lparr>heap_end := heap_end s + 0x1000 * of_nat n\<rparr>"
  obtain fs s' where s': "sbrk (0x1000 * of_nat n) s = ret (heap_end s, s')"
    and grown: "grown ?s (page_run (heap_end s) n) fs s'"
    using sbrk_grown [OF g(1-4)] by blast
  have eq: "page_entry ?s = page_entry s" "in_bitmap ?s = in_bitmap s"
    by (simp_all add: page_entry_def in_bitmap_def fun_eq_iff)
  have out: "mem s' x = mem s x"
    if "\<not> in_bitmap s x" "\<forall>a \<in> set (page_run (heap_end s) n). \<not> in_range (page_entry s a) 4 x" for x
    using grown that unfolding grown_def eq by simp
  have same: "same_words (kernel_words s n) (mem s) (mem s')"
    unfolding same_words_def
  proof (intro allI impI)
    fix x assume "al4 x \<and> x \<notin> kernel_words s n"
    then show "ld32 (mem s') x = ld32 (mem s) x"
      by (intro ld32_cong out) (auto simp: kernel_words_def)
  qed
  have upd: "s' = ?s\<lparr>mem := mem s'\<rparr>" using grown unfolding grown_def by blast
  have fields: "big_head s' = big_head s" "big_level s' = big_level s" "bin_head s' = bin_head s"
    "newest_big s' = newest_big s" "heap_end s' = heap_end s + of_nat (0x1000 * n)"
    by (subst upd, simp)+
  have e: "unat (heap_end s') = unat (heap_end s) + 0x1000 * n"
    unfolding fields(5) using g(2) by (rule unat_add_small)
  have m0: "unat (heap_end s) mod 0x1000 = 0"
    using parts(7) by (simp add: word_unat_eq_iff unat_mod_distrib)
  then have "unat (heap_end s') mod 0x1000 = 0" unfolding e by simp
  then have end_mod: "heap_end s' mod 0x1000 = 0" by (simp add: word_unat_eq_iff unat_mod_distrib)
  have "heap_ok s' A ns lv busy"
  proof (rule heap_ok_frame [OF ok same])
    show "kernel_words s n \<inter> chunk_meta p c = {}" if "A p = Some c" for p c
      using g(5) [OF that] meta_in_chunk [OF chunks_okD(1) [OF parts(1) that]] by blast
    show "p \<notin> kernel_words s n" if "A p = Some (Small b fs)" for p b fs
      using g(5) [OF that] header_fields_in_chunk(1) [OF chunks_okD(1) [OF parts(1) that]] by blast
    show "kernel_words s n \<inter> words q 44 = {}" if q: "q \<in> insert (big_head s) (set ns)" for q
    proof (cases "q = big_head s")
      case False
      then obtain k where A: "A q = Some (Big k True)" using q parts(4) by blast
      then show ?thesis using g(5) [OF A] header_fields_in_chunk(6) [OF chunks_okD(1) [OF parts(1) A]] by blast
    qed (use g(6) in simp)
  qed (use fields(1-4) e end_mod in simp_all)
  then show ?thesis using s' same upd e by (intro exI [of _ s']) simp
qed

section \<open>A chunk in the new room\<close>

lemma new_chunk_parts:
  assumes ok: "heap_ok s A ns lv busy" and p: "A p = None"
    and same: "same_words W (mem s) (mem s')"
    and W: "W \<subseteq> words p (chunk_len c') \<union> {r. \<exists>n f. A r = Some (Big n f)}"
    and new: "chunk_ok (mem s') p c'" and place: "unat p + chunk_len c' \<le> unat (heap_end s')"
    and room: "words p (chunk_len c') \<inter> words (big_head s) 44 = {}"
      "\<And>q c. A q = Some c \<Longrightarrow> words p (chunk_len c') \<inter> words q (chunk_len c) = {}"
    and fields: "big_head s' = big_head s" "big_level s' = big_level s" "heap_end s' = heap_end s"
  shows "chunks_ok s' (A(p \<mapsto> c')) \<and> chunks_apart (A(p \<mapsto> c'))" and "skip_list s' ns lv"
    and "b < 10 \<Longrightarrow> chain (ld32 (mem s')) a (busy b) = chain (ld32 (mem s)) a (busy b)"
proof -
  note parts = heap_okD [OF ok]
  have other: "x \<notin> words q (chunk_len c) - {q}" if "x \<in> W" "A q = Some c" for x q c
  proof -
    have "x \<in> words p (chunk_len c') \<or> (\<exists>n f. A x = Some (Big n f))" using W that(1) by blast
    then show ?thesis
    proof
      assume "\<exists>n f. A x = Some (Big n f)"
      then obtain n f where "A x = Some (Big n f)" by blast
      then show ?thesis
        using chunks_apartD [OF parts(2) _ that(2)] header_fields_in_chunk(1) [OF chunks_okD(1) [OF parts(1)]] by blast
    qed (use room(2) [OF that(2)] in blast)
  qed
  show "chunks_ok s' (A(p \<mapsto> c')) \<and> chunks_apart (A(p \<mapsto> c'))"
  proof (rule chunks_update [OF parts(1,2) same _ new place _ room(1)])
    show "W \<inter> chunk_meta q c = {}" if q: "A q = Some c" "q \<noteq> p" for q c
    proof -
      have "chunk_ok (mem s) q c" using chunks_okD(1) [OF parts(1) q(1)] .
      then have "chunk_meta q c \<subseteq> words q (chunk_len c)" "q \<in> chunk_meta q c \<Longrightarrow> \<exists>b fs. c = Small b fs"
        by (rule meta_in_chunk, cases c) (simp_all split: if_splits)
      moreover have "q \<notin> W" if "c = Small b fs" for b fs
        using W q(1) that room(2) [OF q(1)] header_fields_in_chunk(1) [OF \<open>chunk_ok (mem s) q c\<close>] by auto
      ultimately show ?thesis using other [OF _ q(1)] by blast
    qed
  qed (use room(2) fields in simp_all)
  show "skip_list s' ns lv"
  proof (rule skip_list_frame_first [OF parts(3) same])
    fix q assume q: "q \<in> insert (big_head s) (set ns)"
    show "W \<inter> (words q 44 - {q}) = {}"
    proof (cases "q = big_head s")
      case True
      have "r \<notin> words (big_head s) 44" if "A r = Some (Big n f)" for r n f
        using chunks_okD(3) [OF parts(1) that] header_fields_in_chunk(1) [OF chunks_okD(1) [OF parts(1) that]] by blast
      then show ?thesis using W room(1) True by blast
    next
      case False
      then obtain k where A: "A q = Some (Big k True)" using q parts(4) by blast
      then have "words q 44 \<subseteq> words q (chunk_len (Big k True))"
        using header_fields_in_chunk(6) [OF chunks_okD(1) [OF parts(1) A]] by blast
      then show ?thesis using other [OF _ A] by blast
    qed
  qed (use fields in simp_all)
  assume b: "b < 10"
  show "chain (ld32 (mem s')) a (busy b) = chain (ld32 (mem s)) a (busy b)"
  proof (rule chain_cong)
    fix q assume q: "q \<in> set (busy b)"
    obtain fs where A: "A q = Some (Small b fs)"
      using bins_okD(4) [OF parts(5) b, THEN iffD1, OF q] by blast
    have "q \<in> words q (chunk_len (Small b fs))"
      using header_fields_in_chunk(1) [OF chunks_okD(1) [OF parts(1) A]] .
    then have "q \<notin> W" using W A room(2) [OF A] by auto
    then show "ld32 (mem s') q = ld32 (mem s) q"
      using same_wordsD [OF same chunk_okD(4) [OF chunks_okD(1) [OF parts(1) A]]] by blast
  qed
qed

lemma new_room:
  assumes ok: "heap_ok s A ns lv busy" and grow: "can_grow s A n" and "0 < n"
  defines "p \<equiv> heap_end s"
  shows "A p = None" and "words p (0x1000 * n) \<inter> words (big_head s) 44 = {}"
    and "A q = Some c \<Longrightarrow> words p (0x1000 * n) \<inter> words q (chunk_len c) = {}"
    and "p \<noteq> 0" and "p mod 0x1000 = 0" and "unat p + 0x1000 * n < 2 ^ 32"
proof -
  note parts = heap_okD [OF ok]
  show g: "p \<noteq> 0" "unat p + 0x1000 * n < 2 ^ 32" "words p (0x1000 * n) \<inter> words (big_head s) 44 = {}"
    using grow unfolding can_grow_def p_def by blast+
  show "p mod 0x1000 = 0" using parts(7) unfolding p_def .
  show "words p (0x1000 * n) \<inter> words q (chunk_len c) = {}" if A: "A q = Some c" for q c
    using chunks_okD(2) [OF parts(1) A] chunk_okD(3) [OF chunks_okD(1) [OF parts(1) A]] g(2)
    unfolding p_def by (intro words_apart) linarith+
  show "A p = None"
  proof (rule ccontr)
    assume "A p \<noteq> None"
    then obtain c where c: "A p = Some c" by blast
    then show False
      using chunks_okD(2) [OF parts(1) c] chunk_okD(5) [OF chunks_okD(1) [OF parts(1) c]] unfolding p_def by linarith
  qed
qed

section \<open>A new page of cells\<close>

lemma cell_at_addr: "cell_at (p + 12) b i = cell_addr p b i"
  by (simp add: cell_at_def cell_addr_def push_bit_eq_mult power_add algebra_simps)

lemma cell_addr_inj:
  assumes "b < 10" and "unat p + 0x1000 \<le> 2 ^ 32" and "i \<le> cells_available b" and "j \<le> cells_available b"
    and "cell_addr p b i = cell_addr p b j"
  shows "i = j"
proof -
  have at: "unat (cell_addr p b k) = unat p + (12 + k * 2 ^ (b + 2))" if "k \<le> cells_available b" for k
  proof -
    have "0 < (2::nat) ^ (b + 2)" by simp
    then have "unat p + (12 + k * 2 ^ (b + 2)) < 2 ^ 32" using cell_offset [OF assms(1) that] assms(2) by linarith
    then show ?thesis unfolding cell_addr_def by (rule unat_add_small)
  qed
  have "i * 2 ^ (b + 2) = j * 2 ^ (b + 2)"
    using at [OF assms(3)] at [OF assms(4)] unfolding assms(5) by linarith
  then show ?thesis by simp
qed

lemma init_stack_cells:
  assumes page: "b < 10" "unat p + 0x1000 \<le> 2 ^ 32" "al4 p"
  shows "i + n \<le> cells_available b \<Longrightarrow>
    same_words (cell_addr p b ` {i..<i + n}) m (init_stack n i b (p + 12) m) \<and>
    (\<forall>j \<in> {i..<i + n}. ld32 (init_stack n i b (p + 12) m) (cell_addr p b j) = cell_addr p b (Suc j))"
proof (induction n arbitrary: i m)
  case (Suc n)
  let ?m1 = "st32 m (cell_addr p b i) (cell_addr p b (Suc i))"
  let ?m' = "init_stack n (Suc i) b (p + 12) ?m1"
  have al: "al4 (cell_addr p b j)" if "j \<le> cells_available b" for j
    using al4_cell [OF page(3), of "cell_addr p b j" b] that by (simp add: cells_def)
  have IH: "same_words (cell_addr p b ` {Suc i..<Suc i + n}) ?m1 ?m'"
    "\<And>j. j \<in> {Suc i..<Suc i + n} \<Longrightarrow> ld32 ?m' (cell_addr p b j) = cell_addr p b (Suc j)"
    using Suc.IH [of "Suc i" ?m1] Suc.prems by auto
  have "same_words {cell_addr p b i} m ?m1" using al [of i] Suc.prems by (intro same_words_at) simp
  then have "same_words ({cell_addr p b i} \<union> cell_addr p b ` {Suc i..<Suc i + n}) m ?m'"
    using IH(1) by (rule same_words_un)
  moreover have "{i..<i + Suc n} = insert i {Suc i..<Suc i + n}" by auto
  then have "{cell_addr p b i} \<union> cell_addr p b ` {Suc i..<Suc i + n} = cell_addr p b ` {i..<i + Suc n}"
    by (simp only: image_insert insert_is_Un [symmetric])
  ultimately have "same_words (cell_addr p b ` {i..<i + Suc n}) m ?m'" by simp
  moreover have "ld32 ?m' (cell_addr p b j) = cell_addr p b (Suc j)" if j: "j \<in> {i..<i + Suc n}" for j
  proof (cases "j = i")
    case True
    have "cell_addr p b i \<notin> cell_addr p b ` {Suc i..<Suc i + n}"
    proof
      assume "cell_addr p b i \<in> cell_addr p b ` {Suc i..<Suc i + n}"
      then obtain k where "k \<in> {Suc i..<Suc i + n}" "cell_addr p b i = cell_addr p b k" by blast
      then show False using cell_addr_inj [OF page(1,2), of i k] Suc.prems by simp
    qed
    then have "ld32 ?m' (cell_addr p b i) = ld32 ?m1 (cell_addr p b i)"
      using al [of i] Suc.prems by (intro same_wordsD [OF IH(1)]) simp_all
    then show ?thesis using True by simp
  next
    case False
    then show ?thesis using j by (intro IH(2)) simp
  qed
  ultimately show ?case by (simp add: cell_at_addr)
qed simp

lemma linked_upt:
  assumes "\<And>j. i \<le> j \<Longrightarrow> j < k \<Longrightarrow> f (g j) = g (Suc j)" and "f (g k) = 0" and "i \<le> k"
    and "\<And>j. i \<le> j \<Longrightarrow> j \<le> k \<Longrightarrow> g j \<noteq> 0"
  shows "f x = g i \<Longrightarrow> linked f x (map g [i..<Suc k])"
  using assms
proof (induction "k - i" arbitrary: i x)
  case 0
  then have "k = i" by simp
  then show ?case using 0 by simp
next
  case (Suc d)
  then have "i < k" by simp
  then have "[i..<Suc k] = i # [Suc i..<Suc k]" by (simp add: upt_conv_Cons del: upt_Suc)
  moreover have "linked f (g i) (map g [Suc i..<Suc k])" using Suc.hyps(2) Suc.prems by (intro Suc.hyps(1)) simp_all
  ultimately show ?case using Suc.prems by (simp del: upt_Suc)
qed

definition page_cells :: "u32 \<Rightarrow> nat \<Rightarrow> u32 list" where
  "page_cells p b = map (cell_addr p b) [0..<Suc (cells_available b)]"

lemma set_page_cells: "set (page_cells p b) = cells p b"
proof -
  have "{..cells_available b} = set [0..<Suc (cells_available b)]" by auto
  then show ?thesis unfolding page_cells_def cells_def by (simp only: set_map)
qed

lemma distinct_page_cells:
  assumes "b < 10" and "unat p + 0x1000 \<le> 2 ^ 32"
  shows "distinct (page_cells p b)"
  unfolding page_cells_def using cell_addr_inj [OF assms]
  by (simp add: distinct_map inj_on_def less_Suc_eq_le del: upt_Suc)

text \<open>The memory of a page that \<^verbatim>\<open>klmalloc\<close> has laid out, whatever it held before.\<close>

lemma new_page_memory:
  fixes p a :: u32 and m :: mem and b :: nat
  assumes page: "p \<noteq> 0" "p mod 0x1000 = 0" "unat p + 0x1000 \<le> 2 ^ 32" "b < 10"
  defines "k \<equiv> cells_available b"
  defines "m1 \<equiv> st32 (st32 m (p + 4) (p + 12)) p a"
  defines "m' \<equiv> st32 (st32 (init_stack k 0 b (p + 12) m1) (cell_addr p b k) 0) (p + 8) (of_nat b)"
  shows "hdr_head m1 p = p + 12" and "chunk_ok m' p (Small b (page_cells p b))"
    and "ld32 m' p = a" and "same_words (words p 0x1000) m m'"
proof -
  have p: "al4 p" using page(2) by (rule al4_page)
  have al: "al4 (p + 4)" "al4 (p + 8)" using al4_word [OF p, of 1] al4_word [OF p, of 2] by simp_all
  define m2 where "m2 = init_stack k 0 b (p + 12) m1"
  define m3 where "m3 = st32 m2 (cell_addr p b k) 0"
  have m': "m' = st32 m3 (p + 8) (of_nat b)" by (simp add: m'_def m3_def m2_def)
  have header: "p \<notin> cells p b" "p + 4 \<notin> cells p b" "p + 8 \<notin> cells p b"
    using cell_in_page(1) [OF p page(4,3)] header_not_after [OF page(3) p] by blast+
  have cells: "cell_addr p b j \<in> cells p b" if "j \<le> k" for j using that by (simp add: cells_def k_def)
  have alc: "al4 (cell_addr p b j)" if "j \<le> k" for j using al4_cell [OF p cells [OF that]] .
  have in_page: "cells p b \<subseteq> words p 0x1000" using cell_in_page(2) [OF p page(4,3)] by blast
  have "p + of_nat 0 \<in> words p 0x1000" "p + of_nat 4 \<in> words p 0x1000" "p + of_nat 8 \<in> words p 0x1000"
    using p al by (intro words_offset; simp)+
  then have hw: "p \<in> words p 0x1000" "p + 4 \<in> words p 0x1000" "p + 8 \<in> words p 0x1000" by simp_all
  show head: "hdr_head m1 p = p + 12" using p al by (simp add: m1_def hdr_head_def ld32_st32_aligned)
  have init: "same_words (cell_addr p b ` {0..<k}) m1 m2"
    "\<And>j. j < k \<Longrightarrow> ld32 m2 (cell_addr p b j) = cell_addr p b (Suc j)"
    using init_stack_cells [OF page(4,3) p, of 0 k m1] by (simp_all add: m2_def k_def)
  have sub: "cell_addr p b ` {0..<k} \<subseteq> cells p b" using cells by auto
  have step: "same_words {cell_addr p b k} m2 m3" "same_words {p + 8} m3 m'"
    using alc [of k] al by (simp_all add: m3_def m' same_words_at)
  have "same_words {p + 4} m (st32 m (p + 4) (p + 12))" "same_words {p} (st32 m (p + 4) (p + 12)) m1"
    using p al by (simp_all add: m1_def same_words_at)
  then have "same_words ({p + 4} \<union> {p} \<union> cell_addr p b ` {0..<k} \<union> {cell_addr p b k} \<union> {p + 8}) m m'"
    using init(1) step by (meson same_words_un)
  then show "same_words (words p 0x1000) m m'"
    by (rule same_words_mono) (use hw sub cells [of k] in_page in auto)
  have late: "ld32 m' x = ld32 m1 x" if "x = p \<or> x = p + 4" for x
  proof -
    have x: "al4 x" "x \<notin> cells p b" "x \<noteq> p + 8" using that p al header by auto
    then have "x \<notin> cell_addr p b ` {0..<k}" "x \<notin> {cell_addr p b k}" "x \<notin> {p + 8}"
      using sub cells [of k] by auto
    then show ?thesis
      using same_wordsD [OF init(1) x(1)] same_wordsD [OF step(1) x(1)] same_wordsD [OF step(2) x(1)] by simp
  qed
  have "ld32 m1 p = a" by (simp add: m1_def)
  then show "ld32 m' p = a" using late by simp
  have cell: "ld32 m' (cell_addr p b j) = ld32 m3 (cell_addr p b j)" if "j \<le> k" for j
  proof -
    have "cell_addr p b j \<noteq> p + 8" using cells [OF that] header(3) by auto
    then show ?thesis using same_wordsD [OF step(2) alc [OF that]] by blast
  qed
  have "linked (ld32 m') (p + 4) (map (cell_addr p b) [0..<Suc k])"
  proof (rule linked_upt)
    show "ld32 m' (cell_addr p b j) = cell_addr p b (Suc j)" if "j < k" for j
    proof -
      have "cell_addr p b j \<noteq> cell_addr p b k"
        using cell_addr_inj [OF page(4,3), of j k] that by (auto simp: k_def)
      then show ?thesis
        using cell [of j] same_wordsD [OF step(1) alc [of j]] init(2) [OF that] that by simp
    qed
    show "ld32 m' (cell_addr p b k) = 0" using cell [of k] by (simp add: m3_def)
    show "cell_addr p b j \<noteq> 0" if "j \<le> k" for j
    proof
      assume z: "cell_addr p b j = 0"
      have "0 < (2::nat) ^ (b + 2)" by simp
      then have "unat p + (12 + j * 2 ^ (b + 2)) < 2 ^ 32"
        using cell_offset [OF page(4), of j] that page(3) unfolding k_def by linarith
      then have "unat (cell_addr p b j) = unat p + (12 + j * 2 ^ (b + 2))"
        unfolding cell_addr_def by (rule unat_add_small)
      then show False unfolding z by simp
    qed
    show "ld32 m' (p + 4) = cell_addr p b 0" using late [of "p + 4"] head by (simp add: hdr_head_def cell_addr_def)
  qed simp
  moreover have "hdr_size m' p = of_nat b" by (simp add: m' hdr_size_def)
  ultimately show "chunk_ok m' p (Small b (page_cells p b))"
    using page distinct_page_cells [OF page(4,3)] set_page_cells [of p b]
    unfolding page_cells_def k_def by (simp del: upt_Suc set_upt)
qed

text \<open>A page of free cells becomes part of the heap: its memory is written and it heads its bin.\<close>

lemma page_added:
  assumes ok: "heap_ok s A ns lv busy" and b: "b < 10" and none: "busy b = []" and p: "A p = None"
    and page: "p \<noteq> 0" "p mod 0x1000 = 0" "unat p + 0x1000 \<le> unat (heap_end s)"
    and apart: "words p 0x1000 \<inter> words (big_head s) 44 = {}"
      "\<And>q c. A q = Some c \<Longrightarrow> words p 0x1000 \<inter> words q (chunk_len c) = {}"
  defines "m' \<equiv> st32 (st32 (init_stack (cells_available b) 0 b (p + 12)
      (st32 (st32 (mem s) (p + 4) (p + 12)) p (bin_head s ! b))) (cell_addr p b (cells_available b)) 0) (p + 8) (of_nat b)"
  shows "heap_ok (s\<lparr>mem := m', bin_head := (bin_head s)[b := p]\<rparr>) (A(p \<mapsto> Small b (page_cells p b))) ns lv (busy(b := [p]))"
    and "same_words (words p 0x1000) (mem s) m'"
proof -
  let ?c = "Small b (page_cells p b)" let ?A = "A(p \<mapsto> ?c)"
  define s' where "s' = s\<lparr>mem := m', bin_head := (bin_head s)[b := p]\<rparr>"
  have "unat (heap_end s) < 2 ^ 32" using unsigned_less [of "heap_end s"] by simp
  then have "unat p + 0x1000 \<le> 2 ^ 32" using page(3) by linarith
  note memory = new_page_memory [OF page(1,2) this b, of "mem s" "bin_head s ! b", folded m'_def]
  show same: "same_words (words p 0x1000) (mem s) m'" by (rule memory(4))
  then have same': "same_words (words p 0x1000) (mem s) (mem s')" by (simp add: s'_def)
  have parts: "chunks_ok s' ?A \<and> chunks_apart ?A" "skip_list s' ns lv"
    "\<And>c a. c < 10 \<Longrightarrow> chain (ld32 (mem s')) a (busy c) = chain (ld32 (mem s)) a (busy c)"
  proof -
    have W: "words p 0x1000 \<subseteq> words p (chunk_len ?c) \<union> {r. \<exists>n f. A r = Some (Big n f)}" by simp
    have new: "chunk_ok (mem s') p ?c" using memory(2) by (simp add: s'_def)
    have place: "unat p + chunk_len ?c \<le> unat (heap_end s')" using page(3) by (simp add: s'_def)
    have apart': "words p (chunk_len ?c) \<inter> words (big_head s) 44 = {}"
      "\<And>q c. A q = Some c \<Longrightarrow> words p (chunk_len ?c) \<inter> words q (chunk_len c) = {}"
      using apart by simp_all
    have fields: "big_head s' = big_head s" "big_level s' = big_level s" "heap_end s' = heap_end s"
      by (simp_all add: s'_def)
    note facts = new_chunk_parts [OF ok p same' W new place apart' fields]
    show "chunks_ok s' ?A \<and> chunks_apart ?A" "skip_list s' ns lv"
      "\<And>c a. c < 10 \<Longrightarrow> chain (ld32 (mem s')) a (busy c) = chain (ld32 (mem s)) a (busy c)"
      by (rule facts; assumption)+
  qed
  note old = heap_okD [OF ok] and bin = bins_okD [OF heap_okD(5) [OF ok]]
  have small: "?A q = Some (Small c fs) \<longleftrightarrow> (if q = p then c = b \<and> fs = page_cells p b else A q = Some (Small c fs))"
    for q c fs by auto
  have cells: "page_cells p b \<noteq> []" by (simp add: page_cells_def)
  have "bins_ok s' ?A (busy(b := [p]))"
    unfolding bins_ok_def
  proof (intro conjI allI impI)
    show "length (bin_head s') = 10" using bin(1) by (simp add: s'_def)
    fix c :: nat assume c: "c < 10"
    have "bin_head s ! b = 0" using bin(2) [OF b] none by simp
    then have "ld32 (mem s') p = 0" using memory(3) by (simp add: s'_def)
    then show "chain (ld32 (mem s')) (bin_head s' ! c) ((busy(b := [p])) c)"
      using parts(3) [OF c] bin(1) bin(2) [OF c] b page(1) by (simp add: s'_def nth_list_update)
    show "distinct ((busy(b := [p])) c)" using bin(3) [OF c] by simp
    show "set ((busy(b := [p])) c) = {q. \<exists>fs. fs \<noteq> [] \<and> ?A q = Some (Small c fs)}"
    proof (rule set_eqI)
      fix q
      show "q \<in> set ((busy(b := [p])) c) \<longleftrightarrow> q \<in> {q. \<exists>fs. fs \<noteq> [] \<and> ?A q = Some (Small c fs)}"
        unfolding mem_Collect_eq small
        using bin(4) [OF c, of q] bin(4) [OF c, of p] none p cells by (cases "q = p"; cases "c = b") auto
    qed
  qed
  moreover have "newest_ok s' ?A" using old(6) p by (auto simp: newest_ok_def s'_def)
  moreover have "set ns = {q. \<exists>n. ?A q = Some (Big n True)}" unfolding old(4) using p by auto
  moreover have "heap_end s' mod 0x1000 = 0" using old(7) by (simp add: s'_def)
  ultimately show "heap_ok (s\<lparr>mem := m', bin_head := (bin_head s)[b := p]\<rparr>) ?A ns lv (busy(b := [p]))"
    unfolding s'_def [symmetric] heap_ok_def using parts(1,2) by blast
qed

lemma new_bin:
  assumes ok: "heap_ok s A ns lv busy" and grow: "can_grow s A 1" and b: "b < 10" and none: "busy b = []"
  defines "p \<equiv> heap_end s"
  shows "\<exists>s'. klmalloc_new_bin b s = ret (p, s') \<and>
    heap_ok s' (A(p \<mapsto> Small b (page_cells p b))) ns lv (busy(b := [p])) \<and>
    same_words (kernel_words s 1 \<union> words p 0x1000) (mem s) (mem s') \<and> bin_head s' ! b = p"
proof -
  obtain s1 where s1: "sbrk 0x1000 s = ret (p, s1)" "same_words (kernel_words s 1) (mem s) (mem s1)"
    "heap_ok s1 A ns lv busy" "s1 = s\<lparr>heap_end := heap_end s + 0x1000, mem := mem s1\<rparr>"
    "unat (heap_end s1) = unat p + 0x1000"
    using sbrk_heap [OF ok grow] by (auto simp: p_def)
  note room = new_room [OF ok grow zero_less_one, folded p_def]
  have room': "unat p + 0x1000 \<le> 2 ^ 32" using room(6) by simp
  have head: "big_head s1 = big_head s" by (subst s1(4)) simp
  define s2 where "s2 = klmalloc_list_insert b p (s1\<lparr>mem := st32 (mem s1) (p + 4) (p + 12)\<rparr>)"
  define m' where "m' = st32 (st32 (init_stack (cells_available b) 0 b (p + 12)
      (st32 (st32 (mem s1) (p + 4) (p + 12)) p (bin_head s1 ! b))) (cell_addr p b (cells_available b)) 0) (p + 8) (of_nat b)"
  define s' where "s' = s1\<lparr>mem := m', bin_head := (bin_head s1)[b := p]\<rparr>"
  have s2: "mem s2 = st32 (st32 (mem s1) (p + 4) (p + 12)) p (bin_head s1 ! b)" "s2\<lparr>mem := m'\<rparr> = s'"
    by (simp_all add: s2_def s'_def klmalloc_list_insert_def)
  note page = new_page_memory [OF room(4,5) room' b, of "mem s1" "bin_head s1 ! b", folded m'_def]
  have run: "klmalloc_new_bin b s = ret (p, s')"
    using s1(1) room(5) page(1) s2
    by (simp add: klmalloc_new_bin_def cell_at_addr m'_def Let_def flip: s2_def)
  have apart: "words p 0x1000 \<inter> words (big_head s1) 44 = {}"
    "\<And>q c. A q = Some c \<Longrightarrow> words p 0x1000 \<inter> words q (chunk_len c) = {}"
    using room(2,3) unfolding head by simp_all
  have place: "unat p + 0x1000 \<le> unat (heap_end s1)" using s1(5) by simp
  note added = page_added [OF s1(3) b none room(1,4,5) place apart, folded m'_def, folded s'_def]
  have "same_words (kernel_words s 1 \<union> words p 0x1000) (mem s) (mem s')"
    using same_words_un [OF s1(2) added(2)] by (simp add: s'_def)
  moreover have "bin_head s' ! b = p" using bins_okD(1) [OF heap_okD(5) [OF s1(3)]] b by (simp add: s'_def)
  ultimately show ?thesis using run added(1) by blast
qed

lemma pop_new_page:
  assumes ok: "heap_ok s A ns lv busy" and grow: "can_grow s A 1" and b: "b < 10" and none: "busy b = []"
  defines "p \<equiv> heap_end s"
  shows "\<exists>q fs s' busy'. klmalloc_small b s = ret (q, s') \<and> page_cells p b = q # fs \<and>
    heap_ok s' (A(p \<mapsto> Small b fs)) ns lv busy' \<and> A p = None \<and>
    same_words (kernel_words s 1 \<union> words p 0x1000) (mem s) (mem s')"
proof -
  obtain s1 where s1: "klmalloc_new_bin b s = ret (p, s1)"
    "heap_ok s1 (A(p \<mapsto> Small b (page_cells p b))) ns lv (busy(b := [p]))"
    "same_words (kernel_words s 1 \<union> words p 0x1000) (mem s) (mem s1)" "bin_head s1 ! b = p"
    using new_bin [OF ok grow b none] unfolding p_def by blast
  note room = new_room [OF ok grow zero_less_one, folded p_def]
  obtain q fs where cells: "page_cells p b = q # fs" by (cases "page_cells p b") (simp_all add: page_cells_def)
  obtain s' busy' where s': "klmalloc_small b s1 = ret (q, s')"
    "heap_ok s' (A(p \<mapsto> Small b (page_cells p b), p \<mapsto> Small b fs)) ns lv busy'"
    "same_words {p, p + 4} (mem s1) (mem s')"
    using pop_small [OF s1(2) b, of p "[]" q fs] cells by auto
  have "bin_head s ! b = 0" using bins_okD(2) [OF heap_okD(5) [OF ok] b] none by simp
  then have "klmalloc_small b s = klmalloc_small b s1"
    using s1(1,4) room(4) by (simp add: klmalloc_small_def klmalloc_list_head_def)
  moreover have "al4 p" using room(5) by (rule al4_page)
  then have "p + of_nat 0 \<in> words p 0x1000" "p + of_nat 4 \<in> words p 0x1000"
    using al4_word [of p 1] by (intro words_offset; simp)+
  then have "kernel_words s 1 \<union> words p 0x1000 \<union> {p, p + 4} = kernel_words s 1 \<union> words p 0x1000" by auto
  then have "same_words (kernel_words s 1 \<union> words p 0x1000) (mem s) (mem s')"
    using same_words_un [OF s1(3) s'(3)] by simp
  ultimately show ?thesis using s'(1,2) cells room(1) by auto
qed

section \<open>A new big block\<close>

definition big_pages :: "u32 \<Rightarrow> nat" where
  "big_pages sz = (unat sz + 44) div 0x1000 + 1"

lemma big_pages_word:
  assumes "unat sz + 44 < 2 ^ 32"
  shows "(sz + 44) div 0x1000 + 1 = of_nat (big_pages sz)"
proof -
  have "unat (sz + 44) = unat sz + 44" using unat_add_small [of sz 44] assms by simp
  then have "unat ((sz + 44) div 0x1000) = (unat sz + 44) div 0x1000" by (simp add: unat_div_distrib)
  then have "(sz + 44) div 0x1000 = of_nat ((unat sz + 44) div 0x1000)" by (metis of_nat_unat ucast_id)
  then show ?thesis by (simp add: big_pages_def)
qed

lemma big_size_word:
  assumes "0x1000 * n < 2 ^ 32" and "0 < n"
  defines "w \<equiv> of_nat n * 0x1000 - 44 :: u32"
  shows "unat w = 0x1000 * n - 44" and "(w + 44) mod 0x1000 = 0" and "4052 \<le> unat w"
proof -
  have all: "unat (of_nat (0x1000 * n) :: u32) = 0x1000 * n" using assms(1) by (rule unat_of_nat_small)
  have eq: "of_nat n * 0x1000 = (of_nat (0x1000 * n) :: u32)" by simp
  have "(44 :: u32) \<le> of_nat (0x1000 * n)" unfolding word_le_nat_alt all using assms(2) by simp
  then have "unat w = unat (of_nat (0x1000 * n) :: u32) - unat (44 :: u32)"
    unfolding w_def eq by (rule unat_sub)
  then show u: "unat w = 0x1000 * n - 44" unfolding all by simp
  then show "4052 \<le> unat w" using assms(2) by simp
  have "w + 44 = of_nat (0x1000 * n)" unfolding w_def eq by simp
  then have "unat ((w + 44) mod 0x1000) = 0x1000 * n mod 0x1000" using all by (simp only: unat_mod_distrib) simp
  then show "(w + 44) mod 0x1000 = 0" by (simp add: word_unat_eq_iff)
qed

lemma new_big_pages:
  assumes ok: "heap_ok s A ns lv busy" and pages: "(sz + 44) div 0x1000 + 1 = of_nat N"
    and N: "0 < N" and grow: "can_grow s A N"
  defines "p \<equiv> heap_end s" and "n \<equiv> of_nat N * 0x1000 - 44 :: u32"
  shows "\<exists>s'. klmalloc_new_big sz s = ret (p + 44, s') \<and>
    heap_ok s' (A(p \<mapsto> Big n False)) ns lv busy \<and> A p = None \<and>
    same_words (kernel_words s N \<union> words p (unat n + 44) \<union>
      {r. \<exists>k f. A r = Some (Big k f)}) (mem s) (mem s')"
proof -
  obtain s1 where s1: "sbrk (0x1000 * of_nat N) s = ret (p, s1)" "same_words (kernel_words s N) (mem s) (mem s1)"
    "heap_ok s1 A ns lv busy" "s1 = s\<lparr>heap_end := heap_end s + 0x1000 * of_nat N, mem := mem s1\<rparr>"
    "unat (heap_end s1) = unat p + 0x1000 * N"
    using sbrk_heap [OF ok grow] by (auto simp: p_def)
  note room = new_room [OF ok grow N, folded p_def]
  have head: "big_head s1 = big_head s" by (subst s1(4)) simp
  have "0x1000 * N < 2 ^ 32" using room(6) by simp
  note sz = big_size_word [OF this N, folded n_def]
  have len: "unat n + 44 = 0x1000 * N" using sz(1,3) by simp
  have p: "al4 p" using room(5) by (rule al4_page)
  have al: "al4 (p + 4)" "al4 (p + 8)" "al4 (p + 12)"
    using al4_word [OF p, of 1] al4_word [OF p, of 2] al4_word [OF p, of 3] by simp_all
  have in_new: "p + of_nat (4 * k) \<in> words p (0x1000 * N)" if "k < 4" for k
    using that N room(6) by (intro words_offset al4_add p al4_4_times) simp_all
  then have hw: "p \<in> words p (0x1000 * N)" "p + 4 \<in> words p (0x1000 * N)"
    "p + 8 \<in> words p (0x1000 * N)" "p + 12 \<in> words p (0x1000 * N)"
    using in_new [of 0] in_new [of 1] in_new [of 2] in_new [of 3] by simp_all
  note old = heap_okD [OF s1(3)] and bin = bins_okD [OF heap_okD(5) [OF s1(3)]]
  define prev where "prev = newest_big s1"
  have prev: "prev = 0 \<or> (\<exists>k f. A prev = Some (Big k f))" using old(6) by (simp add: prev_def newest_ok_def)
  have prev_out: "prev \<notin> words p (0x1000 * N)" "al4 prev" if nz: "prev \<noteq> 0"
  proof -
    obtain k f where A: "A prev = Some (Big k f)" using prev nz by blast
    have ok': "chunk_ok (mem s1) prev (Big k f)" using chunks_okD(1) [OF old(1) A] .
    show "prev \<notin> words p (0x1000 * N)" using room(3) [OF A] header_fields_in_chunk(1) [OF ok'] by blast
    show "al4 prev" using chunk_okD(4) [OF ok'] .
  qed
  define m1 where "m1 = st32 (mem s1) (p + 8) n"
  define m2 where "m2 = st32 m1 (p + 12) prev"
  define m3 where "m3 = (if prev \<noteq> 0 then st32 m2 prev p else m2)"
  define m' where "m' = st32 (st32 m3 p 0) (p + 4) 0"
  define s' where "s' = s1\<lparr>newest_big := p, mem := m'\<rparr>"
  have m2_prev: "hdr_prev m2 p = prev" by (simp add: hdr_prev_def m2_def)
  have run: "klmalloc_new_big sz s = ret (p + 44, s')"
  proof -
    have "hdr_size m1 p = n" by (simp add: m1_def hdr_size_def)
    then have fits1: "size_fits m1 p" using sz(2) by (simp only: size_fits_def)
    show ?thesis
      unfolding klmalloc_new_big_def Let_def pages s1(1) bind_ret
        prod.case room(5) refl assert_True n_def [symmetric] prev_def [symmetric] m1_def [symmetric] m2_def [symmetric] m2_prev
      using fits1 by (simp add: s'_def m'_def m3_def)
  qed
  let ?V = "{p, p + 4, p + 8, p + 12} \<union> (if prev = 0 then {} else {prev})"
  have "same_words ({p + 8} \<union> {p + 12} \<union> (if prev = 0 then {} else {prev}) \<union> {p} \<union> {p + 4}) (mem s1) m'"
  proof (intro same_words_un)
    show "same_words {p + 8} (mem s1) m1" "same_words {p + 12} m1 m2"
      unfolding m1_def m2_def using al by (simp_all add: same_words_at)
    show "same_words (if prev = 0 then {} else {prev}) m2 m3"
      using prev_out(2) by (simp add: m3_def same_words_at)
    show "same_words {p} m3 (st32 m3 p 0)" "same_words {p + 4} (st32 m3 p 0) m'"
      unfolding m'_def using al p by (simp_all add: same_words_at)
  qed
  then have "same_words ?V (mem s1) m'" by (rule same_words_mono) auto
  then have same: "same_words ?V (mem s1) (mem s')" by (simp add: s'_def)
  have kept: "ld32 m' (p + 8) = n"
  proof -
    have "p + 8 \<noteq> prev" if "prev \<noteq> 0" using prev_out(1) [OF that] hw(3) by auto
    then have "ld32 m3 (p + 8) = ld32 m2 (p + 8)" using prev_out(2) al by (simp add: m3_def ld32_st32_aligned)
    then show ?thesis using p al by (simp add: m'_def m2_def m1_def ld32_st32_aligned)
  qed
  have new: "chunk_ok (mem s') p (Big n False)"
    using kept sz(2,3) room(4,5,6) len by (simp add: s'_def hdr_size_def hdr_head_def m'_def)
  let ?A = "A(p \<mapsto> Big n False)"
  have parts: "chunks_ok s' ?A \<and> chunks_apart ?A" "skip_list s' ns lv"
    "\<And>c a. c < 10 \<Longrightarrow> chain (ld32 (mem s')) a (busy c) = chain (ld32 (mem s1)) a (busy c)"
  proof -
    have W: "?V \<subseteq> words p (chunk_len (Big n False)) \<union> {r. \<exists>n f. A r = Some (Big n f)}"
      using hw prev by (auto simp: len)
    have place: "unat p + chunk_len (Big n False) \<le> unat (heap_end s')" using s1(5) by (simp add: s'_def len)
    have apart: "words p (chunk_len (Big n False)) \<inter> words (big_head s1) 44 = {}"
      "\<And>q c. A q = Some c \<Longrightarrow> words p (chunk_len (Big n False)) \<inter> words q (chunk_len c) = {}"
      using room(2,3) unfolding head chunk_len.simps len by simp_all
    have fields: "big_head s' = big_head s1" "big_level s' = big_level s1" "heap_end s' = heap_end s1"
      by (simp_all add: s'_def)
    note facts = new_chunk_parts [OF s1(3) room(1) same W new place apart fields]
    show "chunks_ok s' ?A \<and> chunks_apart ?A" "skip_list s' ns lv"
      "\<And>c a. c < 10 \<Longrightarrow> chain (ld32 (mem s')) a (busy c) = chain (ld32 (mem s1)) a (busy c)"
      by (rule facts; assumption)+
  qed
  have small: "?A q = Some (Small c fs) \<longleftrightarrow> A q = Some (Small c fs)" for q c fs using room(1) by auto
  have bins: "bins_ok s' ?A busy"
    unfolding bins_ok_def small
  proof (intro conjI allI impI)
    show "length (bin_head s') = 10" using bin(1) by (simp add: s'_def)
    fix c :: nat assume c: "c < 10"
    show "chain (ld32 (mem s')) (bin_head s' ! c) (busy c)"
      using parts(3) [OF c] bin(2) [OF c] by (simp add: s'_def)
    show "distinct (busy c)" using bin(3) [OF c] .
    show "set (busy c) = {q. \<exists>fs. fs \<noteq> [] \<and> A q = Some (Small c fs)}" using bin(4) [OF c] by blast
  qed
  have "newest_ok s' ?A"
    unfolding newest_ok_def by (intro disjI2 exI [of _ n] exI [of _ False]) (simp add: s'_def)
  moreover have "set ns = {q. \<exists>k. ?A q = Some (Big k True)}" unfolding old(4) using room(1) by auto
  moreover have "heap_end s' mod 0x1000 = 0" using old(7) by (simp only: s'_def) simp
  ultimately have "heap_ok s' ?A ns lv busy" unfolding heap_ok_def using parts(1,2) bins by blast
  moreover have "same_words (kernel_words s N \<union> ?V) (mem s) (mem s')" using s1(2) same by (rule same_words_un)
  then have "same_words (kernel_words s N \<union> words p (unat n + 44) \<union> {r. \<exists>k f. A r = Some (Big k f)}) (mem s) (mem s')"
    by (rule same_words_mono) (use hw prev len in auto)
  ultimately show ?thesis using run room(1) by blast
qed

lemma new_big:
  assumes ok: "heap_ok s A ns lv busy" and fits: "unat sz + 44 < 2 ^ 32"
    and grow: "can_grow s A (big_pages sz)"
  defines "p \<equiv> heap_end s" and "n \<equiv> of_nat (big_pages sz) * 0x1000 - 44 :: u32"
  shows "\<exists>s'. klmalloc_new_big sz s = ret (p + 44, s') \<and>
    heap_ok s' (A(p \<mapsto> Big n False)) ns lv busy \<and> A p = None \<and> unat sz < unat n \<and>
    same_words (kernel_words s (big_pages sz) \<union> words p (unat n + 44) \<union>
      {r. \<exists>k f. A r = Some (Big k f)}) (mem s) (mem s')"
proof -
  have N: "0 < big_pages sz" by (simp add: big_pages_def)
  have "0x1000 * big_pages sz < 2 ^ 32" using new_room(6) [OF ok grow N] by linarith
  note sz = big_size_word [OF this N, folded n_def]
  have "unat sz + 44 < 0x1000 + 0x1000 * ((unat sz + 44) div 0x1000)"
    by (rule dividend_less_times_div) simp
  also have "\<dots> = 0x1000 * big_pages sz" by (simp add: big_pages_def)
  finally have "unat sz < unat n" using sz(1) by linarith
  then show ?thesis
    using new_big_pages [OF ok big_pages_word [OF fits] N grow] unfolding p_def n_def by blast
qed

end
