(* ===== verification/Heap.thy ===== *)
theory Heap
  imports HeapGrow
begin

text \<open>
  What \<^verbatim>\<open>malloc\<close>, \<^verbatim>\<open>free\<close>, \<^verbatim>\<open>realloc\<close> and \<^verbatim>\<open>calloc\<close> promise their callers, in terms of the blocks
  the callers hold: the locale \<open>heap_contract\<close> states it and is interpreted on the model of
  \<^verbatim>\<open>kernel/core/alloc.c\<close>.
\<close>

section \<open>Blocks in use\<close>

fun chunk_blocks :: "u32 \<Rightarrow> chunk \<Rightarrow> (u32 \<times> nat) set" where
  "chunk_blocks p (Small b fs) = (\<lambda>q. (q, 2 ^ (b + 2))) ` (cells p b - set fs)"
| "chunk_blocks p (Big n f) = (if f then {} else {(p + 44, unat n)})"

definition blocks :: "(u32 \<Rightarrow> chunk option) \<Rightarrow> (u32 \<times> nat) set" where
  "blocks A = {x. \<exists>p c. A p = Some c \<and> x \<in> chunk_blocks p c}"

definition block_words :: "(u32 \<Rightarrow> chunk option) \<Rightarrow> u32 set" where
  "block_words A = (\<Union>(q, l) \<in> blocks A. words q l)"

definition heap :: "'a kheap_scheme \<Rightarrow> (u32 \<Rightarrow> chunk option) \<Rightarrow> bool" where
  "heap s A \<longleftrightarrow> (\<exists>ns lv busy. heap_ok s A ns lv busy)"

lemma heapI: "heap_ok s A ns lv busy \<Longrightarrow> heap s A"
  unfolding heap_def by blast

lemma in_blocks: "x \<in> blocks A \<longleftrightarrow> (\<exists>p c. A p = Some c \<and> x \<in> chunk_blocks p c)"
  by (simp add: blocks_def)

lemma chunk_block_words:
  assumes "chunk_ok m p c" and "(q, l) \<in> chunk_blocks p c"
  shows "words q l \<subseteq> words p (chunk_len c)" and "words q l \<inter> chunk_meta p c = {}" and "p \<notin> words q l"
    and "q \<in> words q l" and "c = Big n f \<Longrightarrow> \<not> f" and "al4 q" and "q \<noteq> 0" and "q \<in> words p (chunk_len c)"
proof -
  have p: "al4 p" using chunk_okD(4) [OF assms(1)] .
  have "words q l \<subseteq> words p (chunk_len c) \<and> words q l \<inter> chunk_meta p c = {} \<and> p \<notin> words q l \<and>
    q \<in> words q l \<and> (\<forall>n f. c = Big n f \<longrightarrow> \<not> f) \<and> al4 q \<and> q \<noteq> 0"
  proof (cases c)
    case (Small b fs)
    then have ok: "b < 10" "unat p + 0x1000 \<le> 2 ^ 32" "set fs \<subseteq> cells p b" and q: "q \<in> cells p b" "q \<notin> set fs" "l = 2 ^ (b + 2)"
      using assms by auto
    have sub: "words q l \<subseteq> words (p + 12) 4084" "words (p + 12) 4084 \<subseteq> words p 0x1000"
      unfolding q(3) by (rule cell_words [OF ok(1,2) q(1)])+
    have self: "q \<in> words q l" unfolding q(3) using cell_self [OF p q(1)] .
    have "r \<notin> words q l" if r: "r \<in> set fs" for r
    proof -
      have "r \<in> cells p b" "q \<noteq> r" using r ok(3) q(2) by auto
      then show ?thesis using cells_apart [OF ok(1,2) q(1)] cell_self [OF p] unfolding q(3) by blast
    qed
    moreover have "q \<noteq> 0" using small_page(8) [of m p b fs] assms(1) Small q(1) by auto
    ultimately show ?thesis
      using sub self header_not_after [OF ok(2) p] al4_cell [OF p q(1)] Small by auto
  next
    case (Big n f)
    then have f: "\<not> f" and q: "q = p + 44" "l = unat n" using assms(2) by (auto split: if_splits)
    have ok: "unat p + (unat n + 44) \<le> 2 ^ 32" "4052 \<le> unat n" using assms(1) Big by simp_all
    have sub: "words q l \<subseteq> words p (unat n + 44)" using words_sub [of p "unat n + 44" 44 "unat n"] ok(1) q by simp
    have "unat (p + 44) = unat p + 44" using unat_add_small [of p 44] ok by simp
    then have apart: "words p 44 \<inter> words q l = {}" unfolding q using ok by (intro words_apart) simp_all
    have "p + of_nat 0 \<in> words p 44" "p + of_nat 4 \<in> words p 44" "p + of_nat 8 \<in> words p 44"
      using p al4_word [OF p, of 1] al4_word [OF p, of 2] by (intro words_offset; simp)+
    then have hdr: "p \<in> words p 44" "p + 4 \<in> words p 44" "p + 8 \<in> words p 44" by simp_all
    have "al4 q" unfolding q using al4_word [OF p, of 11] by simp
    moreover have "q \<in> words q l" using \<open>al4 q\<close> ok(2) q(2) by (simp add: words_def in_range_def)
    ultimately show ?thesis using sub apart hdr Big f big_mem(7) [of m p n f] assms(1) q by auto
  qed
  then show "words q l \<subseteq> words p (chunk_len c)" "words q l \<inter> chunk_meta p c = {}" "p \<notin> words q l"
    "q \<in> words q l" "c = Big n f \<Longrightarrow> \<not> f" "al4 q" "q \<noteq> 0" "q \<in> words p (chunk_len c)" by blast+
qed

lemma chunk_blocks_apart:
  assumes "chunk_ok m p c" and "(q, l) \<in> chunk_blocks p c" and "(r, k) \<in> chunk_blocks p c" and "(q, l) \<noteq> (r, k)"
  shows "words q l \<inter> words r k = {}"
proof (cases c)
  case (Small b fs)
  then have "b < 10" "unat p + 0x1000 \<le> 2 ^ 32" using assms(1) by simp_all
  then show ?thesis using cells_apart [of b p q r] assms(2-4) Small by auto
next
  case (Big n f)
  then show ?thesis using assms(2-4) by (auto split: if_splits)
qed

lemma block_word:
  assumes "chunks_ok s A" and "x \<in> block_words A"
  obtains p c where "A p = Some c" and "x \<in> words p (chunk_len c)" and "x \<notin> chunk_meta p c" and "x \<noteq> p"
    and "\<And>n. c \<noteq> Big n True"
proof -
  obtain q l where q: "(q, l) \<in> blocks A" "x \<in> words q l" using assms(2) by (auto simp: block_words_def)
  then obtain p c where c: "A p = Some c" "(q, l) \<in> chunk_blocks p c" by (auto simp: in_blocks)
  note facts = chunk_block_words [OF chunks_okD(1) [OF assms(1) c(1)] c(2)]
  show ?thesis using that [OF c(1)] facts(1-3,5) q(2) by blast
qed

lemma blocks_other:
  assumes "chunks_ok s A" and "chunks_apart A" and "A p = Some c" and "A r = Some d" and "p \<noteq> r"
  shows "chunk_blocks p c \<inter> chunk_blocks r d = {}"
proof -
  have "(q, l) \<notin> chunk_blocks r d" if "(q, l) \<in> chunk_blocks p c" for q l
    using chunk_block_words(8) [OF chunks_okD(1) [OF assms(1,3)] that]
      chunk_block_words(8) [OF chunks_okD(1) [OF assms(1,4)], of q l] chunks_apartD [OF assms(2-5)] by blast
  then show ?thesis by auto
qed

lemma blocks_change:
  assumes "chunks_ok s A" and "chunks_apart A" and "A p = Some c"
  shows "blocks (A(p \<mapsto> c')) = (blocks A - chunk_blocks p c) \<union> chunk_blocks p c'"
proof (intro set_eqI iffI)
  fix x assume "x \<in> blocks (A(p \<mapsto> c'))"
  then obtain r d where r: "(A(p \<mapsto> c')) r = Some d" "x \<in> chunk_blocks r d" unfolding in_blocks by blast
  show "x \<in> (blocks A - chunk_blocks p c) \<union> chunk_blocks p c'"
  proof (cases "r = p")
    case False
    then have d: "A r = Some d" using r(1) by simp
    have "x \<in> blocks A" unfolding in_blocks using d r(2) by blast
    moreover have "x \<notin> chunk_blocks p c" using blocks_other [OF assms d] False r(2) by blast
    ultimately show ?thesis by blast
  qed (use r in simp)
next
  fix x assume "x \<in> (blocks A - chunk_blocks p c) \<union> chunk_blocks p c'"
  then consider "x \<in> chunk_blocks p c'" | r d where "A r = Some d" "x \<in> chunk_blocks r d" "x \<notin> chunk_blocks p c"
    unfolding Un_iff Diff_iff in_blocks by blast
  then show "x \<in> blocks (A(p \<mapsto> c'))"
  proof cases
    case 1
    then show ?thesis unfolding in_blocks by (intro exI [of _ p] exI [of _ c']) simp
  next
    case 2
    then have "r \<noteq> p" using assms(3) by auto
    then show ?thesis unfolding in_blocks using 2 by (intro exI [of _ r] exI [of _ d]) simp
  qed
qed

lemma blocks_new: "A p = None \<Longrightarrow> blocks (A(p \<mapsto> c)) = blocks A \<union> chunk_blocks p c"
proof (intro set_eqI iffI)
  fix x assume "A p = None" "x \<in> blocks (A(p \<mapsto> c))"
  then obtain r d where r: "(A(p \<mapsto> c)) r = Some d" "x \<in> chunk_blocks r d" unfolding in_blocks by blast
  show "x \<in> blocks A \<union> chunk_blocks p c"
  proof (cases "r = p")
    case False
    then have "A r = Some d" using r(1) by simp
    then show ?thesis using r(2) unfolding Un_iff in_blocks by blast
  qed (use r in simp)
next
  fix x assume none: "A p = None" and "x \<in> blocks A \<union> chunk_blocks p c"
  then consider "x \<in> chunk_blocks p c" | r d where "A r = Some d" "x \<in> chunk_blocks r d"
    unfolding Un_iff in_blocks by blast
  then show "x \<in> blocks (A(p \<mapsto> c))"
  proof cases
    case 1
    then show ?thesis unfolding in_blocks by (intro exI [of _ p] exI [of _ c]) simp
  next
    case 2
    then have "r \<noteq> p" using none by auto
    then show ?thesis unfolding in_blocks using 2 by (intro exI [of _ r] exI [of _ d]) simp
  qed
qed

lemma blocks_apart:
  assumes "heap s A" and "(q, l) \<in> blocks A" and "(r, k) \<in> blocks A" and "(q, l) \<noteq> (r, k)"
  shows "words q l \<inter> words r k = {}"
proof -
  obtain ns lv busy where ok: "heap_ok s A ns lv busy" using assms(1) unfolding heap_def by blast
  note parts = heap_okD(1,2) [OF ok]
  obtain p c where p: "A p = Some c" "(q, l) \<in> chunk_blocks p c" using assms(2) unfolding in_blocks by blast
  obtain p' c' where p': "A p' = Some c'" "(r, k) \<in> chunk_blocks p' c'" using assms(3) unfolding in_blocks by blast
  note ok = chunks_okD(1) [OF parts(1)]
  show ?thesis
  proof (cases "p = p'")
    case True
    then show ?thesis using chunk_blocks_apart [OF ok [OF p(1)] p(2)] p p' assms(4) by auto
  next
    case False
    then show ?thesis
      using chunk_block_words(1) [OF ok [OF p(1)] p(2)] chunk_block_words(1) [OF ok [OF p'(1)] p'(2)]
        chunks_apartD [OF parts(2) p(1) p'(1)] by blast
  qed
qed

lemma block_valid:
  assumes "heap s A" and "(q, l) \<in> blocks A"
  shows "q \<noteq> 0" and "al4 q" and "q \<in> words q l"
proof -
  obtain ns lv busy where ok: "heap_ok s A ns lv busy" using assms(1) unfolding heap_def by blast
  obtain p c where p: "A p = Some c" "(q, l) \<in> chunk_blocks p c" using assms(2) unfolding in_blocks by blast
  note facts = chunk_block_words [OF chunks_okD(1) [OF heap_okD(1) [OF ok] p(1)] p(2)]
  show "q \<noteq> 0" "al4 q" "q \<in> words q l" using facts by blast+
qed

text \<open>Writing in blocks in use does not disturb the heap.\<close>

lemma heap_client_write:
  assumes "heap s A" and same: "same_words (block_words A) (mem s) m'"
  shows "heap (s\<lparr>mem := m'\<rparr>) A"
proof -
  obtain ns lv busy where ok: "heap_ok s A ns lv busy" using assms(1) unfolding heap_def by blast
  note parts = heap_okD [OF ok]
  have outside: "x \<notin> chunk_meta p c \<and> x \<noteq> p \<and> (x \<in> words p 44 \<longrightarrow> (\<forall>n. c \<noteq> Big n True))"
    if x: "x \<in> block_words A" and A: "A p = Some c" for x p c
  proof -
    obtain r d where r: "A r = Some d" "x \<in> words r (chunk_len d)" "x \<notin> chunk_meta r d" "x \<noteq> r" "\<And>n. d \<noteq> Big n True"
      using block_word [OF parts(1) x] by blast
    show ?thesis
    proof (cases "r = p")
      case True
      then show ?thesis using r A by auto
    next
      case False
      have "x \<notin> words p (chunk_len c)" using chunks_apartD [OF parts(2) r(1) A False] r(2) by blast
      then show ?thesis using meta_in_chunk [OF chunks_okD(1) [OF parts(1) A]]
          header_fields_in_chunk(1,6) [OF chunks_okD(1) [OF parts(1) A]] by blast
    qed
  qed
  have "heap_ok (s\<lparr>mem := m'\<rparr>) A ns lv busy"
  proof (rule heap_ok_frame [OF ok, of "block_words A"])
    show "block_words A \<inter> chunk_meta p c = {}" if A: "A p = Some c" for p c
      using outside [OF _ A] by blast
    show "p \<notin> block_words A" if A: "A p = Some (Small b fs)" for p b fs
      using outside [OF _ A] by blast
    show "block_words A \<inter> words q 44 = {}" if q: "q \<in> insert (big_head s) (set ns)" for q
    proof (cases "q = big_head s")
      case True
      have "x \<notin> words q 44" if x: "x \<in> block_words A" for x
      proof -
        obtain r d where r: "A r = Some d" "x \<in> words r (chunk_len d)"
          using block_word [OF parts(1) x] by blast
        then show ?thesis using chunks_okD(3) [OF parts(1) r(1)] unfolding True by blast
      qed
      then show ?thesis by blast
    next
      case False
      then obtain n where A: "A q = Some (Big n True)" using q parts(4) by blast
      show ?thesis using outside [OF _ A] by blast
    qed
  qed (use same parts(7) in simp_all)
  then show ?thesis by (rule heapI)
qed

section \<open>Allocation and release\<close>

lemma block_word_outside:
  assumes "chunks_ok s A" and "chunks_apart A" and "x \<in> block_words A" and A: "A p = Some c"
  shows "x \<notin> chunk_meta p c" and "x \<noteq> p" and "c = Big n True \<Longrightarrow> x \<notin> words p (chunk_len c)"
    and "al4 x" and "x \<notin> words (big_head s) 44"
proof -
  obtain r d where r: "A r = Some d" "x \<in> words r (chunk_len d)" "x \<notin> chunk_meta r d" "x \<noteq> r" "\<And>n. d \<noteq> Big n True"
    using block_word [OF assms(1,3)] by blast
  note chunk = chunks_okD(1) [OF assms(1) A]
  have "x \<notin> chunk_meta p c \<and> x \<noteq> p \<and> (c = Big n True \<longrightarrow> x \<notin> words p (chunk_len c))"
  proof (cases "r = p")
    case True
    then show ?thesis using r A by auto
  next
    case False
    have "x \<notin> words p (chunk_len c)" using chunks_apartD [OF assms(2) r(1) A False] r(2) by blast
    then show ?thesis using meta_in_chunk [OF chunk] header_fields_in_chunk(1) [OF chunk] by blast
  qed
  then show "x \<notin> chunk_meta p c" "x \<noteq> p" "c = Big n True \<Longrightarrow> x \<notin> words p (chunk_len c)" by blast+
  show "al4 x" using r(2) unfolding words_def by blast
  show "x \<notin> words (big_head s) 44" using chunks_okD(3) [OF assms(1) r(1)] r(2) by blast
qed

lemma block_word_big:
  assumes ok: "heap_ok s A ns lv busy" and A: "A p = Some (Big n f)" and x: "x \<in> block_words A"
    and out: "x \<notin> words p (unat n + 44)"
  shows "x \<notin> big_words s ns p"
proof
  assume "x \<in> big_words s ns p"
  note parts = heap_okD [OF ok]
  note chunk = chunks_okD(1) [OF parts(1) A]
  have "words p 44 \<subseteq> words p (unat n + 44)" by (rule words_mono) simp
  moreover have "{p + 4, p + 44} \<subseteq> words p (unat n + 44)" using header_fields_in_chunk(2,5) [OF chunk] by simp
  ultimately have out': "x \<notin> words p 44" "x \<notin> {p + 4, p + 44}" using out by blast+
  have H: "al4 r" if "r \<in> insert (big_head s) (insert p (set ns))" for r
    using that heap_header_al4 [OF ok] chunk_okD(4) [OF chunk] by blast
  have "x \<in> fwd_words (insert (big_head s) (insert p (set ns)))"
    using \<open>x \<in> big_words s ns p\<close> out'(2) unfolding big_words_def by blast
  then obtain r where r: "r \<in> insert (big_head s) (insert p (set ns))" "x \<in> words r 44"
    using fwd_words_in_header [OF _ H] by blast
  then have "r \<in> set ns" using out'(1) block_word_outside(5) [OF parts(1,2) x A] by blast
  then obtain k where R: "A r = Some (Big k True)" using parts(4) by blast
  then show False
    using block_word_outside(3) [OF parts(1,2) x R refl] r(2) header_fields_in_chunk(6) [OF chunks_okD(1) [OF parts(1) R]]
    by blast
qed

lemma unchanged_words:
  "same_words W m m' \<Longrightarrow> (\<And>x. x \<in> X \<Longrightarrow> al4 x \<and> x \<notin> W) \<Longrightarrow> \<forall>x \<in> X. ld32 m' x = ld32 m x"
  by (auto simp: same_words_def)

lemma block_words_al4: "x \<in> block_words A \<Longrightarrow> al4 x"
  by (auto simp: block_words_def words_def)

text \<open>
  \<open>room_for s A sz\<close>: the bin of the size has a free cell, or a free big block is large enough, or
  the heap can grow by the pages that are needed.
\<close>

definition room_for :: "'a kheap_scheme \<Rightarrow> (u32 \<Rightarrow> chunk option) \<Rightarrow> u32 \<Rightarrow> bool" where
  "room_for s A sz \<longleftrightarrow> (if sz \<le> 2048
     then (\<exists>p fs. fs \<noteq> [] \<and> A p = Some (Small (unat (klmalloc_bin_size sz)) fs)) \<or> can_grow s A 1
     else (\<exists>p n. A p = Some (Big n True) \<and> sz \<le> n) \<or> (unat sz + 44 < 2 ^ 32 \<and> can_grow s A (big_pages sz)))"

text \<open>The block \<open>(q, l)\<close> has been added to the blocks in use, whose contents are kept.\<close>

definition gained :: "'a kheap_scheme \<Rightarrow> (u32 \<Rightarrow> chunk option) \<Rightarrow> u32 \<Rightarrow> nat \<Rightarrow>
    'a kheap_scheme \<Rightarrow> (u32 \<Rightarrow> chunk option) \<Rightarrow> bool" where
  "gained s A q l s' A' \<longleftrightarrow> heap s' A' \<and> (q, l) \<notin> blocks A \<and> blocks A' = insert (q, l) (blocks A) \<and>
     (\<forall>x \<in> block_words A. ld32 (mem s') x = ld32 (mem s) x)"

text \<open>\<open>l\<close> bytes are enough for a request of \<open>sz\<close>, and exactly a cell of its bin if it is small.\<close>

definition size_for :: "u32 \<Rightarrow> nat \<Rightarrow> bool" where
  "size_for sz l \<longleftrightarrow> unat sz \<le> l \<and> (sz \<le> 2048 \<longrightarrow> l = 2 ^ (unat (klmalloc_bin_size sz) + 2))"

lemma pop_small_blocks:
  assumes "chunk_ok m p (Small b (q # fs))"
  shows "chunk_blocks p (Small b fs) = insert (q, 2 ^ (b + 2)) (chunk_blocks p (Small b (q # fs)))"
    and "(q, 2 ^ (b + 2)) \<notin> chunk_blocks p (Small b (q # fs))"
  using assms by auto

lemma malloc_small_pop:
  assumes ok: "heap_ok s A ns lv busy" and b: "b < 10" and first: "busy b = p # ps"
  shows "\<exists>q s' A'. klmalloc_small b s = ret (q, s') \<and> gained s A q (2 ^ (b + 2)) s' A'"
proof -
  note parts = heap_okD [OF ok]
  have "p \<in> set (busy b)" using first by simp
  then obtain gs where "gs \<noteq> []" "A p = Some (Small b gs)" using bins_okD(4) [OF parts(5) b] by blast
  then obtain q fs where A: "A p = Some (Small b (q # fs))" by (cases gs) auto
  obtain s' busy' where s': "klmalloc_small b s = ret (q, s')" "heap_ok s' (A(p \<mapsto> Small b fs)) ns lv busy'"
    "same_words {p, p + 4} (mem s) (mem s')" using pop_small [OF ok b first A] by blast
  have chunk: "chunk_ok (mem s) p (Small b (q # fs))" using chunks_okD(1) [OF parts(1) A] .
  note pop = pop_small_blocks [OF chunk]
  note other = blocks_other [OF parts(1,2) A]
  have new: "(q, 2 ^ (b + 2)) \<notin> blocks A"
  proof
    assume "(q, 2 ^ (b + 2)) \<in> blocks A"
    then obtain r d where r: "A r = Some d" "(q, 2 ^ (b + 2)) \<in> chunk_blocks r d" unfolding in_blocks by blast
    have "r \<noteq> p" using r pop(2) A by auto
    then have "words p (chunk_len (Small b (q # fs))) \<inter> words r (chunk_len d) = {}"
      using chunks_apartD [OF parts(2) A r(1)] by blast
    moreover have "q \<in> words r (chunk_len d)" using chunk_block_words(8) [OF chunks_okD(1) [OF parts(1) r(1)] r(2)] .
    moreover have "q \<in> words p (chunk_len (Small b (q # fs)))" using meta_in_chunk [OF chunk] by auto
    ultimately show False by blast
  qed
  have "chunk_blocks p (Small b (q # fs)) \<subseteq> blocks A" using A unfolding blocks_def by blast
  then have blocks: "blocks (A(p \<mapsto> Small b fs)) = insert (q, 2 ^ (b + 2)) (blocks A)"
    unfolding blocks_change [OF parts(1,2) A] pop(1) by blast
  have "\<forall>x \<in> block_words A. ld32 (mem s') x = ld32 (mem s) x"
    using s'(3)
  proof (rule unchanged_words)
    fix x assume x: "x \<in> block_words A"
    show "al4 x \<and> x \<notin> {p, p + 4}"
      using block_word_outside(1,2) [OF parts(1,2) x A] block_words_al4 [OF x] by auto
  qed
  then show ?thesis
    unfolding gained_def using s'(1) heapI [OF s'(2)] new blocks by blast
qed

lemma malloc_small_grow:
  assumes ok: "heap_ok s A ns lv busy" and b: "b < 10" and none: "busy b = []" and grow: "can_grow s A 1"
  shows "\<exists>q s' A'. klmalloc_small b s = ret (q, s') \<and> gained s A q (2 ^ (b + 2)) s' A'"
proof -
  note parts = heap_okD [OF ok]
  let ?p = "heap_end s"
  obtain q fs s' busy' where s': "klmalloc_small b s = ret (q, s')" "page_cells ?p b = q # fs"
    "heap_ok s' (A(?p \<mapsto> Small b fs)) ns lv busy'" "A ?p = None"
    "same_words (kernel_words s 1 \<union> words ?p 0x1000) (mem s) (mem s')"
    using pop_new_page [OF ok grow b none] by blast
  note room = new_room [OF ok grow zero_less_one]
  have cells: "cells ?p b = insert q (set fs)" "q \<notin> set fs"
    using set_page_cells [of ?p b] distinct_page_cells [OF b, of ?p] room(6) s'(2) by auto
  then have cb: "chunk_blocks ?p (Small b fs) = {(q, 2 ^ (b + 2))}" by auto
  have blocks: "blocks (A(?p \<mapsto> Small b fs)) = insert (q, 2 ^ (b + 2)) (blocks A)"
    unfolding blocks_new [of A, OF s'(4)] cb by blast
  have new: "(q, 2 ^ (b + 2)) \<notin> blocks A"
  proof
    assume "(q, 2 ^ (b + 2)) \<in> blocks A"
    then obtain r d where r: "A r = Some d" "(q, 2 ^ (b + 2)) \<in> chunk_blocks r d" unfolding in_blocks by blast
    have "q \<in> words r (chunk_len d)" using chunk_block_words(8) [OF chunks_okD(1) [OF parts(1) r(1)] r(2)] .
    moreover have "q \<in> words ?p 0x1000"
      using cell_in_page(2) [OF al4_page [OF room(5)] b, of q] room(6) cells(1) by simp
    ultimately show False using room(3) [OF r(1)] by auto
  qed
  have "\<forall>x \<in> block_words A. ld32 (mem s') x = ld32 (mem s) x"
    using s'(5)
  proof (rule unchanged_words)
    fix x assume x: "x \<in> block_words A"
    obtain r d where r: "A r = Some d" "x \<in> words r (chunk_len d)" using block_word [OF parts(1) x] by blast
    have "kernel_words s 1 \<inter> words r (chunk_len d) = {}" using grow r(1) unfolding can_grow_def by blast
    then show "al4 x \<and> x \<notin> kernel_words s 1 \<union> words ?p 0x1000"
      using block_words_al4 [OF x] room(3) [OF r(1)] r(2) by auto
  qed
  then show ?thesis
    unfolding gained_def using s'(1) heapI [OF s'(3)] new blocks by blast
qed

lemma malloc_big_reuse:
  assumes ok: "heap_ok s A ns lv busy" and first: "above (mem s) sz ns = p # as"
  shows "\<exists>q l s' A'. klmalloc_big sz s = ret (q, s') \<and> gained s A q l s' A' \<and> unat sz \<le> l"
proof -
  note parts = heap_okD [OF ok]
  have sorted: "sorted (map (hdr_size (mem s)) ns)" using parts(3) unfolding skip_list_def by blast
  have p: "p \<in> set ns" "sz \<le> hdr_size (mem s) p" using above_large [OF sorted, of p sz] first by simp_all
  then obtain n where A: "A p = Some (Big n True)" using parts(4) by blast
  have chunk: "chunk_ok (mem s) p (Big n True)" using chunks_okD(1) [OF parts(1) A] .
  then have sz: "unat sz \<le> unat n" using p(2) by (simp add: word_le_nat_alt)
  obtain s' where s': "klmalloc_big sz s = ret (p + 44, s')"
    "heap_ok s' (A(p \<mapsto> Big n False)) (below (mem s) sz ns @ as) lv busy"
    "same_words (big_words s ns p) (mem s) (mem s')" using pop_big [OF ok first A] by blast
  have blocks: "blocks (A(p \<mapsto> Big n False)) = insert (p + 44, unat n) (blocks A)"
    unfolding blocks_change [OF parts(1,2) A] by simp
  have new: "(p + 44, unat n) \<notin> blocks A"
  proof
    assume "(p + 44, unat n) \<in> blocks A"
    then obtain r d where r: "A r = Some d" "(p + 44, unat n) \<in> chunk_blocks r d" unfolding in_blocks by blast
    have "r \<noteq> p" using r A by auto
    then show False
      using chunk_block_words(8) [OF chunks_okD(1) [OF parts(1) r(1)] r(2)]
        chunks_apartD [OF parts(2) r(1) A] header_fields_in_chunk(5) [OF chunk] by blast
  qed
  have "\<forall>x \<in> block_words A. ld32 (mem s') x = ld32 (mem s) x"
    using s'(3)
  proof (rule unchanged_words)
    fix x assume x: "x \<in> block_words A"
    have "x \<notin> words p (unat n + 44)" using block_word_outside(3) [OF parts(1,2) x A refl] by simp
    then show "al4 x \<and> x \<notin> big_words s ns p" using block_word_big [OF ok A x] block_words_al4 [OF x] by blast
  qed
  then show ?thesis
    unfolding gained_def using s'(1) heapI [OF s'(2)] sz new blocks by blast
qed

lemma malloc_big_pages:
  assumes ok: "heap_ok s A ns lv busy" and none: "above (mem s) sz ns = []"
    and pages: "(sz + 44) div 0x1000 + 1 = of_nat N" and pos: "0 < N" and grow: "can_grow s A N"
  shows "\<exists>q s' A'. klmalloc_big sz s = ret (q, s') \<and> gained s A q (0x1000 * N - 44) s' A'"
proof -
  note parts = heap_okD [OF ok]
  let ?p = "heap_end s"
  define n :: u32 where "n = of_nat N * 0x1000 - 44"
  obtain s' where s': "klmalloc_new_big sz s = ret (?p + 44, s')" "heap_ok s' (A(?p \<mapsto> Big n False)) ns lv busy"
    "A ?p = None"
    "same_words (kernel_words s N \<union> words ?p (unat n + 44) \<union> {r. \<exists>k f. A r = Some (Big k f)}) (mem s) (mem s')"
    using new_big_pages [OF ok pages pos grow] unfolding n_def by blast
  note room = new_room [OF ok grow pos]
  have "0x1000 * N < 2 ^ 32" using room(6) by linarith
  note sz = big_size_word [OF this pos, folded n_def]
  have len: "unat n + 44 = 0x1000 * N" using sz(1,3) by simp
  have "klmalloc_skip_list_findbest sz s = ret 0" using findbest_above [OF parts(3), of sz] none by simp
  then have run: "klmalloc_big sz s = ret (?p + 44, s')" using s'(1) by (simp add: klmalloc_big_def)
  have blocks: "blocks (A(?p \<mapsto> Big n False)) = insert (?p + 44, unat n) (blocks A)"
    unfolding blocks_new [of A, OF s'(3)] by simp
  have "al4 (?p + 44)" using al4_word [OF al4_page [OF room(5)], of 11] by simp
  then have "?p + of_nat 44 \<in> words ?p (0x1000 * N)"
    using pos room(6) by (intro words_offset) simp_all
  then have p44: "?p + 44 \<in> words ?p (0x1000 * N)" by simp
  have new: "(?p + 44, unat n) \<notin> blocks A"
  proof
    assume "(?p + 44, unat n) \<in> blocks A"
    then obtain r d where r: "A r = Some d" "(?p + 44, unat n) \<in> chunk_blocks r d" unfolding in_blocks by blast
    show False
      using chunk_block_words(8) [OF chunks_okD(1) [OF parts(1) r(1)] r(2)] room(3) [OF r(1)] p44 by blast
  qed
  have "\<forall>x \<in> block_words A. ld32 (mem s') x = ld32 (mem s) x"
    using s'(4)
  proof (rule unchanged_words)
    fix x assume x: "x \<in> block_words A"
    obtain r d where r: "A r = Some d" "x \<in> words r (chunk_len d)" using block_word [OF parts(1) x] by blast
    have "kernel_words s N \<inter> words r (chunk_len d) = {}" using grow r(1) unfolding can_grow_def by blast
    moreover have "x \<notin> words ?p (unat n + 44)" using room(3) [OF r(1)] r(2) unfolding len by blast
    moreover have "\<not> (\<exists>k f. A x = Some (Big k f))" using block_word_outside(2) [OF parts(1,2) x] by blast
    ultimately show "al4 x \<and> x \<notin> kernel_words s N \<union> words ?p (unat n + 44) \<union> {r. \<exists>k f. A r = Some (Big k f)}"
      using block_words_al4 [OF x] r(2) by blast
  qed
  then show ?thesis
    unfolding gained_def sz(1) [symmetric] using run heapI [OF s'(2)] new blocks by blast
qed

lemma malloc_big_grow:
  assumes ok: "heap_ok s A ns lv busy" and none: "above (mem s) sz ns = []"
    and fits: "unat sz + 44 < 2 ^ 32" and grow: "can_grow s A (big_pages sz)"
  shows "\<exists>q l s' A'. klmalloc_big sz s = ret (q, s') \<and> gained s A q l s' A' \<and> unat sz \<le> l"
proof -
  have "unat sz + 44 < 0x1000 + 0x1000 * ((unat sz + 44) div 0x1000)"
    by (rule dividend_less_times_div) simp
  also have "\<dots> = 0x1000 * big_pages sz" by (simp add: big_pages_def)
  finally have "unat sz \<le> 0x1000 * big_pages sz - 44" by linarith
  moreover have "0 < big_pages sz" by (simp add: big_pages_def)
  ultimately show ?thesis
    using malloc_big_pages [OF ok none big_pages_word [OF fits] _ grow] by blast
qed

lemma klmalloc_allocates:
  assumes "heap s A" and "sz \<noteq> 0" and room: "room_for s A sz"
  shows "\<exists>q l s' A'. klmalloc sz s = ret (q, s') \<and> gained s A q l s' A' \<and> size_for sz l"
proof -
  obtain ns lv busy where ok: "heap_ok s A ns lv busy" using assms(1) unfolding heap_def by blast
  note parts = heap_okD [OF ok]
  define b where "b = unat (klmalloc_bin_size sz)"
  note bin = bin_size_fits [OF assms(2), folded b_def]
  have big: "BIG_BIN = 10" by (simp add: BIG_BIN_def NUM_BINS_def)
  show ?thesis
  proof (cases "sz \<le> 2048")
    case True
    then have b: "b < 10" "unat sz \<le> 2 ^ (b + 2)" using bin by simp_all
    then have sz: "size_for sz (2 ^ (b + 2))" unfolding size_for_def b_def by simp
    from b(1) have "klmalloc_bin_size sz < BIG_BIN" unfolding big b_def by (simp add: word_less_nat_alt)
    then have run: "klmalloc sz s = klmalloc_small b s" using assms(2) by (simp add: klmalloc_def b_def)
    show ?thesis
    proof (cases "busy b")
      case Nil
      have "\<not> (\<exists>p fs. fs \<noteq> [] \<and> A p = Some (Small b fs))" using bins_okD(4) [OF parts(5) b(1)] Nil by auto
      then have "can_grow s A 1" using room True unfolding room_for_def b_def by auto
      then show ?thesis unfolding run using malloc_small_grow [OF ok b(1) Nil] sz by blast
    next
      case (Cons p ps)
      then show ?thesis unfolding run using malloc_small_pop [OF ok b(1) Cons] sz by blast
    qed
  next
    case False
    then have "klmalloc_bin_size sz = 10" using bin_size_fits [OF assms(2)] by simp
    then have run: "klmalloc sz s = klmalloc_big sz s" using assms(2) big by (simp add: klmalloc_def)
    show ?thesis
    proof (cases "above (mem s) sz ns")
      case Nil
      have "\<not> sz \<le> n" if A: "A p = Some (Big n True)" for p n
      proof -
        have "p \<in> set ns" using A parts(4) by blast
        moreover have "klmalloc_skip_list_findbest sz s = ret 0" using findbest_above [OF parts(3), of sz] Nil by simp
        ultimately have "hdr_size (mem s) p < sz" by (intro findbest_none [OF parts(3)])
        moreover have "hdr_size (mem s) p = n" using chunks_okD(1) [OF parts(1) A] by simp
        ultimately show ?thesis by simp
      qed
      then have "unat sz + 44 < 2 ^ 32 \<and> can_grow s A (big_pages sz)"
        using room False unfolding room_for_def by auto
      then show ?thesis unfolding run size_for_def using malloc_big_grow [OF ok Nil] False by blast
    next
      case (Cons p ps)
      then show ?thesis unfolding run size_for_def using malloc_big_reuse [OF ok Cons] False by blast
    qed
  qed
qed

lemma klfree_releases:
  assumes "heap s A" and "(q, l) \<in> blocks A"
  shows "\<exists>s' A'. klfree q s = ret s' \<and> heap s' A' \<and> blocks A' = blocks A - {(q, l)} \<and>
    (\<forall>x \<in> block_words A'. ld32 (mem s') x = ld32 (mem s) x)"
proof -
  obtain ns lv busy where ok: "heap_ok s A ns lv busy" using assms(1) unfolding heap_def by blast
  note parts = heap_okD [OF ok]
  obtain p c where A: "A p = Some c" and c: "(q, l) \<in> chunk_blocks p c" using assms(2) unfolding in_blocks by blast
  note change = blocks_change [OF parts(1,2) A]
  have old: "chunk_blocks p c \<subseteq> blocks A" using A unfolding blocks_def by blast
  show ?thesis
  proof (cases c)
    case (Small b fs)
    then have q: "q \<in> cells p b" "q \<notin> set fs" "l = 2 ^ (b + 2)" using c by auto
    obtain s' busy' where s': "klfree q s = ret s'" "heap_ok s' (A(p \<mapsto> Small b (q # fs))) ns lv busy'"
      "same_words {p, p + 4, q} (mem s) (mem s')" using push_small [OF ok A [unfolded Small] q(1,2)] by blast
    have "chunk_blocks p (Small b (q # fs)) = chunk_blocks p c - {(q, l)}" using q(3) Small by auto
    then have "blocks (A(p \<mapsto> Small b (q # fs))) = blocks A - {(q, l)}"
      unfolding change using old c by blast
    moreover have "\<forall>x \<in> block_words (A(p \<mapsto> Small b (q # fs))). ld32 (mem s') x = ld32 (mem s) x"
      using s'(3)
    proof (rule unchanged_words)
      fix x assume x: "x \<in> block_words (A(p \<mapsto> Small b (q # fs)))"
      have at: "(A(p \<mapsto> Small b (q # fs))) p = Some (Small b (q # fs))" by simp
      show "al4 x \<and> x \<notin> {p, p + 4, q}"
        using block_word_outside(1,2) [OF heap_okD(1,2) [OF s'(2)] x at] block_words_al4 [OF x] by auto
    qed
    ultimately show ?thesis using s'(1) heapI [OF s'(2)] by blast
  next
    case (Big n f)
    then have q: "q = p + 44" "l = unat n" "\<not> f" using c by (auto split: if_splits)
    then have A': "A p = Some (Big n False)" using A Big by simp
    obtain s' ns' lv' where s': "klfree q s = ret s'" "heap_ok s' (A(p \<mapsto> Big n True)) ns' lv' busy"
      "same_words (big_words s ns p) (mem s) (mem s')" using push_big [OF ok A'] q(1) by blast
    have "blocks (A(p \<mapsto> Big n True)) = blocks A - {(q, l)}"
      unfolding change using Big q by simp
    moreover from this have sub: "block_words (A(p \<mapsto> Big n True)) \<subseteq> block_words A"
      unfolding block_words_def by blast
    have "\<forall>x \<in> block_words (A(p \<mapsto> Big n True)). ld32 (mem s') x = ld32 (mem s) x"
      using s'(3)
    proof (rule unchanged_words)
      fix x assume x: "x \<in> block_words (A(p \<mapsto> Big n True))"
      have at: "(A(p \<mapsto> Big n True)) p = Some (Big n True)" by simp
      have "x \<notin> words p (unat n + 44)"
        using block_word_outside(3) [OF heap_okD(1,2) [OF s'(2)] x at refl] by simp
      then show "al4 x \<and> x \<notin> big_words s ns p"
        using block_word_big [OF ok A' _] sub x block_words_al4 [OF x] by blast
    qed
    ultimately show ?thesis using s'(1) heapI [OF s'(2)] by blast
  qed
qed

end
