(* ===== verification/Malloc.thy ===== *)
theory Malloc
  imports Heap
begin

text \<open>
  The interface of the heap: \<^verbatim>\<open>malloc\<close>, \<^verbatim>\<open>free\<close>, \<^verbatim>\<open>realloc\<close> and \<^verbatim>\<open>calloc\<close> of
  \<^verbatim>\<open>kernel/core/alloc.c\<close>.
\<close>

section \<open>The contract of an allocator\<close>

text \<open>
  \<open>inv s A\<close> relates a state and an abstract heap, \<open>held A\<close> are the blocks in use, \<open>view s x\<close> is the
  word at \<open>x\<close>, and \<open>room s A n\<close> says that a request of \<open>n\<close> bytes can be met.
\<close>

definition held_words :: "(u32 \<times> nat) set \<Rightarrow> u32 set" where
  "held_words B = (\<Union>(q, l) \<in> B. words q l)"

primrec free_each :: "(u32 \<Rightarrow> 's \<Rightarrow> 's run) \<Rightarrow> (u32 \<times> nat) list \<Rightarrow> 's \<Rightarrow> 's run" where
  "free_each release [] s = ret s"
| "free_each release (x # xs) s = bind_run (release (fst x) s) (free_each release xs)"

locale heap_contract =
  fixes inv :: "'s \<Rightarrow> 'h \<Rightarrow> bool" and held :: "'h \<Rightarrow> (u32 \<times> nat) set" and view :: "'s \<Rightarrow> u32 \<Rightarrow> u32"
    and room :: "'s \<Rightarrow> 'h \<Rightarrow> u32 \<Rightarrow> bool" and alloc :: "u32 \<Rightarrow> 's \<Rightarrow> (u32 \<times> 's) run"
    and release :: "u32 \<Rightarrow> 's \<Rightarrow> 's run"
  assumes alloc: "inv s A \<Longrightarrow> sz \<noteq> 0 \<Longrightarrow> room s A sz \<Longrightarrow> \<exists>q l s' A'. alloc sz s = ret (q, s') \<and> inv s' A' \<and>
      unat sz \<le> l \<and> (q, l) \<notin> held A \<and> held A' = insert (q, l) (held A) \<and>
      (\<forall>x \<in> held_words (held A). view s' x = view s x)"
    and release: "inv s A \<Longrightarrow> (q, l) \<in> held A \<Longrightarrow> \<exists>s' A'. release q s = ret s' \<and> inv s' A' \<and>
      held A' = held A - {(q, l)} \<and> (\<forall>x \<in> held_words (held A'). view s' x = view s x)"
    and apart: "inv s A \<Longrightarrow> (q, l) \<in> held A \<Longrightarrow> (r, k) \<in> held A \<Longrightarrow> (q, l) \<noteq> (r, k) \<Longrightarrow>
      words q l \<inter> words r k = {}"
begin

lemma alloc_release:
  assumes "inv s A" and "sz \<noteq> 0" and "room s A sz"
  shows "\<exists>q s' s'' A''. alloc sz s = ret (q, s') \<and> release q s' = ret s'' \<and> inv s'' A'' \<and>
    held A'' = held A \<and> (\<forall>x \<in> held_words (held A). view s'' x = view s x)"
proof -
  obtain q l s' A' where 1: "alloc sz s = ret (q, s')" "inv s' A'" "(q, l) \<notin> held A"
    "held A' = insert (q, l) (held A)" "\<forall>x \<in> held_words (held A). view s' x = view s x"
    using alloc [OF assms] by blast
  have "(q, l) \<in> held A'" unfolding 1(4) by blast
  from release [OF 1(2) this]
  obtain s'' A'' where 2: "release q s' = ret s''" "inv s'' A''" "held A'' = held A' - {(q, l)}"
    "\<forall>x \<in> held_words (held A''). view s'' x = view s' x" by blast
  have "held A'' = held A" unfolding 2(3) 1(4) using 1(3) by blast
  then show ?thesis using 1 2 by (intro exI [of _ q] exI [of _ s'] exI [of _ s''] exI [of _ A'']) simp
qed

lemma alloc_apart:
  assumes "inv s A" and "sz \<noteq> 0" and "room s A sz" and "(r, k) \<in> held A"
  shows "\<exists>q l s'. alloc sz s = ret (q, s') \<and> unat sz \<le> l \<and> words q l \<inter> words r k = {}"
proof -
  obtain q l s' A' where 1: "alloc sz s = ret (q, s')" "inv s' A'" "unat sz \<le> l" "(q, l) \<notin> held A"
    "held A' = insert (q, l) (held A)" using alloc [OF assms(1-3)] by blast
  have "words q l \<inter> words r k = {}"
    by (rule apart [OF 1(2)]) (use 1(4,5) assms(4) in auto)
  then show ?thesis using 1(1,3) by blast
qed

lemma free_each_all:
  "inv s A \<Longrightarrow> distinct xs \<Longrightarrow> set xs \<subseteq> held A \<Longrightarrow>
    \<exists>s' A'. free_each release xs s = ret s' \<and> inv s' A' \<and> held A' = held A - set xs"
proof (induction xs arbitrary: s A)
  case (Cons x xs)
  obtain q l where x: "x = (q, l)" by (cases x)
  then have "(q, l) \<in> held A" using Cons.prems(3) by simp
  from release [OF Cons.prems(1) this] obtain s' A' where s': "release q s = ret s'" "inv s' A'"
    "held A' = held A - {(q, l)}" by blast
  have "set xs \<subseteq> held A'" unfolding s'(3) using Cons.prems(2,3) x by auto
  then obtain s'' A'' where "free_each release xs s' = ret s''" "inv s'' A''" "held A'' = held A' - set xs"
    using Cons.IH [OF s'(2)] Cons.prems(2) by auto
  then show ?case using s'(1,3) x by auto
qed auto

end

lemma block_words_held: "block_words A = held_words (blocks A)"
  by (simp add: block_words_def held_words_def)

lemma malloc_contract:
  assumes "heap s A" and "sz \<noteq> 0" and "room_for s A sz"
  shows "\<exists>q l s' A'. malloc sz s = ret (q, s') \<and> heap s' A' \<and> unat sz \<le> l \<and> (q, l) \<notin> blocks A \<and>
    blocks A' = insert (q, l) (blocks A) \<and>
    (\<forall>x \<in> held_words (blocks A). ld32 (mem s') x = ld32 (mem s) x)"
  using klmalloc_allocates [OF assms]
  unfolding malloc_def gained_def size_for_def block_words_held by blast

lemma free_contract:
  assumes "heap s A" and "(q, l) \<in> blocks A"
  shows "\<exists>s' A'. free q s = ret s' \<and> heap s' A' \<and> blocks A' = blocks A - {(q, l)} \<and>
    (\<forall>x \<in> held_words (blocks A'). ld32 (mem s') x = ld32 (mem s) x)"
  using klfree_releases [OF assms] unfolding free_def block_words_held by blast

interpretation kernel_heap: heap_contract heap blocks "\<lambda>s. ld32 (mem s)" room_for malloc free
  by unfold_locales (rule malloc_contract free_contract blocks_apart; assumption)+

section \<open>Writing a block\<close>

lemma al4_diff:
  assumes "al4 x" and "al4 q"
  shows "al4 (x - q)"
proof -
  have "unat q mod 4 = 0" "unat x mod 4 = 0" using assms by (simp_all add: al4_def)
  moreover have "unat x mod 4 = (unat (x - q) + unat q) mod 4" using unat_add_mod4 [of "x - q" q] by simp
  ultimately have "unat (x - q) mod 4 = 0" by (metis add.right_neutral mod_add_right_eq)
  then show ?thesis by (simp add: al4_def)
qed

lemma al4_offset:
  assumes "al4 a" and "k < 4"
  shows "unat (a + of_nat k) = unat a + k"
  using al4_div [OF assms] assms(1) div_mult_mod_eq [of "unat a" 4]
    div_mult_mod_eq [of "unat (a + of_nat k)" 4] unfolding al4_def by linarith

lemma word_in_block:
  assumes "x \<in> words q l" and "al4 q" and "l mod 4 = 0" and "k < 4"
  shows "unat (x - q + of_nat k) < l"
proof -
  have "al4 (x - q)" using assms(1,2) by (simp add: words_def al4_diff)
  moreover obtain c where "unat (x - q) = 4 * c" using \<open>al4 (x - q)\<close> by (auto simp: al4_def)
  moreover obtain d where "l = 4 * d" using assms(3) by auto
  moreover have "unat (x - q) < l" using assms(1) by (simp add: words_def in_range_def)
  ultimately show ?thesis using al4_offset [of "x - q" k] assms(4) by simp
qed

lemma outside_block_word:
  assumes "al4 x" and "al4 q" and "x \<notin> words q l" and "k < 4"
  shows "\<not> in_range q l (x + of_nat k)"
proof -
  have "unat (x - q + of_nat k) = unat (x - q) + k" using al4_diff [OF assms(1,2)] assms(4) by (rule al4_offset)
  moreover have "l \<le> unat (x - q)" using assms(1,3) by (simp add: words_def in_range_def not_less)
  moreover have "x + of_nat k - q = x - q + of_nat k" by (simp add: algebra_simps)
  ultimately have "l \<le> unat (x + of_nat k - q)" by (simp only:)
  then show ?thesis by (simp only: in_range_def not_less)
qed

lemma byte_writes_words:
  assumes "al4 q" and out: "\<And>x. \<not> in_range q l x \<Longrightarrow> m' x = m x"
  shows "same_words (words q l) m m'"
  unfolding same_words_def
proof (intro allI impI)
  fix x assume x: "al4 x \<and> x \<notin> words q l"
  show "ld32 m' x = ld32 m x"
  proof (rule ld32_cong)
    fix y assume "in_range x 4 y"
    then obtain k where "k < 4" "y = x + of_nat k" by (rule in_range_obtain)
    then show "m' y = m y" using outside_block_word [of x q l k] x assms(1) out by blast
  qed
qed

lemma heap_write_block:
  assumes "heap s A" and b: "(q, l) \<in> blocks A" and out: "\<And>x. \<not> in_range q l x \<Longrightarrow> m' x = mem s x"
  shows "heap (s\<lparr>mem := m'\<rparr>) A"
    and "x \<in> held_words (blocks A - {(q, l)}) \<Longrightarrow> ld32 m' x = ld32 (mem s) x"
proof -
  have same: "same_words (words q l) (mem s) m'"
    using block_valid(2) [OF assms(1) b] out by (rule byte_writes_words)
  moreover have "words q l \<subseteq> block_words A" unfolding block_words_def using b by blast
  ultimately have "same_words (block_words A) (mem s) m'" by (rule same_words_mono)
  then show "heap (s\<lparr>mem := m'\<rparr>) A" by (rule heap_client_write [OF assms(1)])
  assume "x \<in> held_words (blocks A - {(q, l)})"
  then obtain r k where r: "(r, k) \<in> blocks A" "(r, k) \<noteq> (q, l)" "x \<in> words r k" by (auto simp: held_words_def)
  then have "x \<notin> words q l" using blocks_apart [OF assms(1) r(1) b r(2)] by blast
  moreover have "al4 x" using r(3) by (simp add: words_def)
  ultimately show "ld32 m' x = ld32 (mem s) x" by (intro same_wordsD [OF same])
qed

section \<open>The header of a block\<close>

lemma block_header_facts:
  assumes "heap s A" and "(q, l) \<in> blocks A"
  shows "(hdr_size (mem s) (block_header q) < BIG_BIN \<and> l = 2 ^ (2 + unat (hdr_size (mem s) (block_header q)))) \<or>
    (4052 \<le> l \<and> l = unat (hdr_size (mem s) (block_header q)))"
proof -
  obtain ns lv busy where ok: "heap_ok s A ns lv busy" using assms(1) unfolding heap_def by blast
  obtain p c where A: "A p = Some c" and c: "(q, l) \<in> chunk_blocks p c" using assms(2) unfolding in_blocks by blast
  have chunk: "chunk_ok (mem s) p c" using chunks_okD(1) [OF heap_okD(1) [OF ok] A] .
  show ?thesis
  proof (cases c)
    case (Small b fs)
    then have q: "q \<in> cells p b" "l = 2 ^ (b + 2)" and ok': "chunk_ok (mem s) p (Small b fs)" using c chunk by auto
    have "block_header q = p" using cell_header [OF ok' q(1)] .
    moreover have b: "hdr_size (mem s) p = of_nat b" "b < 10" using ok' by simp_all
    moreover have "unat (of_nat b :: u32) = b" using b(2) by (intro unat_of_nat_small) simp
    moreover have "unat BIG_BIN = 10" by (simp add: BIG_BIN_def NUM_BINS_def)
    ultimately have "hdr_size (mem s) (block_header q) < BIG_BIN" by (simp only: word_less_nat_alt)
    moreover have "l = 2 ^ (2 + unat (hdr_size (mem s) (block_header q)))"
      using \<open>block_header q = p\<close> b(1) \<open>unat (of_nat b) = b\<close> q(2) by (simp only: add.commute)
    ultimately show ?thesis by blast
  next
    case (Big n f)
    then have q: "q = p + 44" "l = unat n" and ok': "chunk_ok (mem s) p (Big n f)"
      using c chunk by (auto split: if_splits)
    have n: "p mod 0x1000 = 0" "hdr_size (mem s) p = n" "4052 \<le> unat n" "unat p + (unat n + 44) \<le> 2 ^ 32"
      using ok' by simp_all
    then have "block_header q = p" unfolding q(1) using block_header_offset [of p 44] by simp
    then show ?thesis using n q(2) by simp
  qed
qed

lemma klcalloc_zeroes:
  assumes "heap s A" and "nmemb * sz \<noteq> 0" and "room_for s A (nmemb * sz)"
  shows "\<exists>q l s' A'. klcalloc nmemb sz s = ret (q, s') \<and> gained s A q l s' A' \<and> size_for (nmemb * sz) l \<and>
    (\<forall>x. in_range q (unat (nmemb * sz)) x \<longrightarrow> mem s' x = 0)"
proof -
  obtain q l s1 A1 where 1: "klmalloc (nmemb * sz) s = ret (q, s1)" "gained s A q l s1 A1" "size_for (nmemb * sz) l"
    using klmalloc_allocates [OF assms] by blast
  then have h: "heap s1 A1" "(q, l) \<notin> blocks A" "blocks A1 = insert (q, l) (blocks A)"
    "\<And>x. x \<in> block_words A \<Longrightarrow> ld32 (mem s1) x = ld32 (mem s) x" unfolding gained_def by blast+
  have b: "(q, l) \<in> blocks A1" unfolding h(3) by blast
  define m' where "m' = memset (mem s1) q 0 (nmemb * sz)"
  have n: "unat (nmemb * sz) \<le> l" using 1(3) unfolding size_for_def by blast
  have out: "m' x = mem s1 x" if "\<not> in_range q l x" for x
    using that in_range_mono [OF _ n] unfolding m'_def memset_apply by auto
  note upd = heap_write_block [OF h(1) b, of m', OF out]
  have "ld32 m' x = ld32 (mem s) x" if x: "x \<in> block_words A" for x
  proof -
    have "blocks A1 - {(q, l)} = blocks A" unfolding h(3) using h(2) by blast
    then show ?thesis using upd(2) [of x] h(4) [OF x] x unfolding block_words_held by simp
  qed
  then have "gained s A q l (s1\<lparr>mem := m'\<rparr>) A1" unfolding gained_def using upd(1) h(2,3) by simp
  moreover have "klcalloc nmemb sz s = ret (q, s1\<lparr>mem := m'\<rparr>)"
    using 1(1) block_valid(1) [OF h(1) b] by (simp add: klcalloc_def m'_def)
  moreover have "\<forall>x. in_range q (unat (nmemb * sz)) x \<longrightarrow> mem (s1\<lparr>mem := m'\<rparr>) x = 0"
    by (simp add: m'_def memset_apply)
  ultimately show ?thesis using 1(3) by blast
qed

section \<open>Resizing\<close>

definition old_size :: "u32 \<Rightarrow> u32" where
  "old_size w = (if w < BIG_BIN then push_bit (2 + unat w) 1 else w)"

lemma old_size_block:
  assumes "heap s A" and "(q, l) \<in> blocks A"
  shows "unat (old_size (hdr_size (mem s) (block_header q))) = l"
proof -
  define w where "w = hdr_size (mem s) (block_header q)"
  have big: "unat BIG_BIN = 10" by (simp add: BIG_BIN_def NUM_BINS_def)
  from block_header_facts [OF assms, folded w_def] show ?thesis
    unfolding w_def [symmetric]
  proof
    assume w: "w < BIG_BIN \<and> l = 2 ^ (2 + unat w)"
    then have "unat w < 10" using big by (simp only: word_less_nat_alt)
    then have "(2::nat) ^ (2 + unat w) < 2 ^ 32" by (intro power_strict_increasing) simp_all
    then have "unat (of_nat (2 ^ (2 + unat w)) :: u32) = 2 ^ (2 + unat w)" by (rule unat_of_nat_small)
    moreover have "old_size w = of_nat (2 ^ (2 + unat w))" using w by (simp add: old_size_def push_bit_eq_mult)
    ultimately show "unat (old_size w) = l" using w by simp
  next
    assume w: "4052 \<le> l \<and> l = unat w"
    then have "\<not> w < BIG_BIN" using big by (simp add: word_less_nat_alt)
    then show "unat (old_size w) = l" using w by (simp add: old_size_def)
  qed
qed

lemma klrealloc_moves:
  assumes "p \<noteq> 0" and "sz \<noteq> 0" and "hdr_size (mem s) (block_header p) < sz"
    and "klmalloc sz s = ret (q, s1)" and "q \<noteq> 0"
  shows "klrealloc p sz s = bind_run
    (klfree p (s1\<lparr>mem := memcpy (mem s1) q p (old_size (hdr_size (mem s1) (block_header p)))\<rparr>))
    (\<lambda>s2. ret (q, s2))"
proof -
  have "\<not> sz \<le> hdr_size (mem s) (block_header p)" using assms(3) by (simp add: not_le)
  then show ?thesis using assms(1,2,4,5) by (simp add: klrealloc_def old_size_def Let_def)
qed

lemma word_of_copy:
  assumes copy: "\<And>x. in_range q l x \<Longrightarrow> m' x = m (p + (x - q))" and "x \<in> words p l" and "al4 p"
    and "l mod 4 = 0"
  shows "ld32 m' (q + (x - p)) = ld32 m x"
proof -
  have "in_range q l (q + (x - p) + of_nat k)" if "k < 4" for k
  proof -
    have "q + (x - p) + of_nat k - q = x - p + of_nat k" by (simp add: algebra_simps)
    then show ?thesis using word_in_block [OF assms(2,3,4) that] by (simp only: in_range_def)
  qed
  from copy [OF this]
  have "m' (q + (x - p) + of_nat k) = m (x + of_nat k)" if "k < 4" for k
    using that by (simp add: algebra_simps)
  from this [of 0] this [of 1] this [of 2] this [of 3] show ?thesis by (simp add: ld32_def)
qed

lemma unat_diff_swap:
  assumes "(p :: u32) \<noteq> q"
  shows "unat (p - q) + unat (q - p) = 2 ^ 32"
proof -
  have "unat ((p - q) + (q - p)) = 0" by simp
  then have "(unat (p - q) + unat (q - p)) mod 2 ^ 32 = 0" by (simp only: unat_word_ariths word_size) simp
  moreover have "unat (p - q) < 2 ^ 32" "unat (q - p) < 2 ^ 32"
    using unsigned_less [of "p - q"] unsigned_less [of "q - p"] by simp_all
  moreover have "0 < unat (p - q)" using assms by (simp add: unat_gt_0)
  ultimately obtain d where "unat (p - q) + unat (q - p) = 2 ^ 32 * d" "0 < d" "d < 2" by (auto elim!: dvdE simp: mod_eq_0_iff_dvd)
  then show ?thesis by (cases "d = 1") simp_all
qed

lemma copy_between_blocks:
  assumes "al4 q" and "q \<notin> words p l" and "unat n = l" and "p \<noteq> q"
  shows "memcpy m q p n x = (if in_range q l x then m (p + (x - q)) else m x)"
proof -
  have "l \<le> unat (q - p)" using assms(1,2) by (simp add: words_def in_range_def not_less)
  then have "unat (p - q) + unat n \<le> 2 ^ 32" using unat_diff_swap [OF assms(4)] assms(3) by linarith
  then show ?thesis using memcpy_apply assms(3) by simp
qed

lemma block_len_mod4:
  assumes "heap s A" and "(q, l) \<in> blocks A"
  shows "l mod 4 = 0"
proof -
  obtain ns lv busy where ok: "heap_ok s A ns lv busy" using assms(1) unfolding heap_def by blast
  obtain p c where A: "A p = Some c" and c: "(q, l) \<in> chunk_blocks p c" using assms(2) unfolding in_blocks by blast
  have chunk: "chunk_ok (mem s) p c" using chunks_okD(1) [OF heap_okD(1) [OF ok] A] .
  show ?thesis
  proof (cases c)
    case (Small b fs)
    then show ?thesis using c by (auto simp: power_add)
  next
    case (Big n f)
    then have n: "(n + 44) mod 0x1000 = 0" "l = unat n" "unat p + (unat n + 44) \<le> 2 ^ 32" "p \<noteq> 0"
      using chunk c by (auto split: if_splits)
    then have "unat n + 44 < 2 ^ 32" using unat_gt_0 [of p] by simp
    then have "unat (n + 44) = unat n + 44" using unat_add_small [of n 44] by simp
    moreover have "al4 (n + 44)" using n(1) by (rule al4_page)
    ultimately have "(unat n + 44) mod 4 = 0" by (simp add: al4_def)
    moreover have "(unat n + 4 * 11) mod 4 = unat n mod 4" by (rule mod_mult_self2)
    ultimately show ?thesis using n(2) by simp
  qed
qed

lemma gained_apart:
  assumes "heap s A" and "(p, l) \<in> blocks A" and "gained s A q k s' A'"
  shows "q \<notin> words p l" and "p \<noteq> q" and "al4 q" and "q \<noteq> 0" and "(p, l) \<in> blocks A'" and "(q, k) \<in> blocks A'"
proof -
  have g: "heap s' A'" "(q, k) \<notin> blocks A" "blocks A' = insert (q, k) (blocks A)"
    using assms(3) unfolding gained_def by blast+
  show in': "(p, l) \<in> blocks A'" "(q, k) \<in> blocks A'" using g(3) assms(2) by auto
  have ne: "(q, k) \<noteq> (p, l)" using g(2) assms(2) by blast
  have q: "q \<in> words q k" "al4 q" "q \<noteq> 0" using block_valid [OF g(1) in'(2)] by blast+
  have "words q k \<inter> words p l = {}" using blocks_apart [OF g(1) in'(2,1) ne] .
  then show "q \<notin> words p l" "p \<noteq> q" using q(1) block_valid(3) [OF g(1) in'(1)] by auto
  show "al4 q" "q \<noteq> 0" using q by blast+
qed

lemma klrealloc_grows:
  assumes "heap s A" and b: "(p, l) \<in> blocks A" and big: "l < unat sz" and room: "room_for s A sz"
  shows "\<exists>q k s' A'. klrealloc p sz s = ret (q, s') \<and> heap s' A' \<and> unat sz \<le> k \<and> (q, k) \<notin> blocks A \<and>
    blocks A' = insert (q, k) (blocks A - {(p, l)}) \<and>
    (\<forall>x \<in> words p l. ld32 (mem s') (q + (x - p)) = ld32 (mem s) x) \<and>
    (\<forall>x \<in> held_words (blocks A - {(p, l)}). ld32 (mem s') x = ld32 (mem s) x)"
proof -
  have sz: "sz \<noteq> 0" using big by auto
  obtain q k s1 A1 where 1: "klmalloc sz s = ret (q, s1)" "gained s A q k s1 A1" "size_for sz k"
    using klmalloc_allocates [OF assms(1) sz room] by blast
  have g: "heap s1 A1" "(q, k) \<notin> blocks A" "blocks A1 = insert (q, k) (blocks A)"
    "\<And>x. x \<in> block_words A \<Longrightarrow> ld32 (mem s1) x = ld32 (mem s) x"
    using 1(2) unfolding gained_def by blast+
  note new = gained_apart [OF assms(1) b 1(2)]
  have k: "unat sz \<le> k" using 1(3) unfolding size_for_def by blast
  have p: "p \<noteq> 0" "al4 p" using block_valid [OF assms(1) b] by blast+
  define n where "n = old_size (hdr_size (mem s1) (block_header p))"
  have n: "unat n = l" using old_size_block [OF g(1) new(5)] by (simp add: n_def)
  define m' where "m' = memcpy (mem s1) q p n"
  have copy: "m' x = (if in_range q l x then mem s1 (p + (x - q)) else mem s1 x)" for x
    unfolding m'_def using new(3,1) n new(2) by (rule copy_between_blocks)
  have out: "m' x = mem s1 x" if "\<not> in_range q k x" for x
    using that in_range_mono [of q l x k] big k copy by auto
  note upd = heap_write_block [OF g(1) new(6), of m', OF out]
  obtain s' A' where s': "klfree p (s1\<lparr>mem := m'\<rparr>) = ret s'" "heap s' A'" "blocks A' = blocks A1 - {(p, l)}"
    "\<And>x. x \<in> block_words A' \<Longrightarrow> ld32 (mem s') x = ld32 m' x"
    using klfree_releases [OF upd(1) new(5)] by auto
  have "hdr_size (mem s) (block_header p) < sz"
  proof -
    have "unat (hdr_size (mem s) (block_header p)) \<le> l"
      using block_header_facts [OF assms(1) b] less_exp [of "2 + unat (hdr_size (mem s) (block_header p))"] by auto
    then show ?thesis using big by (simp add: word_less_nat_alt)
  qed
  then have run: "klrealloc p sz s = ret (q, s')"
    using klrealloc_moves [OF p(1) sz _ 1(1) new(4)] s'(1) by (simp add: m'_def n_def)
  have blocks': "blocks A' = insert (q, k) (blocks A - {(p, l)})"
    unfolding s'(3) g(3) using g(2) b by auto
  have held: "x \<in> block_words A'" if "x \<in> held_words (blocks A - {(p, l)})" for x
    using that unfolding block_words_held blocks' by (auto simp: held_words_def)
  have contents: "ld32 (mem s') (q + (x - p)) = ld32 (mem s) x" if x: "x \<in> words p l" for x
  proof -
    have "ld32 m' (q + (x - p)) = ld32 (mem s1) x"
      using copy by (intro word_of_copy [OF _ x p(2) block_len_mod4 [OF assms(1) b]]) simp
    moreover have "ld32 (mem s1) x = ld32 (mem s) x" by (rule g(4)) (use x b in \<open>auto simp: block_words_def\<close>)
    moreover have "ld32 (mem s') (q + (x - p)) = ld32 m' (q + (x - p))"
    proof (rule s'(4))
      have "al4 x" "in_range p l x" using x by (simp_all add: words_def)
      then have "q + (x - p) \<in> words q k"
        using new(3) p(2) k big by (auto simp: words_def in_range_def intro: al4_add al4_diff)
      then show "q + (x - p) \<in> block_words A'" unfolding block_words_def blocks' by blast
    qed
    ultimately show ?thesis by simp
  qed
  have others: "ld32 (mem s') x = ld32 (mem s) x" if x: "x \<in> held_words (blocks A - {(p, l)})" for x
  proof -
    have "blocks A - {(p, l)} \<subseteq> blocks A1 - {(q, k)}" using g(2,3) by blast
    then have "x \<in> held_words (blocks A1 - {(q, k)})" using x unfolding held_words_def by blast
    then have "ld32 m' x = ld32 (mem s1) x" using upd(2) by simp
    moreover have "x \<in> block_words A" using x unfolding block_words_held held_words_def by blast
    ultimately show ?thesis using s'(4) [OF held [OF x]] g(4) by simp
  qed
  show ?thesis using run s'(2) k g(2) blocks' contents others by blast
qed

lemma klrealloc_shrink_overruns:
  assumes "heap s A" and b: "(p, l) \<in> blocks A" and room: "room_for s A sz" and sz: "sz \<noteq> 0" "sz \<le> 2048"
    and small: "klmalloc_bin_size sz < hdr_size (mem s) (block_header p)" "hdr_size (mem s) (block_header p) < sz"
  shows "\<exists>q k s1 A1. klmalloc sz s = ret (q, s1) \<and> gained s A q k s1 A1 \<and> k < l \<and>
    klrealloc p sz s = bind_run (klfree p (s1\<lparr>mem := memcpy (mem s1) q p (of_nat l)\<rparr>)) (\<lambda>s2. ret (q, s2)) \<and>
    (\<forall>x. in_range q l x \<longrightarrow> memcpy (mem s1) q p (of_nat l) x = mem s1 (p + (x - q)))"
proof -
  obtain q k s1 A1 where 1: "klmalloc sz s = ret (q, s1)" "gained s A q k s1 A1" "size_for sz k"
    using klmalloc_allocates [OF assms(1) sz(1) room] by blast
  have g: "heap s1 A1" using 1(2) unfolding gained_def by blast
  note new = gained_apart [OF assms(1) b 1(2)]
  have p: "p \<noteq> 0" using block_valid [OF assms(1) b] by blast
  define w where "w = hdr_size (mem s) (block_header p)"
  have big: "unat BIG_BIN = 10" by (simp add: BIG_BIN_def NUM_BINS_def)
  have "unat w < unat sz" "unat sz \<le> 2048" using small(2) sz(2) by (simp_all add: w_def word_less_nat_alt word_le_nat_alt)
  then have l: "l = 2 ^ (2 + unat w)" using block_header_facts [OF assms(1) b, folded w_def] by auto
  have "k = 2 ^ (2 + unat (klmalloc_bin_size sz))" using 1(3) sz(2) unfolding size_for_def by simp
  moreover have "unat (klmalloc_bin_size sz) < unat w" using small(1) by (simp add: w_def word_less_nat_alt)
  ultimately have kl: "k < l" unfolding l by (simp add: power_strict_increasing)
  have n: "unat (old_size (hdr_size (mem s1) (block_header p))) = l" using old_size_block [OF g new(5)] .
  then have n': "old_size (hdr_size (mem s1) (block_header p)) = of_nat l" by (simp flip: n)
  have run: "klrealloc p sz s = bind_run (klfree p (s1\<lparr>mem := memcpy (mem s1) q p (of_nat l)\<rparr>)) (\<lambda>s2. ret (q, s2))"
    using klrealloc_moves [OF p sz(1) small(2) 1(1) new(4)] unfolding n' .
  have "memcpy (mem s1) q p (of_nat l) x = (if in_range q l x then mem s1 (p + (x - q)) else mem s1 x)" for x
    using copy_between_blocks [OF new(3,1) n new(2)] unfolding n' .
  then show ?thesis using 1 kl run by auto
qed

lemma klmalloc_wraps:
  assumes "heap s A" and "2 ^ 32 - 44 \<le> unat sz" and grow: "can_grow s A 1"
  shows "\<exists>q s' A'. klmalloc sz s = ret (q, s') \<and> gained s A q 4052 s' A'"
proof -
  obtain ns lv busy where ok: "heap_ok s A ns lv busy" using assms(1) unfolding heap_def by blast
  note parts = heap_okD [OF ok]
  have sorted: "sorted (map (hdr_size (mem s)) ns)" using parts(3) unfolding skip_list_def by blast
  have "above (mem s) sz ns = []"
  proof (rule ccontr)
    assume "above (mem s) sz ns \<noteq> []"
    then obtain p where "p \<in> set (above (mem s) sz ns)" by (meson list.set_sel(1))
    then have p: "p \<in> set ns" "sz \<le> hdr_size (mem s) p" using above_large [OF sorted] by blast+
    then obtain n where A: "A p = Some (Big n True)" using parts(4) by blast
    then have "unat p + (unat n + 44) \<le> 2 ^ 32" "hdr_size (mem s) p = n" "p \<noteq> 0"
      using chunks_okD(1) [OF parts(1) A] by simp_all
    moreover have "unat sz \<le> unat (hdr_size (mem s) p)" using p(2) by (simp add: word_le_nat_alt)
    moreover have "0 < unat p" using \<open>p \<noteq> 0\<close> by (simp add: unat_gt_0)
    ultimately show False using assms(2) by simp
  qed
  have "unat (sz + 44) < 44"
  proof -
    have "unat sz < 2 ^ 32" using unsigned_less [of sz] by simp
    then have "unat (sz + 44) = unat sz + 44 - 2 ^ 32" using assms(2) by (simp add: unat_word_ariths mod_if)
    then show ?thesis using \<open>unat sz < 2 ^ 32\<close> by simp
  qed
  then have "unat ((sz + 44) div 0x1000) = 0" by (simp add: unat_div_distrib)
  then have "(sz + 44) div 0x1000 = 0" by (simp add: unat_eq_zero)
  then have pages: "(sz + 44) div 0x1000 + 1 = of_nat 1" by simp
  obtain q s' A' where "klmalloc_big sz s = ret (q, s')" "gained s A q (0x1000 * 1 - 44) s' A'"
    using malloc_big_pages [OF ok \<open>above (mem s) sz ns = []\<close> pages zero_less_one grow] by blast
  moreover have "\<not> sz \<le> 2048" "sz \<noteq> 0" using assms(2) by (auto simp: word_le_nat_alt)
  then have "klmalloc sz s = klmalloc_big sz s"
    using bin_size_fits [of sz] by (simp add: klmalloc_def BIG_BIN_def NUM_BINS_def)
  ultimately show ?thesis by auto
qed

section \<open>Example heaps\<close>

text \<open>
  \<open>demo_empty\<close> is the heap before the first allocation; \<open>demo_pages\<close> has a page of 16-byte cells
  at 0x10000 and one of 32-byte cells at 0x20000, all free.
\<close>

definition demo_empty :: kheap where
  "demo_empty = demo_heap\<lparr>mem := mem demo_kmm\<rparr>"

definition demo_page :: "u32 \<Rightarrow> nat \<Rightarrow> mem \<Rightarrow> mem" where
  "demo_page p b m = st32 (st32 (init_stack (cells_available b) 0 b (p + 12) (st32 (st32 m (p + 4) (p + 12)) p 0))
     (cell_addr p b (cells_available b)) 0) (p + 8) (of_nat b)"

definition demo_pages :: kheap where
  "demo_pages = demo_empty\<lparr>mem := demo_page 0x20000 3 (demo_page 0x10000 2 (mem demo_kmm)),
     bin_head := (replicate 10 0)[2 := 0x10000, 3 := 0x20000]\<rparr>"

definition demo_chunks :: "u32 \<Rightarrow> chunk option" where
  "demo_chunks = [0x10000 \<mapsto> Small 2 (page_cells 0x10000 2), 0x20000 \<mapsto> Small 3 (page_cells 0x20000 3)]"

lemma demo_empty_fields:
  "mem demo_empty = mem demo_kmm" "big_head demo_empty = 0x500" "big_level demo_empty = 0"
  "bin_head demo_empty = replicate 10 0" "newest_big demo_empty = 0" "heap_end demo_empty = 0x100000"
  "frames demo_empty = 0x1000" "nframes demo_empty = 64" "kernel_directory demo_empty = 0x2000"
  by (simp_all add: demo_empty_def demo_heap_def kmm.defs kheap.defs demo_kmm_def)

lemma demo_pages_fields:
  "mem demo_pages = demo_page 0x20000 3 (demo_page 0x10000 2 (mem demo_kmm))" "big_head demo_pages = 0x500"
  "big_level demo_pages = 0" "bin_head demo_pages = (replicate 10 0)[2 := 0x10000, 3 := 0x20000]"
  "newest_big demo_pages = 0" "heap_end demo_pages = 0x100000"
  by (simp_all add: demo_pages_def demo_empty_fields)

lemma demo_skip_empty:
  assumes "\<And>x. x \<in> words 0x500 44 \<Longrightarrow> ld32 (mem s) x = 0" and "big_head s = 0x500" and "big_level s = 0"
  shows "skip_list s [] (\<lambda>_. 0)"
proof -
  have "fwd (mem s) 0x500 i = 0" if "i \<le> 6" for i
    unfolding hdr_words word_at_def by (rule assms(1), rule header_word_in) (use that in \<open>simp_all add: al4_def\<close>)
  then show ?thesis using assms(2,3) by (simp add: skip_list_def headers_def al4_def)
qed

lemma demo_zero: "x \<in> words 0x500 44 \<Longrightarrow> ld32 (mem demo_kmm) x = 0"
  using demo_ld32 [of x] by (auto simp: words_def in_range_def)

lemma demo_empty_heap: "heap demo_empty Map.empty"
proof -
  have "skip_list demo_empty [] (\<lambda>_. 0)"
    by (rule demo_skip_empty) (simp_all only: demo_empty_fields demo_zero)
  then have "heap_ok demo_empty Map.empty [] (\<lambda>_. 0) (\<lambda>_. [])"
    by (simp add: heap_ok_def chunks_ok_def chunks_apart_def bins_ok_def newest_ok_def demo_empty_fields)
  then show ?thesis by (rule heapI)
qed

lemma demo_apart_words:
  "unat p + n \<le> unat q \<Longrightarrow> unat q + l \<le> 2 ^ 32 \<Longrightarrow> words p n \<inter> words q l = {}"
  by (rule words_apart) simp_all

lemma demo_kernel_words:
  assumes "x \<in> kernel_words demo_empty 1"
  shows "0xFFD \<le> unat x" and "unat x < 0x8404"
proof -
  have run: "page_run (heap_end demo_empty) 1 = [0x100000]" by (simp add: page_run_def demo_empty_fields)
  have "dir_slot (kernel_directory demo_empty) 0x100000 = 0x2000" by (simp add: dir_slot_def demo_empty_fields)
  then have entry: "page_entry demo_empty 0x100000 = 0x8400"
    by (simp add: page_entry_def demo_empty_fields demo_ld32 al4_def)
  obtain y where y: "in_range x 4 y" "in_bitmap demo_empty y \<or> in_range 0x8400 4 y"
    using assms unfolding kernel_words_def run by (auto simp: entry)
  obtain k where k: "k < 4" "y = x + of_nat k" using y(1) by (rule in_range_obtain)
  have "0x1000 \<le> unat y \<and> unat y < 0x8404"
    using y(2)
  proof
    assume "in_bitmap demo_empty y"
    then have "in_range 0x1000 8 y" by (simp add: in_bitmap_def demo_empty_fields)
    then obtain j where j: "j < 8" "y = 0x1000 + of_nat j" by (rule in_range_obtain)
    then have "unat y = 0x1000 + j" using unat_add_small [of "0x1000" j] by simp
    then show ?thesis using j(1) by simp
  next
    assume "in_range 0x8400 4 y"
    then obtain j where j: "j < 4" "y = 0x8400 + of_nat j" by (rule in_range_obtain)
    then have "unat y = 0x8400 + j" using unat_add_small [of "0x8400" j] by simp
    then show ?thesis using j(1) by simp
  qed
  moreover have "x = y - of_nat k" using k(2) by simp
  then have "unat x = unat y - k"
    using k(1) calculation unat_sub [of "of_nat k" y] by (simp add: word_le_nat_alt unat_of_nat_small)
  ultimately show "0xFFD \<le> unat x" "unat x < 0x8404" using k(1) by (elim conjE; linarith)+
qed

lemma demo_can_grow: "can_grow demo_empty Map.empty 1"
proof -
  have same: "page_entry demo_empty = page_entry demo_kmm" "in_bitmap demo_empty = in_bitmap demo_kmm"
    "used_frames demo_empty = used_frames demo_kmm" "frame_limit demo_empty = frame_limit demo_kmm"
    "page_apart demo_empty = page_apart demo_kmm"
    by (simp_all add: page_entry_def in_bitmap_def used_frames_def frame_limit_def frame_used_def
        page_apart_def demo_empty_fields fun_eq_iff) (simp_all add: demo_kmm_def)
  have fields: "heap_end demo_kmm = 0x100000" "kernel_directory demo_kmm = 0x2000" "frames_ok demo_empty"
    by (simp_all add: demo_kmm_def frames_ok_def demo_empty_fields)
  have "pages_ready demo_empty (page_run (heap_end demo_empty) 1)"
    using demo_ready unfolding pages_ready_def same demo_empty_fields fields .
  moreover have "kernel_words demo_empty 1 \<inter> words 0x500 44 = {}"
  proof -
    have "unat x < 0x500 + 44" if "x \<in> words 0x500 44" for x
    proof -
      have "in_range 0x500 44 x" using that by (simp add: words_def)
      then obtain j where j: "j < 44" "x = 0x500 + of_nat j" by (rule in_range_obtain)
      then have "unat x = 0x500 + j" using unat_add_small [of "0x500" j] by simp
      then show ?thesis using j(1) by simp
    qed
    then show ?thesis using demo_kernel_words(1) by force
  qed
  moreover have "words (heap_end demo_empty) (0x1000 * 1) \<inter> words 0x500 44 = {}"
    unfolding demo_empty_fields using demo_apart_words [of "0x500" 44 "0x100000" "0x1000"] by (simp add: Int_commute)
  ultimately show ?thesis
    using demo_free unfolding can_grow_def same by (simp add: demo_empty_fields fields(3))
qed

lemma demo_page_facts:
  assumes "p \<noteq> 0" and "p mod 0x1000 = 0" and "unat p + 0x1000 \<le> 2 ^ 32" and "b < 10"
  shows "chunk_ok (demo_page p b m) p (Small b (page_cells p b))" and "ld32 (demo_page p b m) p = 0"
    and "same_words (words p 0x1000) m (demo_page p b m)"
  using new_page_memory [OF assms, of m 0] unfolding demo_page_def by blast+

text \<open>A heap of two fresh pages in any memory whose words for the first header are zero.\<close>

definition two_chunks :: "nat \<Rightarrow> nat \<Rightarrow> u32 \<Rightarrow> chunk option" where
  "two_chunks b c = [0x10000 \<mapsto> Small b (page_cells 0x10000 b), 0x20000 \<mapsto> Small c (page_cells 0x20000 c)]"

lemma two_pages_ok:
  assumes bins: "b < 10" "c < 10" "b \<noteq> c" and m: "mem s = demo_page 0x20000 c (demo_page 0x10000 b m0)"
    and zero: "\<And>x. x \<in> words 0x500 44 \<Longrightarrow> ld32 m0 x = 0"
    and fields: "big_head s = 0x500" "big_level s = 0" "newest_big s = 0" "heap_end s = 0x100000"
      "bin_head s = (replicate 10 0)[b := 0x10000, c := 0x20000]"
  shows "heap_ok s (two_chunks b c) [] (\<lambda>_. 0) ((\<lambda>_. [])(b := [0x10000], c := [0x20000]))"
proof -
  let ?m1 = "demo_page 0x10000 b m0" and ?m = "mem s"
  have one: "chunk_ok ?m1 0x10000 (Small b (page_cells 0x10000 b))" "ld32 ?m1 0x10000 = 0"
    "same_words (words 0x10000 0x1000) m0 ?m1"
    by (rule demo_page_facts; use bins in simp)+
  have two: "chunk_ok ?m 0x20000 (Small c (page_cells 0x20000 c))" "ld32 ?m 0x20000 = 0"
    "same_words (words 0x20000 0x1000) ?m1 ?m"
    unfolding m by (rule demo_page_facts; use bins in simp)+
  have apart: "words 0x10000 0x1000 \<inter> words 0x20000 0x1000 = {}" "words 0x500 44 \<inter> words 0x10000 0x1000 = {}"
    "words 0x500 44 \<inter> words 0x20000 0x1000 = {}"
    by (rule demo_apart_words; simp)+
  have "words 0x20000 0x1000 \<inter> chunk_meta 0x10000 (Small b (page_cells 0x10000 b)) = {}"
    using meta_in_chunk [OF one(1)] apart(1) by auto
  then have c1: "chunk_ok ?m 0x10000 (Small b (page_cells 0x10000 b))" using chunk_ok_frame [OF one(1) two(3)] by blast
  have "0x10000 \<in> words 0x10000 0x1000" using header_fields_in_chunk(1) [OF one(1)] by simp
  then have "0x10000 \<notin> words 0x20000 0x1000" using apart(1) by blast
  then have "ld32 ?m 0x10000 = 0" using same_wordsD [OF two(3), of "0x10000"] one(2) by (simp add: al4_def)
  moreover have "skip_list s [] (\<lambda>_. 0)"
  proof (rule demo_skip_empty)
    fix x assume x: "x \<in> words 0x500 44"
    then have "x \<notin> words 0x10000 0x1000" "x \<notin> words 0x20000 0x1000" using apart(2,3) by blast+
    moreover have "al4 x" using x by (simp add: words_def)
    ultimately show "ld32 ?m x = 0"
      using same_wordsD [OF one(3)] same_wordsD [OF two(3)] zero [OF x] by simp
  qed (simp_all add: fields)
  moreover have "chunks_ok s (two_chunks b c)" "chunks_apart (two_chunks b c)"
    using c1 two(1) apart unfolding chunks_ok_def chunks_apart_def two_chunks_def fields
    by (auto simp: Int_commute split: if_splits)
  moreover have "page_cells p d \<noteq> []" for p d by (simp add: page_cells_def)
  then have "bins_ok s (two_chunks b c) ((\<lambda>_. [])(b := [0x10000], c := [0x20000]))"
    using calculation(1) two(2) bins unfolding bins_ok_def fields two_chunks_def
    by (auto simp: nth_list_update)
  ultimately show ?thesis
    unfolding heap_ok_def by (simp add: newest_ok_def fields) (auto simp: two_chunks_def)
qed

lemma demo_pages_ok:
  "heap_ok demo_pages demo_chunks [] (\<lambda>_. 0) ((\<lambda>_. [])(2 := [0x10000], 3 := [0x20000]))"
proof -
  have "demo_chunks = two_chunks 2 3" by (simp add: demo_chunks_def two_chunks_def)
  moreover have "heap_ok demo_pages (two_chunks 2 3) [] (\<lambda>_. 0) ((\<lambda>_. [])(2 := [0x10000], 3 := [0x20000]))"
    by (rule two_pages_ok [of _ _ _ "mem demo_kmm"]; simp add: demo_pages_fields demo_zero)
  ultimately show ?thesis by simp
qed

lemma demo_pages_heap: "heap demo_pages demo_chunks"
  using demo_pages_ok by (rule heapI)

lemma bin_of_20: "unat (klmalloc_bin_size 20) = 3" and bin_of_10: "unat (klmalloc_bin_size 10) = 2"
  using bin_size_value [of 4 20] bin_size_value [of 3 10] by simp_all

text \<open>After a request of 20 bytes one cell of 32 bytes is in use, and 16-byte cells are left.\<close>

definition demo_used :: "u32 \<Rightarrow> chunk option" where
  "demo_used = demo_chunks(0x20000 \<mapsto> Small 3 (tl (page_cells 0x20000 3)))"

lemma page_cells_Cons: "page_cells p b = (p + 12) # tl (page_cells p b)"
proof -
  have "[0..<Suc (cells_available b)] = 0 # [1..<Suc (cells_available b)]"
    by (simp add: upt_conv_Cons del: upt_Suc)
  then have "page_cells p b = cell_addr p b 0 # map (cell_addr p b) [1..<Suc (cells_available b)]"
    by (simp add: page_cells_def del: upt_Suc)
  then show ?thesis by (simp add: cell_addr_def)
qed

lemma demo_used_ok: "\<exists>s. heap (s :: kheap) demo_used \<and> room_for s demo_used 10"
proof -
  let ?busy = "(\<lambda>_. [])(2 := [0x10000], 3 := [0x20000])"
  have "demo_chunks 0x20000 = Some (Small 3 ((0x20000 + 12) # tl (page_cells 0x20000 3)))"
    unfolding page_cells_Cons [symmetric] by (simp add: demo_chunks_def)
  then obtain s busy' where "heap_ok (s :: kheap) demo_used [] (\<lambda>_. 0) busy'"
    using pop_small [OF demo_pages_ok, of 3 "0x20000" "[]" "0x20000 + 12" "tl (page_cells 0x20000 3)"]
    unfolding demo_used_def by auto
  moreover have "demo_used 0x10000 = Some (Small (unat (klmalloc_bin_size 10)) (page_cells 0x10000 2))"
    by (simp add: demo_used_def demo_chunks_def bin_of_10)
  moreover have "page_cells 0x10000 2 \<noteq> []" by (simp add: page_cells_def)
  ultimately show ?thesis unfolding room_for_def by (auto dest: heapI)
qed

lemma demo_used_blocks: "blocks demo_used = {(0x2000C, 32)}"
proof -
  define fs where "fs = tl (page_cells 0x20000 3)"
  have split: "page_cells 0x20000 3 = (0x20000 + 12) # fs" unfolding fs_def by (rule page_cells_Cons)
  have "distinct (page_cells 0x20000 3)" by (rule distinct_page_cells) simp_all
  then have "0x2000C \<notin> set fs" unfolding split by simp
  moreover have "cells 0x20000 3 = insert 0x2000C (set fs)" unfolding set_page_cells [symmetric] split by simp
  ultimately have used: "cells 0x20000 3 - set fs = {0x2000C}" by auto
  let ?free = "[0x10000 \<mapsto> Small 2 (page_cells 0x10000 2)] :: u32 \<Rightarrow> chunk option"
  have "blocks Map.empty = {}" by (simp add: blocks_def)
  then have free: "blocks ?free = {}"
    using blocks_new [of Map.empty "0x10000" "Small 2 (page_cells 0x10000 2)"] by (simp add: set_page_cells)
  have "demo_used = ?free(0x20000 \<mapsto> Small 3 fs)"
    by (simp add: demo_used_def demo_chunks_def fs_def)
  moreover have "blocks (?free(0x20000 \<mapsto> Small 3 fs)) = blocks ?free \<union> chunk_blocks 0x20000 (Small 3 fs)"
    by (rule blocks_new) simp
  ultimately show ?thesis using used free by (simp only:) simp
qed

lemma demo_small_used:
  "\<exists>s A. heap (s :: kheap) A \<and> (0x1000C, 16) \<in> blocks A \<and> room_for s A 20"
proof -
  let ?fs = "tl (page_cells 0x10000 2)" and ?busy = "(\<lambda>_. [])(2 := [0x10000], 3 := [0x20000])"
  define A where "A = demo_chunks(0x10000 \<mapsto> Small 2 ?fs)"
  have "demo_chunks 0x10000 = Some (Small 2 ((0x10000 + 12) # ?fs))"
    unfolding page_cells_Cons [symmetric] by (simp add: demo_chunks_def)
  then obtain s busy' where "heap_ok (s :: kheap) A [] (\<lambda>_. 0) busy'"
    using pop_small [OF demo_pages_ok, of 2 "0x10000" "[]" "0x10000 + 12" ?fs] unfolding A_def by auto
  moreover have "A 0x20000 = Some (Small (unat (klmalloc_bin_size 20)) (page_cells 0x20000 3))"
    by (simp add: A_def demo_chunks_def bin_of_20)
  moreover have "page_cells 0x20000 3 \<noteq> []" by (simp add: page_cells_def)
  moreover have "(0x1000C, 16) \<in> blocks A"
  proof -
    have "distinct (page_cells 0x10000 2)" by (rule distinct_page_cells) simp_all
    then have "0x1000C \<notin> set ?fs" by (subst (asm) page_cells_Cons) simp
    moreover have "0x1000C \<in> set (page_cells 0x10000 2)" by (subst page_cells_Cons) simp
    ultimately show ?thesis by (auto simp: A_def in_blocks set_page_cells intro!: exI [of _ "0x10000"])
  qed
  ultimately have "heap s A \<and> (0x1000C, 16) \<in> blocks A \<and> room_for s A 20"
    unfolding room_for_def by (auto dest: heapI)
  then show ?thesis by blast
qed

lemma demo_room_20: "room_for demo_empty Map.empty 20"
  using demo_can_grow by (simp add: room_for_def)

section \<open>What the allocator promises\<close>

text \<open>C1: a request that can be met returns a fresh block, different from 0 and on a word boundary, at
  least as large as asked for (exactly the smallest cell that holds it up to 2048 bytes); every
  block in use stays in use and keeps its contents.\<close>

theorem malloc_allocates:
  assumes "heap s A" and "sz \<noteq> 0" and "room_for s A sz"
  shows "\<exists>q l s' A'. malloc sz s = ret (q, s') \<and> heap s' A' \<and> q \<noteq> 0 \<and> unat q mod 4 = 0 \<and> unat sz \<le> l \<and>
    (sz \<le> 2048 \<longrightarrow> l = 2 ^ (unat (klmalloc_bin_size sz) + 2)) \<and>
    (q, l) \<notin> blocks A \<and> blocks A' = insert (q, l) (blocks A) \<and>
    (\<forall>x \<in> block_words A. ld32 (mem s') x = ld32 (mem s) x)"
proof -
  obtain q l s' A' where 1: "klmalloc sz s = ret (q, s')" "gained s A q l s' A'" "size_for sz l"
    using klmalloc_allocates [OF assms] by blast
  then have g: "heap s' A'" "(q, l) \<in> blocks A'" unfolding gained_def by blast+
  show ?thesis
    using 1 block_valid(1,2) [OF g] unfolding malloc_def gained_def size_for_def al4_def
    by (intro exI [of _ q] exI [of _ l] exI [of _ s'] exI [of _ A']) simp
qed

theorem malloc_allocates_witness:
  "\<exists>q s' A'. malloc 20 demo_empty = ret (q, s') \<and> heap s' A' \<and> q \<noteq> 0 \<and> blocks A' = {(q, 32)}"
  using malloc_allocates [OF demo_empty_heap _ demo_room_20] by (auto simp: bin_of_20 blocks_def)

text \<open>C2: freeing a block in use takes exactly that block from the blocks in use, without touching
  the contents of the others.\<close>

theorem free_releases:
  assumes "heap s A" and "(q, l) \<in> blocks A"
  shows "\<exists>s' A'. free q s = ret s' \<and> heap s' A' \<and> blocks A' = blocks A - {(q, l)} \<and>
    (\<forall>x \<in> block_words A'. ld32 (mem s') x = ld32 (mem s) x)"
  using klfree_releases [OF assms] unfolding free_def .

theorem free_releases_witness:
  "\<exists>s s' A'. heap (s :: kheap) demo_used \<and> free 0x2000C s = ret s' \<and> heap s' A' \<and> blocks A' = {}"
proof -
  obtain s where s: "heap (s :: kheap) demo_used" using demo_used_ok by blast
  have "(0x2000C, 32) \<in> blocks demo_used" unfolding demo_used_blocks by simp
  from free_releases [OF s this] show ?thesis using s unfolding demo_used_blocks by auto
qed

text \<open>C3: a program that writes only inside a block it holds can neither damage the allocator nor
  change another block: the heap stays well formed and the words of all other blocks keep their
  values.\<close>

theorem heap_survives_writes:
  assumes "heap s A" and "(q, l) \<in> blocks A" and "\<And>x. \<not> in_range q l x \<Longrightarrow> m' x = mem s x"
  shows "heap (s\<lparr>mem := m'\<rparr>) A \<and> (\<forall>x \<in> held_words (blocks A - {(q, l)}). ld32 m' x = ld32 (mem s) x)"
  using heap_write_block [OF assms] by blast

theorem heap_survives_writes_witness:
  "\<exists>s. heap (s :: kheap) demo_used \<and> heap (s\<lparr>mem := st32 (mem s) 0x20010 0xDEADBEEF\<rparr>) demo_used"
proof -
  obtain s where s: "heap (s :: kheap) demo_used" using demo_used_ok by blast
  have b: "(0x2000C, 32) \<in> blocks demo_used" unfolding demo_used_blocks by simp
  have "st32 (mem s) 0x20010 0xDEADBEEF x = mem s x" if "\<not> in_range 0x2000C 32 x" for x
  proof (rule st32_outside)
    show "\<not> in_range 0x20010 4 x"
    proof
      assume "in_range 0x20010 4 x"
      then obtain j where j: "j < 4" "x = 0x20010 + of_nat j" by (rule in_range_obtain)
      then have "j = 0 \<or> j = 1 \<or> j = 2 \<or> j = 3" by linarith
      then show False using that j(2) by (auto simp: in_range_def)
    qed
  qed
  from heap_survives_writes [OF s b this] show ?thesis using s by blast
qed

text \<open>C8: an allocation that is freed again leaves the blocks in use and their contents as they
  were.\<close>

theorem malloc_free_roundtrip:
  assumes "heap s A" and "sz \<noteq> 0" and "room_for s A sz"
  shows "\<exists>q s' s'' A''. malloc sz s = ret (q, s') \<and> free q s' = ret s'' \<and> heap s'' A'' \<and>
    blocks A'' = blocks A \<and> (\<forall>x \<in> held_words (blocks A). ld32 (mem s'') x = ld32 (mem s) x)"
  by (rule kernel_heap.alloc_release [OF assms])

theorem malloc_free_roundtrip_witness:
  "\<exists>q s' s'' A''. malloc 20 demo_empty = ret (q, s') \<and> free q s' = ret s'' \<and> heap s'' A'' \<and> blocks A'' = {}"
  using malloc_free_roundtrip [OF demo_empty_heap _ demo_room_20] by (auto simp: blocks_def)

text \<open>the blocks in use can be freed one after the other in any order; nothing but the blocks not
  freed stays in use, so freeing them all empties the heap.\<close>

theorem free_each_block:
  assumes "heap s A" and "distinct xs" and "set xs \<subseteq> blocks A"
  shows "\<exists>s' A'. free_each free xs s = ret s' \<and> heap s' A' \<and> blocks A' = blocks A - set xs"
  by (rule kernel_heap.free_each_all [OF assms])

theorem free_each_block_witness:
  "\<exists>s s' A'. heap (s :: kheap) demo_used \<and> free_each free [(0x2000C, 32)] s = ret s' \<and> heap s' A' \<and> blocks A' = {}"
proof -
  obtain s where s: "heap (s :: kheap) demo_used" using demo_used_ok by blast
  from free_each_block [OF s, of "[(0x2000C, 32)]"] show ?thesis using s unfolding demo_used_blocks by auto
qed

text \<open>C5: \<open>calloc\<close> returns a fresh block whose first \<open>nmemb * size\<close> bytes are zero and keeps all other
  blocks.\<close>

theorem calloc_zeroes:
  assumes "heap s A" and "nmemb * sz \<noteq> 0" and "room_for s A (nmemb * sz)"
  shows "\<exists>q l s' A'. calloc nmemb sz s = ret (q, s') \<and> heap s' A' \<and> unat (nmemb * sz) \<le> l \<and>
    (q, l) \<notin> blocks A \<and> blocks A' = insert (q, l) (blocks A) \<and>
    (\<forall>x. in_range q (unat (nmemb * sz)) x \<longrightarrow> mem s' x = 0) \<and>
    (\<forall>x \<in> block_words A. ld32 (mem s') x = ld32 (mem s) x)"
  using klcalloc_zeroes [OF assms] unfolding calloc_def gained_def size_for_def by blast

theorem calloc_zeroes_witness:
  "\<exists>q s' A'. calloc 5 4 demo_empty = ret (q, s') \<and> heap s' A' \<and> mem s' q = 0 \<and> mem s' (q + 19) = 0"
proof -
  have "room_for demo_empty Map.empty (5 * 4)" using demo_room_20 by simp
  then obtain q s' A' where "calloc 5 4 demo_empty = ret (q, s')" "heap s' A'"
    "\<forall>x. in_range q (unat (5 * 4 :: u32)) x \<longrightarrow> mem s' x = 0"
    using calloc_zeroes [OF demo_empty_heap, of 5 4] by auto
  then show ?thesis by (auto simp: in_range_def)
qed

text \<open>C4: growing a block gives a block of the new size that holds the contents of the old one, which
  is released; the other blocks keep their contents.\<close>

theorem realloc_grows:
  assumes "heap s A" and "(p, l) \<in> blocks A" and "l < unat sz" and "room_for s A sz"
  shows "\<exists>q k s' A'. realloc p sz s = ret (q, s') \<and> heap s' A' \<and> unat sz \<le> k \<and> (q, k) \<notin> blocks A \<and>
    blocks A' = insert (q, k) (blocks A - {(p, l)}) \<and>
    (\<forall>x \<in> words p l. ld32 (mem s') (q + (x - p)) = ld32 (mem s) x) \<and>
    (\<forall>x \<in> held_words (blocks A - {(p, l)}). ld32 (mem s') x = ld32 (mem s) x)"
  using klrealloc_grows [OF assms] unfolding realloc_def .

theorem realloc_grows_witness:
  "\<exists>s q s'. realloc 0x1000C 20 (s :: kheap) = ret (q, s') \<and>
    ld32 (mem s') (q + 12) = ld32 (mem s) 0x10018"
proof -
  obtain s A where s: "heap (s :: kheap) A" "(0x1000C, 16) \<in> blocks A" "room_for s A 20"
    using demo_small_used by blast
  obtain q k s' A' where r: "realloc 0x1000C 20 s = ret (q, s')" "heap s' A'" "unat (20 :: u32) \<le> k" "(q, k) \<notin> blocks A"
    "blocks A' = insert (q, k) (blocks A - {(0x1000C, 16)})"
    "\<forall>x \<in> words 0x1000C 16. ld32 (mem s') (q + (x - 0x1000C)) = ld32 (mem s) x"
    using realloc_grows [OF s(1,2) _ s(3)] by auto
  have "0x10018 \<in> words 0x1000C 16" by (simp add: words_def in_range_def al4_def)
  then show ?thesis using r(1) bspec [OF r(6)] by fastforce
qed

text \<open>C9: shrinking a block whose header still is smaller than the new size moves it to a smaller cell,
  and copies the whole old block there: the copy runs over the end of the new cell.\<close>

theorem realloc_shrink_overruns:
  assumes "heap s A" and "(p, l) \<in> blocks A" and "room_for s A sz" and "sz \<noteq> 0" "sz \<le> 2048"
    and "klmalloc_bin_size sz < hdr_size (mem s) (block_header p)" "hdr_size (mem s) (block_header p) < sz"
  shows "\<exists>q k s1 A1. klmalloc sz s = ret (q, s1) \<and> gained s A q k s1 A1 \<and> k < l \<and>
    realloc p sz s = bind_run (klfree p (s1\<lparr>mem := memcpy (mem s1) q p (of_nat l)\<rparr>)) (\<lambda>s2. ret (q, s2)) \<and>
    (\<forall>x. in_range q l x \<longrightarrow> memcpy (mem s1) q p (of_nat l) x = mem s1 (p + (x - q)))"
  using klrealloc_shrink_overruns [OF assms] unfolding realloc_def .

theorem realloc_shrink_overruns_witness:
  "\<exists>s q k s1. heap (s :: kheap) demo_used \<and> klmalloc 10 s = ret (q, s1) \<and> k < (32 :: nat) \<and>
    (\<forall>x. in_range q 32 x \<longrightarrow> memcpy (mem s1) q 0x2000C 32 x = mem s1 (0x2000C + (x - q)))"
proof -
  obtain s where s: "heap (s :: kheap) demo_used" "room_for s demo_used 10" using demo_used_ok by blast
  have b: "(0x2000C, 32) \<in> blocks demo_used" unfolding demo_used_blocks by simp
  have w: "unat (hdr_size (mem s) (block_header 0x2000C)) = 3"
  proof -
    let ?w = "unat (hdr_size (mem s) (block_header 0x2000C))"
    have "(2::nat) ^ 5 = 2 ^ (2 + ?w)" using block_header_facts [OF s(1) b] by simp
    then have "5 = 2 + ?w" by (rule power_inject_exp [THEN iffD1, rotated]) simp
    then show ?thesis by simp
  qed
  then have "klmalloc_bin_size 10 < hdr_size (mem s) (block_header 0x2000C)"
    "hdr_size (mem s) (block_header 0x2000C) < 10"
    using bin_of_10 by (simp_all add: word_less_nat_alt)
  from realloc_shrink_overruns [OF s(1) b s(2) _ _ this] show ?thesis using s(1) by auto
qed

text \<open>C19: a request within 44 bytes of 4 GiB is met with a block of 4052 bytes: the size plus the
  header wraps around, so a single page is taken.\<close>

theorem klmalloc_wraps_around:
  assumes "heap s A" and "2 ^ 32 - 44 \<le> unat sz" and "can_grow s A 1"
  shows "\<exists>q s' A'. malloc sz s = ret (q, s') \<and> heap s' A' \<and> (q, 4052) \<notin> blocks A \<and>
    blocks A' = insert (q, 4052) (blocks A)"
  using klmalloc_wraps [OF assms] unfolding gained_def malloc_def by blast

theorem klmalloc_wraps_around_witness:
  "\<exists>q s' A'. malloc 0xFFFFFFF0 demo_empty = ret (q, s') \<and> heap s' A' \<and> blocks A' = {(q, 4052)}"
  using klmalloc_wraps_around [OF demo_empty_heap _ demo_can_grow, of "0xFFFFFFF0"] by (auto simp: blocks_def)

end
