(* ===== verification/Keyboard.thy ===== *)
theory Keyboard
  imports SkipList
begin

text \<open>
  The keyboard driver, \<^verbatim>\<open>kernel/core/kbd.c\<close>.  The three bits of \<^verbatim>\<open>keyboard_state\<close> are boolean fields
  that extend the state of the components below; the table \<^verbatim>\<open>key_method\<close> of function pointers is a
  list of the names of the functions it points to.
\<close>

section \<open>State and tables\<close>

record kbd = kheap +
  kbd_shift :: bool
  kbd_alt :: bool
  kbd_ctrl :: bool

datatype key_fun = norm_fn | shft_fn | altk_fn | ctlk_fn | func_fn

definition kbd_us :: "u8 list" where
  "kbd_us =
    [0, 27] @ bytes ''1234567890-='' @ [8, 9] @ bytes ''qwertyuiop[]'' @ [10,
     0] @ bytes ''asdfghjkl;'' @ [0x27, 0x60,
     0, 0x5C] @ bytes ''zxcvbnm,./'' @ [0,
     0x2A, 0, 0x20, 0,
     0, 0, 0, 0, 0, 0, 0, 0, 0, 0,
     0, 0, 0, 0, 0, 0x2D, 0, 0, 0, 0x2B, 0, 0, 0, 0, 0, 0, 0, 0,
     0, 0] @ replicate 39 0"

definition kbd_us_l2 :: "u8 list" where
  "kbd_us_l2 =
    [0, 27] @ bytes ''!@#$%^&*()_+'' @ [8, 9] @ bytes ''QWERTYUIOP{}'' @ [10,
     0] @ bytes ''ASDFGHJKL:'' @ [0x22, 0x7E,
     0] @ bytes ''|ZXCVBNM<>?'' @ [0,
     0x2A, 0, 0x20, 0,
     0, 0, 0, 0, 0, 0, 0, 0, 0, 0,
     0, 0, 0, 0, 0, 0x2D, 0, 0, 0, 0x2B, 0, 0, 0, 0, 0, 0, 0, 0,
     0, 0] @ replicate 39 0"

definition key_method :: "key_fun option list" where
  "key_method =
     [None, None] @ replicate 27 (Some norm_fn) @ [Some ctlk_fn] @ replicate 12 (Some norm_fn) @
     [Some shft_fn] @ replicate 11 (Some norm_fn) @ [Some shft_fn, Some norm_fn,
      Some altk_fn, Some norm_fn, None] @ replicate 10 (Some func_fn) @ replicate 18 None @
     [Some func_fn, Some func_fn] @ replicate 39 None"

section \<open>Operations\<close>

definition putch :: "u8 \<Rightarrow> 'a kprintf_state_scheme \<Rightarrow> 'a kprintf_state_scheme option" where
  "putch c s = (case keyboard_buffer_handler s of
     Some kgets_handler_fn \<Rightarrow> kgets_handler c s | None \<Rightarrow> writech c s)"

definition norm :: "u32 \<Rightarrow> 'a kbd_scheme \<Rightarrow> 'a kbd_scheme option" where
  "norm scancode s =
     (if scancode AND 0x80 \<noteq> 0 then Some s
      else let c = kbd_us ! unat scancode in
        if c = 0 then Some s
        else if kbd_shift s then putch (kbd_us_l2 ! unat scancode) s
        else if kbd_ctrl s then
          (let out = sint c - 0x40 in
             if out < 0 \<or> out > 0x1F then putch c s else putch (of_int out) s)
        else putch c s)"

definition shft :: "u32 \<Rightarrow> 'a kbd_scheme \<Rightarrow> 'a kbd_scheme" where
  "shft scancode s = s\<lparr>kbd_shift := \<not> kbd_shift s\<rparr>"

definition altk :: "u32 \<Rightarrow> 'a kbd_scheme \<Rightarrow> 'a kbd_scheme" where
  "altk scancode s = s\<lparr>kbd_alt := \<not> kbd_alt s\<rparr>"

definition ctlk :: "u32 \<Rightarrow> 'a kbd_scheme \<Rightarrow> 'a kbd_scheme" where
  "ctlk scancode s = s\<lparr>kbd_ctrl := \<not> kbd_ctrl s\<rparr>"

definition func :: "u32 \<Rightarrow> 'a kbd_scheme \<Rightarrow> 'a kbd_scheme" where
  "func scancode s = s"

definition call_key :: "key_fun \<Rightarrow> u32 \<Rightarrow> 'a kbd_scheme \<Rightarrow> 'a kbd_scheme option" where
  "call_key f scancode s = (case f of
     norm_fn \<Rightarrow> norm scancode s | shft_fn \<Rightarrow> Some (shft scancode s) | altk_fn \<Rightarrow> Some (altk scancode s)
   | ctlk_fn \<Rightarrow> Some (ctlk scancode s) | func_fn \<Rightarrow> Some (func scancode s))"

definition keyboard_handler :: "regs \<Rightarrow> 'a kbd_scheme \<Rightarrow> 'a kbd_scheme option" where
  "keyboard_handler r s =
     (case inportb 0x60 s of (scancode, s1) \<Rightarrow>
        (case key_method ! unat (scancode AND 0x7F) of
           Some handler \<Rightarrow> call_key handler (ucast scancode) s1
         | None \<Rightarrow> Some s1))"

definition keyboard_install :: "'a interrupts_scheme \<Rightarrow> 'a interrupts_scheme run" where
  "keyboard_install s = bind_run (irq_install_handler 1 keyboard_handler_fn s)
     (\<lambda>s1. ret (s1\<lparr>keyboard_buffer_handler := None\<rparr>))"

partial_function (option) keyboard_wait :: "'a machine_scheme \<Rightarrow> 'a machine_scheme option" where
  "keyboard_wait s = (case inportb 0x64 s of (b, s1) \<Rightarrow>
     if b AND 2 \<noteq> 0 then keyboard_wait s1 else Some s1)"

section \<open>The layout\<close>

text \<open>
  The rows of the keyboard: the scan code of the first key, the characters without and with shift.
  The keys 0x0E, 0x0F and 0x1C are backspace, tabulator and enter, 0x37 is the star of the number
  pad and 0x39 the space bar.
\<close>

definition key_rows :: "(nat \<times> u8 list \<times> u8 list) list" where
  "key_rows =
     [(0x02, bytes ''1234567890-='', bytes ''!@#$%^&*()_+''), (0x0E, [8, 9], [8, 9]),
      (0x10, bytes ''qwertyuiop[]'', bytes ''QWERTYUIOP{}''), (0x1C, [10], [10]),
      (0x1E, bytes ''asdfghjkl;'' @ [0x27, 0x60], bytes ''ASDFGHJKL:'' @ [0x22, 0x7E]),
      (0x2B, 0x5C # bytes ''zxcvbnm,./'', bytes ''|ZXCVBNM<>?''),
      (0x37, [0x2A], [0x2A]), (0x39, [0x20], [0x20])]"

definition row_entries :: "nat \<times> u8 list \<times> u8 list \<Rightarrow> (nat \<times> u8 \<times> u8) list" where
  "row_entries row = (case row of (k, lower, upper) \<Rightarrow> zip [k..<k + length lower] (zip lower upper))"

definition layout :: "nat \<Rightarrow> (u8 \<times> u8) option" where
  "layout = map_of (concat (map row_entries key_rows))"

definition is_shift :: "u8 \<Rightarrow> bool" where
  "is_shift sc \<longleftrightarrow> sc AND 0x7F = 0x2A \<or> sc AND 0x7F = 0x36"

definition is_ctrl :: "u8 \<Rightarrow> bool" where
  "is_ctrl sc \<longleftrightarrow> sc AND 0x7F = 0x1D"

definition is_alt :: "u8 \<Rightarrow> bool" where
  "is_alt sc \<longleftrightarrow> sc AND 0x7F = 0x38"

text \<open>The character a key gives: shift goes before control, and control only takes 0x40 from the
  characters up to 0x5F.\<close>

definition key_char :: "bool \<Rightarrow> bool \<Rightarrow> u8 \<Rightarrow> u8 option" where
  "key_char shifted controlled sc =
     (if sc \<ge> 0x80 then None
      else map_option (\<lambda>(lower, upper). if shifted then upper
             else if controlled \<and> 0x40 \<le> lower \<and> lower < 0x60 then lower - 0x40 else lower)
           (layout (unat sc)))"

lemma length_tables [simp]: "length kbd_us = 128" "length kbd_us_l2 = 128" "length key_method = 128"
  by (simp_all add: kbd_us_def kbd_us_l2_def key_method_def bytes_def)

text \<open>The tables in full, and their agreement with the layout, checked key by key.\<close>

lemma kbd_us_bytes:
  "kbd_us = [
     0, 27, 49, 50, 51, 52, 53, 54, 55, 56, 57, 48, 45, 61, 8, 9, 113, 119, 101, 114, 116, 121,
     117, 105, 111, 112, 91, 93, 10, 0, 97, 115, 100, 102, 103, 104, 106, 107, 108, 59, 39, 96, 0,
     92, 122, 120, 99, 118, 98, 110, 109, 44, 46, 47, 0, 42, 0, 32, 0, 0, 0, 0, 0, 0, 0, 0, 0, 0,
     0, 0, 0, 0, 0, 0, 45, 0, 0, 0, 43, 0, 0, 0, 0, 0, 0, 0, 0, 0, 0, 0, 0, 0, 0, 0, 0, 0, 0, 0, 0,
     0, 0, 0, 0, 0, 0, 0, 0, 0, 0, 0, 0, 0, 0, 0, 0, 0, 0, 0, 0, 0, 0, 0, 0, 0, 0, 0, 0, 0]"
  by (simp add: kbd_us_def bytes_def numeral_eq_Suc)

lemma kbd_us_l2_bytes:
  "kbd_us_l2 = [
     0, 27, 33, 64, 35, 36, 37, 94, 38, 42, 40, 41, 95, 43, 8, 9, 81, 87, 69, 82, 84, 89, 85, 73,
     79, 80, 123, 125, 10, 0, 65, 83, 68, 70, 71, 72, 74, 75, 76, 58, 34, 126, 0, 124, 90, 88, 67,
     86, 66, 78, 77, 60, 62, 63, 0, 42, 0, 32, 0, 0, 0, 0, 0, 0, 0, 0, 0, 0, 0, 0, 0, 0, 0, 0, 45,
     0, 0, 0, 43, 0, 0, 0, 0, 0, 0, 0, 0, 0, 0, 0, 0, 0, 0, 0, 0, 0, 0, 0, 0, 0, 0, 0, 0, 0, 0, 0,
     0, 0, 0, 0, 0, 0, 0, 0, 0, 0, 0, 0, 0, 0, 0, 0, 0, 0, 0, 0, 0, 0]"
  by (simp add: kbd_us_l2_def bytes_def numeral_eq_Suc)

lemma layout_entries:
  "concat (map row_entries key_rows) = [
     (2, 49, 33), (3, 50, 64), (4, 51, 35), (5, 52, 36), (6, 53, 37), (7, 54, 94), (8, 55, 38),
     (9, 56, 42), (10, 57, 40), (11, 48, 41), (12, 45, 95), (13, 61, 43), (14, 8, 8), (15, 9, 9),
     (16, 113, 81), (17, 119, 87), (18, 101, 69), (19, 114, 82), (20, 116, 84), (21, 121, 89),
     (22, 117, 85), (23, 105, 73), (24, 111, 79), (25, 112, 80), (26, 91, 123), (27, 93, 125),
     (28, 10, 10), (30, 97, 65), (31, 115, 83), (32, 100, 68), (33, 102, 70), (34, 103, 71),
     (35, 104, 72), (36, 106, 74), (37, 107, 75), (38, 108, 76), (39, 59, 58), (40, 39, 34),
     (41, 96, 126), (43, 92, 124), (44, 122, 90), (45, 120, 88), (46, 99, 67), (47, 118, 86),
     (48, 98, 66), (49, 110, 78), (50, 109, 77), (51, 44, 60), (52, 46, 62), (53, 47, 63),
     (55, 42, 42), (57, 32, 32)]"
  by (simp add: key_rows_def row_entries_def bytes_def upt_rec)

lemma key_method_list:
  "key_method = [
     None, None, Some norm_fn, Some norm_fn, Some norm_fn, Some norm_fn, Some norm_fn,
     Some norm_fn, Some norm_fn, Some norm_fn, Some norm_fn, Some norm_fn, Some norm_fn,
     Some norm_fn, Some norm_fn, Some norm_fn, Some norm_fn, Some norm_fn, Some norm_fn,
     Some norm_fn, Some norm_fn, Some norm_fn, Some norm_fn, Some norm_fn, Some norm_fn,
     Some norm_fn, Some norm_fn, Some norm_fn, Some norm_fn, Some ctlk_fn, Some norm_fn,
     Some norm_fn, Some norm_fn, Some norm_fn, Some norm_fn, Some norm_fn, Some norm_fn,
     Some norm_fn, Some norm_fn, Some norm_fn, Some norm_fn, Some norm_fn, Some shft_fn,
     Some norm_fn, Some norm_fn, Some norm_fn, Some norm_fn, Some norm_fn, Some norm_fn,
     Some norm_fn, Some norm_fn, Some norm_fn, Some norm_fn, Some norm_fn, Some shft_fn,
     Some norm_fn, Some altk_fn, Some norm_fn, None, Some func_fn, Some func_fn, Some func_fn,
     Some func_fn, Some func_fn, Some func_fn, Some func_fn, Some func_fn, Some func_fn,
     Some func_fn, None, None, None, None, None, None, None, None, None, None, None, None, None,
     None, None, None, None, None, Some func_fn, Some func_fn, None, None, None, None, None, None,
     None, None, None, None, None, None, None, None, None, None, None, None, None, None, None,
     None, None, None, None, None, None, None, None, None, None, None, None, None, None, None,
     None, None, None]"
  by (simp add: key_method_def numeral_eq_Suc)

lemma map_of_filter_upt:
  "map_of (map (\<lambda>(k, x). (k, g x)) (filter (\<lambda>(k, x). P x) (zip [i..<i + length xs] xs))) k =
    (if i \<le> k \<and> k < i + length xs \<and> P (xs ! (k - i)) then Some (g (xs ! (k - i))) else None)"
proof (induction xs arbitrary: i)
  case (Cons x xs)
  have "[i..<i + length (x # xs)] = i # [Suc i..<Suc i + length xs]" by (simp add: upt_conv_Cons del: upt_Suc)
  then show ?case using Cons [of "Suc i"] by (auto simp: nth_Cons' Suc_diff_le)
qed simp

definition key_table :: "(key_fun option \<times> u8 \<times> u8) list" where
  "key_table = zip key_method (zip kbd_us kbd_us_l2)"

lemma layout_table:
  "concat (map row_entries key_rows) = map (\<lambda>(k, x). (k, snd x))
     (filter (\<lambda>(k, x). fst x = Some norm_fn \<and> fst (snd x) \<noteq> 0) (zip [0..<0 + length key_table] key_table))"
proof -
  have "length key_table = 128" by (simp add: key_table_def)
  then show ?thesis
    unfolding layout_entries key_table_def kbd_us_bytes kbd_us_l2_bytes key_method_list
    by (simp add: upt_rec)
qed

lemma layout_nth:
  "k < 128 \<Longrightarrow> layout k = (if key_method ! k = Some norm_fn \<and> kbd_us ! k \<noteq> 0 then Some (kbd_us ! k, kbd_us_l2 ! k) else None)"
  unfolding layout_def layout_table map_of_filter_upt by (simp add: key_table_def)

definition method_row_ok :: "nat \<times> key_fun option \<Rightarrow> bool" where
  "method_row_ok row = (case row of (k, f) \<Rightarrow>
     (f = Some shft_fn \<longleftrightarrow> k = 0x2A \<or> k = 0x36) \<and> (f = Some ctlk_fn \<longleftrightarrow> k = 0x1D) \<and> (f = Some altk_fn \<longleftrightarrow> k = 0x38))"

lemma method_rows: "list_all method_row_ok (zip [0..<128] key_method)"
  unfolding key_method_list by (simp add: upt_rec method_row_ok_def)

lemma method_nth:
  assumes "k < 128"
  shows "key_method ! k = Some shft_fn \<longleftrightarrow> k = 0x2A \<or> k = 0x36" and "key_method ! k = Some ctlk_fn \<longleftrightarrow> k = 0x1D"
    and "key_method ! k = Some altk_fn \<longleftrightarrow> k = 0x38"
proof -
  have "zip [0..<128] key_method ! k = (k, key_method ! k)" using assms by simp
  then have "(k, key_method ! k) \<in> set (zip [0..<128] key_method)"
    using assms by (metis length_tables(3) length_upt length_zip min.idem nth_mem diff_zero)
  then have "method_row_ok (k, key_method ! k)" using method_rows by (simp only: list_all_iff)
  then show "key_method ! k = Some shft_fn \<longleftrightarrow> k = 0x2A \<or> k = 0x36" "key_method ! k = Some ctlk_fn \<longleftrightarrow> k = 0x1D"
    "key_method ! k = Some altk_fn \<longleftrightarrow> k = 0x38" by (simp_all only: method_row_ok_def prod.case)
qed

lemma kbd_us_ascii: "k < 128 \<Longrightarrow> kbd_us ! k < 0x80"
proof -
  have "list_all (\<lambda>c. c < 0x80) kbd_us" unfolding kbd_us_bytes by simp
  then show "k < 128 \<Longrightarrow> kbd_us ! k < 0x80" by (simp add: list_all_length)
qed


section \<open>One interrupt\<close>

lemma kgets_handler_more:
  assumes "kgets_handler c s = Some s'"
  shows "kprintf_state.more s' = kprintf_state.more s"
proof -
  have w: "kprintf_state.more b = kprintf_state.more a" if "writech x a = Some b" for x and a b :: "'a kprintf_state_scheme"
    using writech_more [OF that] by (rule kprintf_more_more)
  show ?thesis
    using assms by (auto simp: kgets_handler_def Let_def bind_eq_Some_conv dest!: w split: if_splits)
qed

lemma putch_more:
  assumes "putch c s = Some s'"
  shows "kprintf_state.more s' = kprintf_state.more s"
  using assms kgets_handler_more kprintf_more_more [OF writech_more]
  by (auto simp: putch_def split: option.splits kb_handler.splits)

lemma putch_modifiers:
  fixes s :: "'a kbd_scheme"
  assumes "putch c s = Some s'"
  shows "kbd_shift s' = kbd_shift s" and "kbd_alt s' = kbd_alt s" and "kbd_ctrl s' = kbd_ctrl s"
  using putch_more [OF assms] by (cases s; cases s'; simp)+

lemma scancode_index: "unat ((sc :: u8) AND 0x7F) = unat sc mod 128"
proof -
  have "sc AND 0x7F = take_bit 7 sc" using take_bit_eq_mask [of 7 sc] by (simp add: mask_eq_exp_minus_1)
  then have "unat (sc AND 0x7F) = take_bit 7 (unat sc)" by (simp only: unsigned_take_bit_eq)
  then show ?thesis by (simp add: take_bit_eq_mod)
qed

lemma scancode_release: "(ucast (sc :: u8) :: u32) AND 0x80 \<noteq> 0 \<longleftrightarrow> 0x80 \<le> sc"
proof -
  have "(ucast sc :: u32) AND 2 ^ 7 = 0 \<longleftrightarrow> \<not> bit sc 7"
    unfolding and_exp_eq_0_iff_not_bit by (simp add: bit_simps)
  moreover have "bit (unat sc) 7 \<longleftrightarrow> bit sc 7" by (simp add: bit_unsigned_iff)
  then have "bit sc 7 \<longleftrightarrow> odd (unat sc div 2 ^ 7)" by (simp only: bit_iff_odd)
  moreover have "unat sc < 256" using unsigned_less [of sc] by simp
  then have "odd (unat sc div 128) \<longleftrightarrow> 128 \<le> unat sc" by (cases "128 \<le> unat sc") (simp_all add: div_nat_eqI [of _ 1])
  ultimately show ?thesis by (simp add: word_le_nat_alt)
qed

text \<open>The state after the port has been read, with the modifier keys toggled.\<close>

definition toggle_keys :: "u8 \<Rightarrow> 'a kbd_scheme \<Rightarrow> 'a kbd_scheme" where
  "toggle_keys sc s = s\<lparr>io_clock := Suc (io_clock s), kbd_shift := (kbd_shift s \<noteq> is_shift sc),
     kbd_alt := (kbd_alt s \<noteq> is_alt sc), kbd_ctrl := (kbd_ctrl s \<noteq> is_ctrl sc)\<rparr>"

lemma modifier_method:
  fixes sc :: u8
  defines "k \<equiv> unat (sc AND 0x7F)"
  shows "is_shift sc \<longleftrightarrow> key_method ! k = Some shft_fn" and "is_ctrl sc \<longleftrightarrow> key_method ! k = Some ctlk_fn"
    and "is_alt sc \<longleftrightarrow> key_method ! k = Some altk_fn"
proof -
  have "k < 128" by (simp add: k_def scancode_index)
  moreover have "sc AND 0x7F = w \<longleftrightarrow> k = unat w" for w by (simp add: k_def word_unat_eq_iff)
  ultimately show "is_shift sc \<longleftrightarrow> key_method ! k = Some shft_fn" "is_ctrl sc \<longleftrightarrow> key_method ! k = Some ctlk_fn"
    "is_alt sc \<longleftrightarrow> key_method ! k = Some altk_fn"
    by (simp_all add: is_shift_def is_ctrl_def is_alt_def method_nth)
qed

lemma toggle_none:
  "\<not> is_shift sc \<Longrightarrow> \<not> is_alt sc \<Longrightarrow> \<not> is_ctrl sc \<Longrightarrow> toggle_keys sc s = s\<lparr>io_clock := Suc (io_clock s)\<rparr>"
  by (simp add: toggle_keys_def)

lemma scancode_small: "sc < 0x80 \<Longrightarrow> unat ((sc :: u8) AND 0x7F) = unat sc" "unat ((ucast sc) :: u32) = unat (sc :: u8)"
proof -
  have "unat sc < 2 ^ 8" using unsigned_less [of sc] by simp
  then show "unat ((ucast sc) :: u32) = unat sc" by (simp add: unsigned_ucast_eq take_bit_nat_eq_self)
qed (simp_all add: scancode_index word_less_nat_alt)

lemma key_char_no_norm:
  "key_method ! unat (sc AND 0x7F) \<noteq> Some norm_fn \<Longrightarrow> key_char shifted controlled sc = None"
  using layout_nth [of "unat sc"] scancode_small [of sc]
  by (cases "unat sc < 128") (auto simp: key_char_def word_less_nat_alt word_le_nat_alt)

lemma norm_key:
  assumes "key_method ! unat (sc AND 0x7F) = Some norm_fn"
  shows "norm (ucast sc) s =
    (case key_char (kbd_shift s) (kbd_ctrl s) sc of Some c \<Rightarrow> putch c s | None \<Rightarrow> Some s)"
proof (cases "0x80 \<le> sc")
  case True
  then show ?thesis by (simp add: norm_def scancode_release key_char_def)
next
  case False
  define k where "k = unat sc"
  have k: "k < 128" using False by (simp add: k_def word_le_nat_alt)
  have norm: "key_method ! k = Some norm_fn" using assms False scancode_small(1) [of sc] by (simp add: k_def)
  have ascii: "kbd_us ! k < 0x80" using k by (rule kbd_us_ascii)
  define c where "c = kbd_us ! k"
  have "sint c = uint c"
  proof -
    have "uint c < 2 ^ 7" using ascii by (simp add: c_def word_less_def)
    then have "signed_take_bit 7 (uint c) = uint c" by (intro signed_take_bit_int_eq_self) (simp_all add: order_trans [OF _ uint_nonnegative])
    then show ?thesis by (simp add: sint_uint)
  qed
  then have "sint c - 0x40 < 0 \<or> sint c - 0x40 > 0x1F \<longleftrightarrow> \<not> (0x40 \<le> c \<and> c < 0x60)"
    by (auto simp: word_le_def word_less_def)
  moreover have "(of_int (sint c - 0x40) :: u8) = c - 0x40" by simp
  ultimately show ?thesis
    using False layout_nth [OF k] norm
    by (simp add: norm_def scancode_release scancode_small key_char_def Let_def flip: k_def c_def)
qed

text \<open>C15: one keyboard interrupt delivers exactly the character the layout gives the key under the
  current modifiers, or toggles the modifier whose key was pressed or released, or does nothing;
  the pointers and tables of the driver implement the layout.\<close>

theorem keyboard_key:
  "keyboard_handler r s =
     (case key_char (kbd_shift s) (kbd_ctrl s) (env s (io_clock s) 0x60) of
        Some c \<Rightarrow> putch c (s\<lparr>io_clock := Suc (io_clock s)\<rparr>)
      | None \<Rightarrow> Some (toggle_keys (env s (io_clock s) 0x60) s))"
proof -
  define sc where "sc = env s (io_clock s) 0x60"
  define k where "k = unat (sc AND 0x7F)"
  define s1 where "s1 = s\<lparr>io_clock := Suc (io_clock s)\<rparr>"
  have k: "k < 128" by (simp add: k_def scancode_index)
  have run: "keyboard_handler r s = (case key_method ! k of Some h \<Rightarrow> call_key h (ucast sc) s1 | None \<Rightarrow> Some s1)"
    unfolding keyboard_handler_def inportb_def sc_def k_def s1_def by simp
  have fields: "kbd_shift s1 = kbd_shift s" "kbd_ctrl s1 = kbd_ctrl s" by (simp_all add: s1_def)
  note mods = modifier_method [of sc, folded k_def]
  have "keyboard_handler r s = (case key_char (kbd_shift s) (kbd_ctrl s) sc of
      Some c \<Rightarrow> putch c s1 | None \<Rightarrow> Some (toggle_keys sc s))"
  proof (cases "key_method ! k")
    case None
    then show ?thesis using run key_char_no_norm [of sc, folded k_def] mods
      by (simp add: toggle_none s1_def)
  next
    case (Some f)
    show ?thesis
    proof (cases "f = norm_fn")
      case True
      then show ?thesis using run Some mods norm_key [of sc s1, folded k_def] fields
        by (simp add: call_key_def toggle_none s1_def split: option.split)
    next
      case False
      then show ?thesis using run Some mods key_char_no_norm [of sc, folded k_def]
        by (cases f) (simp_all add: call_key_def toggle_none s1_def shft_def altk_def ctlk_def func_def toggle_keys_def)
    qed
  qed
  then show ?thesis by (simp only: sc_def s1_def)
qed

section \<open>Sequences of interrupts\<close>

text \<open>
  \<open>typing s scs s'\<close>: from \<open>s\<close> the keyboard has interrupted with the scan codes \<open>scs\<close>, and in between
  other code has run, which never touches \<^verbatim>\<open>keyboard_state\<close>.
\<close>

inductive typing :: "'a kbd_scheme \<Rightarrow> u8 list \<Rightarrow> 'a kbd_scheme \<Rightarrow> bool" where
  typing_done: "typing s [] s"
| typing_key: "keyboard_handler r s = Some s1 \<Longrightarrow> typing s1 scs s2 \<Longrightarrow>
    typing s (env s (io_clock s) 0x60 # scs) s2"
| typing_other: "kbd_shift s1 = kbd_shift s \<Longrightarrow> kbd_alt s1 = kbd_alt s \<Longrightarrow> kbd_ctrl s1 = kbd_ctrl s \<Longrightarrow>
    typing s1 scs s2 \<Longrightarrow> typing s scs s2"

lemma keyboard_modifiers:
  assumes "keyboard_handler r s = Some s1" and "sc = env s (io_clock s) 0x60"
  shows "kbd_shift s1 = (kbd_shift s \<noteq> is_shift sc)" and "kbd_alt s1 = (kbd_alt s \<noteq> is_alt sc)"
    and "kbd_ctrl s1 = (kbd_ctrl s \<noteq> is_ctrl sc)"
proof -
  have no_char: "\<not> is_shift sc \<and> \<not> is_alt sc \<and> \<not> is_ctrl sc" if "key_char (kbd_shift s) (kbd_ctrl s) sc = Some c" for c
    using key_char_no_norm [of sc "kbd_shift s" "kbd_ctrl s"] that modifier_method [of sc] by auto
  consider c where "key_char (kbd_shift s) (kbd_ctrl s) sc = Some c" "putch c (s\<lparr>io_clock := Suc (io_clock s)\<rparr>) = Some s1"
    | "s1 = toggle_keys sc s"
    using assms(1) unfolding keyboard_key [of r s, folded assms(2)] by (auto split: option.splits)
  then have "kbd_shift s1 = (kbd_shift s \<noteq> is_shift sc) \<and> kbd_alt s1 = (kbd_alt s \<noteq> is_alt sc) \<and>
    kbd_ctrl s1 = (kbd_ctrl s \<noteq> is_ctrl sc)"
  proof cases
    case 1
    then show ?thesis using no_char [OF 1(1)] putch_modifiers [OF 1(2)] by simp
  qed (simp add: toggle_keys_def)
  then show "kbd_shift s1 = (kbd_shift s \<noteq> is_shift sc)" "kbd_alt s1 = (kbd_alt s \<noteq> is_alt sc)"
    "kbd_ctrl s1 = (kbd_ctrl s \<noteq> is_ctrl sc)" by blast+
qed

lemma typing_modifiers:
  assumes "typing s scs s'"
  shows "kbd_shift s' = (kbd_shift s \<noteq> odd (length (filter is_shift scs))) \<and>
    kbd_alt s' = (kbd_alt s \<noteq> odd (length (filter is_alt scs))) \<and>
    kbd_ctrl s' = (kbd_ctrl s \<noteq> odd (length (filter is_ctrl scs)))"
  using assms
proof induction
  case (typing_key r s s1 scs s2)
  then show ?case using keyboard_modifiers [OF typing_key.hyps(1) refl] by auto
qed auto

text \<open>C16: over any sequence of keyboard interrupts, whatever else runs in between, a modifier is on
  exactly when its keys have been pressed or released an odd number of times since it was off; so
  the repeated codes of a key held down switch it on and off.\<close>

theorem modifier_parity:
  assumes "typing s scs s'"
  shows "kbd_shift s' = (kbd_shift s \<noteq> odd (length (filter is_shift scs))) \<and>
    kbd_alt s' = (kbd_alt s \<noteq> odd (length (filter is_alt scs))) \<and>
    kbd_ctrl s' = (kbd_ctrl s \<noteq> odd (length (filter is_ctrl scs)))"
  using typing_modifiers [OF assms] .

definition demo_kbd :: kbd where
  "demo_kbd = kheap.extend (demo_heap\<lparr>env := \<lambda>_ _. 0x2A\<rparr>) (kbd.fields False False False)"

lemma demo_kbd_fields: "kbd_shift demo_kbd = False" "kbd_ctrl demo_kbd = False" "env demo_kbd = (\<lambda>_ _. 0x2A)"
  by (simp_all add: demo_kbd_def kheap.defs kbd.defs)

lemma demo_held_shift: "\<exists>s'. typing demo_kbd [0x2A, 0x2A] s'"
proof -
  define s1 where "s1 = toggle_keys 0x2A demo_kbd"
  have none: "key_char a b 0x2A = None" for a b
    using method_nth(1) [of "0x2A"] by (intro key_char_no_norm) simp
  have e: "env s1 = (\<lambda>_ _. 0x2A)" by (simp add: s1_def toggle_keys_def demo_kbd_fields)
  have "keyboard_handler r demo_kbd = Some s1" for r unfolding keyboard_key demo_kbd_fields none by (simp add: s1_def)
  moreover have "keyboard_handler r s1 = Some (toggle_keys 0x2A s1)" for r unfolding keyboard_key e none by simp
  ultimately show ?thesis
    using typing_key [OF _ typing_key [OF _ typing_done], of _ demo_kbd s1] e demo_kbd_fields(3) by fastforce
qed

theorem modifier_parity_witness:
  "\<exists>s'. typing demo_kbd [0x2A, 0x2A] s' \<and> kbd_shift s' = False"
proof -
  obtain s' where "typing demo_kbd [0x2A, 0x2A] s'" using demo_held_shift by blast
  with modifier_parity [OF this] show ?thesis by (auto simp: is_shift_def demo_kbd_fields)
qed

end
