(* ===== verification/Ext2.thy ===== *)
theory Ext2
  imports Keyboard Malloc
begin

text \<open>
  The ext2 ram disk: the driver \<^verbatim>\<open>kernel/core/fs/ext2_initrd.c\<close> with the on-disk structures of
  \<^verbatim>\<open>kernel/include/ext2.h\<close>, and the node structure of \<^verbatim>\<open>kernel/include/fs.h\<close>.  The disk is an image in
  the flat memory; the packed structures are read at their byte offsets.  A function pointer in a
  node is the address \<open>fun_addr\<close> the linker gave the function.
\<close>

section \<open>State\<close>

datatype driver_fun = read_initrd_fn | write_initrd_fn | open_initrd_fn | close_initrd_fn
  | readdir_initrd_fn | finddir_initrd_fn

record initrd = kbd +
  fun_addr :: "driver_fun \<Rightarrow> u32"
  initrd_start :: u32
  initrd_superblock :: u32
  initrd_root_block :: u32
  initrd_inode_table :: u32
  initrd_root :: u32
  fs_root :: u32

section \<open>The structures of fs.h\<close>

definition FS_FILE :: u32 where "FS_FILE = 0x01"
definition FS_DIRECTORY :: u32 where "FS_DIRECTORY = 0x02"
definition FS_CHARDEVICE :: u32 where "FS_CHARDEVICE = 0x04"
definition FS_BLOCKDEVICE :: u32 where "FS_BLOCKDEVICE = 0x08"
definition FS_PIPE :: u32 where "FS_PIPE = 0x10"
definition FS_SYMLINK :: u32 where "FS_SYMLINK = 0x20"

text \<open>Offsets in \<^verbatim>\<open>fs_node_t\<close> (the name is at 0) and the sizes of the two structures.\<close>

definition FS_MASK :: u32 where "FS_MASK = 256"
definition FS_UID :: u32 where "FS_UID = 260"
definition FS_GID :: u32 where "FS_GID = 264"
definition FS_FLAGS :: u32 where "FS_FLAGS = 268"
definition FS_INODE :: u32 where "FS_INODE = 272"
definition FS_LENGTH :: u32 where "FS_LENGTH = 276"
definition FS_READ :: u32 where "FS_READ = 284"
definition FS_WRITE :: u32 where "FS_WRITE = 288"
definition FS_OPEN :: u32 where "FS_OPEN = 292"
definition FS_CLOSE :: u32 where "FS_CLOSE = 296"
definition FS_READDIR :: u32 where "FS_READDIR = 300"
definition FS_FINDDIR :: u32 where "FS_FINDDIR = 304"
definition FS_NODE_SIZE :: u32 where "FS_NODE_SIZE = 312"
definition DIRENT_SIZE :: u32 where "DIRENT_SIZE = 260"

section \<open>The structures of ext2.h\<close>

definition EXT2_SUPER_MAGIC :: u16 where "EXT2_SUPER_MAGIC = 0xEF53"
definition EXT2_S_IFLNK :: u16 where "EXT2_S_IFLNK = 0xA000"
definition EXT2_S_IFREG :: u16 where "EXT2_S_IFREG = 0x8000"
definition EXT2_S_IFBLK :: u16 where "EXT2_S_IFBLK = 0x6000"
definition EXT2_S_IFDIR :: u16 where "EXT2_S_IFDIR = 0x4000"
definition EXT2_S_IFCHR :: u16 where "EXT2_S_IFCHR = 0x2000"
definition EXT2_S_IFIFO :: u16 where "EXT2_S_IFIFO = 0x1000"

definition sb_log_block_size :: "mem \<Rightarrow> u32 \<Rightarrow> u32" where "sb_log_block_size m sb = ld32 m (sb + 24)"
definition sb_magic :: "mem \<Rightarrow> u32 \<Rightarrow> u16" where "sb_magic m sb = ld16 m (sb + 56)"
definition sb_inode_size :: "mem \<Rightarrow> u32 \<Rightarrow> u16" where "sb_inode_size m sb = ld16 m (sb + 88)"
definition bg_inode_table :: "mem \<Rightarrow> u32 \<Rightarrow> u32" where "bg_inode_table m bg = ld32 m (bg + 8)"

definition i_mode :: "mem \<Rightarrow> u32 \<Rightarrow> u16" where "i_mode m i = ld16 m i"
definition i_uid :: "mem \<Rightarrow> u32 \<Rightarrow> u16" where "i_uid m i = ld16 m (i + 2)"
definition i_size :: "mem \<Rightarrow> u32 \<Rightarrow> u32" where "i_size m i = ld32 m (i + 4)"
definition i_atime :: "mem \<Rightarrow> u32 \<Rightarrow> u32" where "i_atime m i = ld32 m (i + 8)"
definition i_gid :: "mem \<Rightarrow> u32 \<Rightarrow> u16" where "i_gid m i = ld16 m (i + 24)"
definition i_block :: "mem \<Rightarrow> u32 \<Rightarrow> u32 \<Rightarrow> u32" where "i_block m i k = ld32 m (i + 40 + 4 * k)"

definition d_inode :: "mem \<Rightarrow> u32 \<Rightarrow> u32" where "d_inode m d = ld32 m d"
definition d_rec_len :: "mem \<Rightarrow> u32 \<Rightarrow> u16" where "d_rec_len m d = ld16 m (d + 4)"
definition d_name_len :: "mem \<Rightarrow> u32 \<Rightarrow> u8" where "d_name_len m d = m (d + 6)"
definition D_NAME :: u32 where "D_NAME = 8"

section \<open>Blocks and inodes\<close>

text \<open>\<open>block_size s\<close> is \<^verbatim>\<open>1024 << initrd_superblock->log_block_size\<close>.\<close>

definition block_size :: "'a initrd_scheme \<Rightarrow> u32" where
  "block_size s = push_bit (unat (sb_log_block_size (mem s) (initrd_superblock s))) 1024"

definition ext2_get_inode :: "u32 \<Rightarrow> 'a initrd_scheme \<Rightarrow> u32" where
  "ext2_get_inode inode s =
     initrd_inode_table s + ucast (sb_inode_size (mem s) (initrd_superblock s)) * (inode - 1)"

definition ext2_get_block :: "u32 \<Rightarrow> 'a initrd_scheme \<Rightarrow> u32" where
  "ext2_get_block block s = initrd_start s + block_size s * block"

definition ext2_get_inode_block :: "u32 \<Rightarrow> u32 \<Rightarrow> 'a initrd_scheme \<Rightarrow> u32" where
  "ext2_get_inode_block inode block s =
     (if block < 12 then ext2_get_block (i_block (mem s) inode block) s
      else if block < 12 + block_size s div 4 then
        ext2_get_block (ld32 (mem s) (ext2_get_block (i_block (mem s) inode 12) s + (block - 12) * 4)) s
      else 0)"

section \<open>Reading a file\<close>

function read_blocks :: "u32 \<Rightarrow> u32 \<Rightarrow> u32 \<Rightarrow> u32 \<Rightarrow> u32 \<Rightarrow> u32 \<Rightarrow> u32 \<Rightarrow> u32 \<Rightarrow> 'a initrd_scheme \<Rightarrow>
    u32 \<times> 'a initrd_scheme" where
  "read_blocks inode offset buffer bs start_block end_block block_offset blocks_read s =
     (if block_offset < end_block then
        let src = ext2_get_inode_block inode block_offset s;
            m = (if block_offset = start_block
                 then memcpy (mem s) buffer (src + offset mod bs) (bs - offset mod bs)
                 else memcpy (mem s) (buffer + bs * blocks_read - offset mod bs) src bs)
        in read_blocks inode offset buffer bs start_block end_block (block_offset + 1) (blocks_read + 1) (s\<lparr>mem := m\<rparr>)
      else (blocks_read, s))"
  by pat_completeness auto
termination
  by (relation "measure (\<lambda>(i, off, b, bs, sb, eb, bo, br, s). unat eb - unat bo)") auto

declare read_blocks.simps [simp del]

text \<open>A block size of 0, left by a \<^verbatim>\<open>log_block_size\<close> of 22 or more, makes the divisions of \<^verbatim>\<open>read_initrd\<close>
  undefined.\<close>

definition read_initrd :: "u32 \<Rightarrow> u32 \<Rightarrow> u32 \<Rightarrow> u32 \<Rightarrow> 'a initrd_scheme \<Rightarrow> (u32 \<times> 'a initrd_scheme) run" where
  "read_initrd node offset sz buffer s =
     (let inode = ext2_get_inode (ld32 (mem s) (node + FS_INODE)) s;
          end = (if offset + sz > i_size (mem s) inode then i_size (mem s) inode else offset + sz);
          bs = block_size s
      in if bs = 0 then halt (Undefined ''division by block_size'')
         else let start_block = offset div bs;
                  end_block = end div bs;
                  end_size = end mod bs;
                  size_to_read = end - offset
              in if start_block = end_block then
                   ret (size_to_read, s\<lparr>mem := memcpy (mem s) buffer
                      (ext2_get_inode_block inode start_block s + offset mod bs) size_to_read\<rparr>)
                 else (case read_blocks inode offset buffer bs start_block end_block start_block 0 s of
                   (blocks_read, s1) \<Rightarrow>
                     ret (size_to_read, s1\<lparr>mem := memcpy (mem s1) (buffer + bs * blocks_read - offset mod bs)
                        (ext2_get_inode_block inode end_block s1) end_size\<rparr>)))"

definition write_initrd :: "u32 \<Rightarrow> u32 \<Rightarrow> u32 \<Rightarrow> u32 \<Rightarrow> 'a initrd_scheme \<Rightarrow> u32 \<times> 'a initrd_scheme" where
  "write_initrd node offset sz buffer s = (0, s)"

definition open_initrd :: "u32 \<Rightarrow> u8 \<Rightarrow> u8 \<Rightarrow> 'a initrd_scheme \<Rightarrow> 'a initrd_scheme" where
  "open_initrd node rd wr s = s"

definition close_initrd :: "u32 \<Rightarrow> 'a initrd_scheme \<Rightarrow> 'a initrd_scheme" where
  "close_initrd node s = s"

section \<open>Directory entries\<close>

partial_function (option) direntry_loop :: "u32 \<Rightarrow> u32 \<Rightarrow> u32 \<Rightarrow> u32 \<Rightarrow> u32 \<Rightarrow> mem \<Rightarrow> u32 option" where
  "direntry_loop inode index block dir_offset dir_index m =
     (if dir_offset < i_size m inode then
        if dir_index = index then Some (block + dir_offset)
        else direntry_loop inode index block (dir_offset + ucast (d_rec_len m (block + dir_offset))) (dir_index + 1) m
      else Some 0)"

definition ext2_get_direntry :: "u32 \<Rightarrow> u32 \<Rightarrow> 'a initrd_scheme \<Rightarrow> u32 option" where
  "ext2_get_direntry inode index s =
     direntry_loop inode index (ext2_get_block (i_block (mem s) inode 0) s) 0 0 (mem s)"

definition readdir_initrd :: "u32 \<Rightarrow> u32 \<Rightarrow> 'a initrd_scheme \<Rightarrow> (u32 \<times> 'a initrd_scheme) run" where
  "readdir_initrd node index s =
     (let inode = ext2_get_inode (ld32 (mem s) (node + FS_INODE)) s in
      bind_run (lift_run (ext2_get_direntry inode index s)) (\<lambda>direntry.
        if direntry = 0 then ret (0, s)
        else bind_run (malloc DIRENT_SIZE s) (\<lambda>(dirent, s1).
          let m1 = memcpy (mem s1) dirent (direntry + D_NAME) (ucast (d_name_len (mem s1) direntry));
              m2 = m1(dirent + ucast (d_name_len m1 direntry) := 0)
          in ret (dirent, s1\<lparr>mem := st32 m2 (dirent + 256) (d_inode m2 direntry)\<rparr>))))"

section \<open>Nodes\<close>

text \<open>The chain of conditionals that fills \<^verbatim>\<open>flags\<close>, and the function pointers.\<close>

definition flag_step :: "u32 \<Rightarrow> u32 \<Rightarrow> u16 \<times> u32 \<Rightarrow> mem \<Rightarrow> mem" where
  "flag_step inode fnode = (\<lambda>(mask, flag) m.
     if i_mode m inode AND mask = mask then st32 m (fnode + FS_FLAGS) (ld32 m (fnode + FS_FLAGS) OR flag) else m)"

definition node_flags :: "u32 \<Rightarrow> u32 \<Rightarrow> mem \<Rightarrow> mem" where
  "node_flags inode fnode m =
     fold (flag_step inode fnode)
       [(EXT2_S_IFREG, FS_FILE), (EXT2_S_IFDIR, FS_DIRECTORY), (EXT2_S_IFBLK, FS_BLOCKDEVICE),
        (EXT2_S_IFCHR, FS_CHARDEVICE), (EXT2_S_IFIFO, FS_PIPE), (EXT2_S_IFLNK, FS_SYMLINK)]
       (st32 m (fnode + FS_FLAGS) 0)"

definition node_ops :: "(driver_fun \<Rightarrow> u32) \<Rightarrow> u32 \<Rightarrow> mem \<Rightarrow> mem" where
  "node_ops addr fnode m =
     (let m1 = st32 m (fnode + FS_READ) (addr read_initrd_fn);
          m2 = st32 m1 (fnode + FS_WRITE) (addr write_initrd_fn);
          m3 = st32 m2 (fnode + FS_OPEN) (addr open_initrd_fn);
          m4 = st32 m3 (fnode + FS_CLOSE) (addr close_initrd_fn);
          m5 = st32 m4 (fnode + FS_READDIR) (addr readdir_initrd_fn)
      in st32 m5 (fnode + FS_FINDDIR) (addr finddir_initrd_fn))"

text \<open>\<open>rights\<close> is the mask of the mode bits that the three builders keep.\<close>

definition node_from_inode :: "u16 \<Rightarrow> u32 \<Rightarrow> u32 \<Rightarrow> mem \<Rightarrow> mem" where
  "node_from_inode rights inode fnode m =
     (let m1 = st32 m (fnode + FS_UID) (ucast (i_uid m inode));
          m2 = st32 m1 (fnode + FS_GID) (ucast (i_gid m1 inode));
          m3 = st32 m2 (fnode + FS_LENGTH) (i_size m2 inode)
      in st32 m3 (fnode + FS_MASK) (ucast (i_mode m3 inode AND rights)))"

definition initrd_node_from_file :: "u32 \<Rightarrow> u32 \<Rightarrow> u32 \<Rightarrow> 'a initrd_scheme \<Rightarrow> u32 \<times> 'a initrd_scheme" where
  "initrd_node_from_file inode direntry fnode s =
     (if fnode = 0 then (0, s)
      else let m1 = st32 (mem s) (fnode + FS_INODE) (d_inode (mem s) direntry);
               m2 = memcpy m1 fnode (direntry + D_NAME) (ucast (d_name_len m1 direntry));
               m3 = m2(fnode + ucast (d_name_len m2 direntry) := 0);
               m4 = node_flags inode fnode (node_from_inode 0xFFF inode fnode m3)
           in (1, s\<lparr>mem := node_ops (fun_addr s) fnode m4\<rparr>))"

definition initrd_node_root :: "u32 \<Rightarrow> u32 \<Rightarrow> 'a initrd_scheme \<Rightarrow> u32 \<times> 'a initrd_scheme" where
  "initrd_node_root inode fnode s =
     (if fnode = 0 then (0, s)
      else let m1 = st32 (mem s) (fnode + FS_INODE) 2;
               m2 = m1(fnode := 0x2F, fnode + 1 := 0);
               m3 = node_flags inode fnode (node_from_inode 0xFF inode fnode m2)
           in (1, s\<lparr>mem := node_ops (fun_addr s) fnode m3\<rparr>))"

definition initrd_node_from_dirent :: "u32 \<Rightarrow> u32 \<Rightarrow> u32 \<Rightarrow> 'a initrd_scheme \<Rightarrow> (u32 \<times> 'a initrd_scheme) option" where
  "initrd_node_from_dirent inode direntry fnode s =
     (if fnode = 0 then Some (0, s)
      else let m1 = st32 (mem s) (fnode + FS_INODE) (ld32 (mem s) (direntry + 256)) in
        Option.bind (strlen m1 direntry) (\<lambda>n1. let m2 = memcpy m1 fnode direntry n1 in
        Option.bind (strlen m2 direntry) (\<lambda>n2.
          let m3 = m2(fnode + n2 := 0);
              m4 = node_flags inode fnode (node_from_inode 0xFFF inode fnode m3)
          in Some (1, s\<lparr>mem := node_ops (fun_addr s) fnode m4\<rparr>))))"

section \<open>Looking a name up\<close>

partial_function (option) finddir_loop :: "u32 \<Rightarrow> u32 \<Rightarrow> u32 \<Rightarrow> u32 \<Rightarrow> 'a initrd_scheme \<Rightarrow>
    (u32 \<times> 'a initrd_scheme) run" where
  "finddir_loop inode name block dir_offset s =
     (if dir_offset < i_size (mem s) inode then
        let d_ent = block + dir_offset in
        bind_run (malloc (ucast (d_name_len (mem s) d_ent) + 1) s) (\<lambda>x.
          let dname = fst x; s1 = snd x;
              m1 = memcpy (mem s1) dname (d_ent + D_NAME) (ucast (d_name_len (mem s1) d_ent));
              m2 = m1(dname + ucast (d_name_len m1 d_ent) := 0) in
          bind_run (lift_run (strcmp m2 dname name)) (\<lambda>r.
          bind_run (free dname (s1\<lparr>mem := m2\<rparr>)) (\<lambda>s2.
            if r = 0 then ret (d_ent, s2)
            else finddir_loop inode name block (dir_offset + ucast (d_rec_len (mem s2) d_ent)) s2)))
      else ret (0, s))"

definition finddir_initrd :: "u32 \<Rightarrow> u32 \<Rightarrow> 'a initrd_scheme \<Rightarrow> (u32 \<times> 'a initrd_scheme) run" where
  "finddir_initrd node name s =
     (let inode = ext2_get_inode (ld32 (mem s) (node + FS_INODE)) s in
      bind_run (assert_run (i_mode (mem s) inode AND EXT2_S_IFDIR \<noteq> 0) ''inode->mode & EXT2_S_IFDIR'') (\<lambda>_.
      bind_run (finddir_loop inode name (ext2_get_inode_block inode 0 s) 0 s) (\<lambda>(direntry, s1).
        if direntry = 0 then ret (0, s1)
        else bind_run (malloc FS_NODE_SIZE s1) (\<lambda>(outnode, s2).
          ret (outnode, snd (initrd_node_from_file (ext2_get_inode (d_inode (mem s2) direntry) s2)
                               direntry outnode s2))))))"

section \<open>Mounting\<close>

definition initrd_mount :: "u32 \<Rightarrow> u32 \<Rightarrow> 'a initrd_scheme \<Rightarrow> 'a initrd_scheme run" where
  "initrd_mount mem_head mem_top s =
     (let sb = mem_head + 1024; s1 = s\<lparr>initrd_start := mem_head, initrd_superblock := sb\<rparr> in
      bind_run (assert_run (sb_magic (mem s1) sb = EXT2_SUPER_MAGIC)
                  ''initrd_superblock->magic == EXT2_SUPER_MAGIC'') (\<lambda>_.
        let s2 = (if sb_inode_size (mem s1) sb = 0 then s1\<lparr>mem := st16 (mem s1) (sb + 88) 128\<rparr> else s1);
            bg = mem_head + 1024 + 1024;
            s3 = s2\<lparr>initrd_root_block := bg,
                    initrd_inode_table := mem_head + block_size s2 * bg_inode_table (mem s2) bg\<rparr>;
            root_inode = ext2_get_inode 2 s3 in
      bind_run (kprintf (lit s3 ''[DEBUG] root block 0 is %d\<newline>'') [i_block (mem s3) root_inode 0] s3) (\<lambda>s4.
      bind_run (kprintf (lit s4 ''[DEBUG] root size    is %d\<newline>'') [i_size (mem s4) root_inode] s4) (\<lambda>s5.
      bind_run (kprintf (lit s5 ''[DEBUG]          uid is %d\<newline>'') [ucast (i_uid (mem s5) root_inode)] s5) (\<lambda>s6.
      bind_run (kprintf (lit s6 ''[DEBUG]        atime is %d\<newline>'') [i_atime (mem s6) root_inode] s6) (\<lambda>s7.
      bind_run (lift_run (ext2_get_direntry root_inode 0 s7)) (\<lambda>_.
      bind_run (malloc FS_NODE_SIZE s7) (\<lambda>(node, s8).
        case initrd_node_root root_inode node (s8\<lparr>initrd_root := node\<rparr>) of (r, s9) \<Rightarrow>
      bind_run (assert_run (r \<noteq> 0) ''initrd_node_root(root_inode, initrd_root)'') (\<lambda>_.
        ret (s9\<lparr>fs_root := initrd_root s9\<rparr>)))))))))) "

end
