(* ===== verification/Ramdisk.thy ===== *)
theory Ramdisk
  imports Ext2
begin

text \<open>
  What the ram disk driver does: reading a file, listing a directory, and the flags of a node.
\<close>

section \<open>The contents of a file\<close>

text \<open>
  \<open>file_byte s inode i\<close> is byte \<open>i\<close> of the file: the block pointers of the inode, or of its indirect
  block, give the block, and the block holds the byte.
\<close>

definition file_block :: "'a initrd_scheme \<Rightarrow> u32 \<Rightarrow> nat \<Rightarrow> u32" where
  "file_block s inode k = ext2_get_inode_block inode (of_nat k) s"

definition file_byte :: "'a initrd_scheme \<Rightarrow> u32 \<Rightarrow> nat \<Rightarrow> u8" where
  "file_byte s inode i =
     mem s (file_block s inode (i div unat (block_size s)) + of_nat (i mod unat (block_size s)))"

text \<open>\<open>D\<close> is the set of addresses of the disk: the words the driver reads to find the first \<open>n\<close> blocks of
  the file lie in it, and so do these blocks.\<close>

definition entry_addr :: "'a initrd_scheme \<Rightarrow> u32 \<Rightarrow> nat \<Rightarrow> u32" where
  "entry_addr s inode k =
     (if k < 12 then inode + 40 + 4 * of_nat k
      else ext2_get_block (i_block (mem s) inode 12) s + (of_nat k - 12) * 4)"

definition within :: "u32 set \<Rightarrow> u32 \<Rightarrow> nat \<Rightarrow> bool" where
  "within D p n \<longleftrightarrow> (\<forall>j < n. p + of_nat j \<in> D)"

definition file_on :: "u32 set \<Rightarrow> 'a initrd_scheme \<Rightarrow> u32 \<Rightarrow> nat \<Rightarrow> bool" where
  "file_on D s inode n \<longleftrightarrow> block_size s \<noteq> 0 \<and> n \<le> 12 + unat (block_size s div 4) \<and>
     within D (initrd_superblock s + 24) 4 \<and> within D (inode + 40 + 4 * 12) 4 \<and>
     (\<forall>k < n. within D (entry_addr s inode k) 4 \<and> within D (file_block s inode k) (unat (block_size s)))"

lemma withinD: "within D p n \<Longrightarrow> in_range p n x \<Longrightarrow> x \<in> D"
  unfolding within_def by (metis in_range_obtain)

lemma within_ld32:
  assumes "within D p 4" and "\<And>x. x \<in> D \<Longrightarrow> m' x = m x"
  shows "ld32 m' p = ld32 m p"
  by (rule ld32_cong) (use assms withinD in blast)

definition agree :: "u32 set \<Rightarrow> mem \<Rightarrow> mem \<Rightarrow> bool" where
  "agree D m m' \<longleftrightarrow> (\<forall>x \<in> D. m' x = m x)"

lemma agree_block_size:
  assumes "within D (initrd_superblock s + 24) 4" and "agree D (mem s) m'"
  shows "block_size (s\<lparr>mem := m'\<rparr>) = block_size s"
  using within_ld32 [OF assms(1), of m' "mem s"] assms(2)
  by (simp add: block_size_def sb_log_block_size_def agree_def)

text \<open>The block of the disk the driver finds does not depend on memory outside the disk.\<close>

lemma agree_file_block:
  assumes on: "file_on D s inode n" and k: "k < n" and same: "agree D (mem s) m'"
  shows "file_block (s\<lparr>mem := m'\<rparr>) inode k = file_block s inode k"
proof -
  have on': "within D (initrd_superblock s + 24) 4" "within D (inode + 40 + 4 * 12) 4"
    "within D (entry_addr s inode k) 4" using on k unfolding file_on_def by blast+
  note bs = agree_block_size [OF on'(1) same]
  have blk: "ext2_get_block b (s\<lparr>mem := m'\<rparr>) = ext2_get_block b s" for b
    by (simp add: ext2_get_block_def bs)
  have ld: "within D p 4 \<Longrightarrow> ld32 m' p = ld32 (mem s) p" for p
    using within_ld32 [of D p m' "mem s"] same by (simp add: agree_def)
  have "n \<le> 12 + unat (block_size s div 4)" using on unfolding file_on_def by blast
  moreover have "unat (block_size s div 4) < 2 ^ 30"
  proof -
    have "unat (block_size s) < 2 ^ 32" using unsigned_less [of "block_size s"] by simp
    then show ?thesis by (simp add: unat_div_distrib)
  qed
  ultimately have k32: "k < 2 ^ 32" using k by simp
  show ?thesis
  proof (cases "k < 12")
    case True
    then have "entry_addr s inode k = inode + 40 + 4 * of_nat k" by (simp add: entry_addr_def)
    then have "i_block m' inode (of_nat k) = i_block (mem s) inode (of_nat k)"
      using ld on'(3) by (simp add: i_block_def)
    moreover have "(of_nat k :: u32) < 12" using True k32 by (simp add: word_less_nat_alt unat_of_nat_small)
    ultimately show ?thesis by (simp add: file_block_def ext2_get_inode_block_def blk)
  next
    case False
    then have "\<not> (of_nat k :: u32) < 12" using k32 by (simp add: word_less_nat_alt unat_of_nat_small)
    moreover have "i_block m' inode 12 = i_block (mem s) inode 12" using ld [OF on'(2)] by (simp add: i_block_def)
    moreover have "ld32 m' (entry_addr s inode k) = ld32 (mem s) (entry_addr s inode k)" using ld [OF on'(3)] .
    ultimately show ?thesis using False
      by (simp add: file_block_def ext2_get_inode_block_def blk bs entry_addr_def)
  qed
qed

section \<open>Copying piece by piece\<close>

text \<open>\<open>filled m0 f buffer c\<close>: the first \<open>c\<close> bytes at \<open>buffer\<close> have been replaced by those of \<open>f\<close>.\<close>

definition filled :: "mem \<Rightarrow> (nat \<Rightarrow> u8) \<Rightarrow> u32 \<Rightarrow> nat \<Rightarrow> mem" where
  "filled m0 f buffer c = (\<lambda>x. if in_range buffer c x then f (unat (x - buffer)) else m0 x)"

lemma filled_0 [simp]: "filled m0 f buffer 0 = m0"
  by (simp add: filled_def fun_eq_iff)

lemma filled_agree:
  assumes "\<And>x. in_range buffer n x \<Longrightarrow> x \<notin> D" and "c \<le> n"
  shows "agree D m0 (filled m0 f buffer c)"
  using assms in_range_mono unfolding agree_def filled_def by fastforce

lemma memcpy_extends:
  assumes D: "\<And>x. in_range buffer n x \<Longrightarrow> x \<notin> D" and n: "c + k \<le> n" "n < 2 ^ 32"
    and src: "within D src k" and bytes: "\<And>j. j < k \<Longrightarrow> m0 (src + of_nat j) = f (c + j)"
  shows "memcpy (filled m0 f buffer c) (buffer + of_nat c) src (of_nat k) = filled m0 f buffer (c + k)"
proof
  fix x
  let ?m = "filled m0 f buffer c" and ?dest = "buffer + of_nat c :: u32"
  have k: "unat (of_nat k :: u32) = k" using n by (intro unat_of_nat_small) linarith
  have apart: "unat (src - ?dest) + unat (of_nat k :: u32) \<le> 2 ^ 32" if "0 < k"
  proof -
    have "\<not> in_range src k ?dest"
      using withinD [OF src] D [of ?dest] n that by (auto simp: in_range_def unat_of_nat)
    then have "k \<le> unat (?dest - src)" by (simp add: in_range_def)
    moreover have "src \<noteq> ?dest" using \<open>\<not> in_range src k ?dest\<close> that by (auto simp: in_range_def)
    ultimately show ?thesis using unat_diff_swap [of src ?dest] k by linarith
  qed
  show "memcpy ?m ?dest src (of_nat k) x = filled m0 f buffer (c + k) x"
  proof (cases "k = 0")
    case True
    then show ?thesis by (simp add: memcpy_def memcpy_loop.simps [of _ _ _ 0 0])
  next
    case False
    have cpy: "memcpy ?m ?dest src (of_nat k) x = (if in_range ?dest k x then ?m (src + (x - ?dest)) else ?m x)"
      using memcpy_apply [OF apart] False k by simp
    show ?thesis
    proof (cases "in_range ?dest k x")
      case True
      then obtain j where j: "j < k" "x = ?dest + of_nat j" by (rule in_range_obtain)
      have x: "x - buffer = of_nat (c + j)" using j(2) by simp
      then have ux: "unat (x - buffer) = c + j" using j(1) n by (simp only:) (rule unat_of_nat_small, linarith)
      have "src + of_nat j \<in> D" using src j(1) unfolding within_def by blast
      then have "\<not> in_range buffer c (src + of_nat j)" using D in_range_mono n by (metis le_add1 order_trans)
      then have "?m (src + (x - ?dest)) = f (c + j)" using bytes [OF j(1)] j(2) by (simp add: filled_def)
      then show ?thesis using cpy True ux j(1) by (simp add: filled_def in_range_def)
    next
      case False
      have "in_range buffer (c + k) x \<longleftrightarrow> in_range buffer c x"
      proof
        assume "in_range buffer (c + k) x"
        then obtain i where i: "i < c + k" "x = buffer + of_nat i" by (rule in_range_obtain)
        have "i < c"
        proof (rule ccontr)
          assume "\<not> i < c"
          then have "x = ?dest + of_nat (i - c)" "i - c < k" using i by simp_all
          then show False using False n by (auto simp: in_range_def unat_of_nat)
        qed
        then show "in_range buffer c x" using i(2) n by (simp add: in_range_def unat_of_nat)
      qed (simp add: in_range_def)
      then show ?thesis using cpy False by (simp add: filled_def)
    qed
  qed
qed

section \<open>Reading\<close>

lemma file_byte_at:
  assumes "j < b" and "b = unat (block_size s)"
  shows "file_byte s inode (k * b + j) = mem s (file_block s inode k + of_nat j)"
  using assms by (simp add: file_byte_def)

lemma within_sub: "within D p n \<Longrightarrow> r + l \<le> n \<Longrightarrow> within D (p + of_nat r) l"
  unfolding within_def by (metis add.assoc add_less_cancel_left less_le_trans of_nat_add)

text \<open>The state in which the first \<open>c\<close> bytes from \<open>off\<close> on have been copied to the buffer.\<close>

definition read_upto :: "'a initrd_scheme \<Rightarrow> u32 \<Rightarrow> nat \<Rightarrow> u32 \<Rightarrow> nat \<Rightarrow> 'a initrd_scheme" where
  "read_upto s inode off buffer c =
     s\<lparr>mem := filled (mem s) (\<lambda>i. file_byte s inode (off + i)) buffer c\<rparr>"

lemma buffer_position:
  assumes "off div b < k" and "0 < b" and "of_nat b = (bs :: u32)"
  shows "off \<le> k * b" and "bs * of_nat (k - off div b) - of_nat (off mod b) = of_nat (k * b - off)"
proof -
  define st r where "st = off div b" and "r = off mod b"
  have off: "off = st * b + r" "r < b" using assms(2) by (simp_all add: st_def r_def)
  have "Suc st * b \<le> k * b" using assms(1) by (intro mult_le_mono1) (simp add: st_def)
  then show "off \<le> k * b" using off by simp
  have "b * 1 \<le> b * (k - st)" using assms(1) by (intro mult_le_mono2) (simp add: st_def)
  then have "r \<le> b * (k - st)" using off(2) by linarith
  moreover have "k * b - off = b * (k - st) - r" using off by (simp add: mult.commute diff_mult_distrib2)
  ultimately have "of_nat (k * b - off) = (of_nat b * of_nat (k - st) - of_nat r :: u32)" by (simp add: of_nat_diff)
  then show "bs * of_nat (k - off div b) - of_nat (off mod b) = of_nat (k * b - off)"
    by (simp add: assms(3) st_def r_def)
qed

lemma read_blocks_fill:
  fixes s :: "'a initrd_scheme" and off en :: nat and inode buffer :: u32
  defines "b \<equiv> unat (block_size s)"
  defines "S \<equiv> \<lambda>k. read_upto s inode off buffer (k * b - off)"
  assumes on: "file_on D s inode n" and en: "en \<le> n" "en * b - off \<le> N"
    and apart: "\<And>x. in_range buffer N x \<Longrightarrow> x \<notin> D" and N: "N < 2 ^ 32" and off: "off < 2 ^ 32" and "en < 2 ^ 32"
  shows "off div b \<le> k \<Longrightarrow> k \<le> en \<Longrightarrow>
    read_blocks inode (of_nat off) buffer (block_size s) (of_nat (off div b)) (of_nat en) (of_nat k)
      (of_nat (k - off div b)) (S k) = (of_nat (en - off div b), S en)"
proof (induction "en - k" arbitrary: k)
  case 0
  then show ?case by (simp add: read_blocks.simps)
next
  case (Suc d)
  define st r where "st = off div b" and "r = off mod b"
  have k: "k < en" "st \<le> k" using Suc.hyps(2) Suc.prems st_def by simp_all
  have b0: "0 < b" using on by (simp add: file_on_def b_def unat_gt_0)
  have offr: "off = st * b + r" "r < b" using b0 by (simp_all add: st_def r_def)
  have u: "unat (of_nat off mod block_size s) = r"
    using off by (simp add: unat_mod_distrib unat_of_nat_small r_def b_def)
  have wr: "of_nat off mod block_size s = of_nat r" unfolding u [symmetric] by simp
  have wb: "of_nat b = block_size s" by (simp add: b_def)
  have kw: "of_nat k < (of_nat en :: u32)" "of_nat k = (of_nat st :: u32) \<longleftrightarrow> k = st"
    using k \<open>en < 2 ^ 32\<close> by (simp_all add: word_less_nat_alt unat_of_nat_small of_nat_inject_small)
  have kn: "k < n" using k en by simp
  have blk: "within D (file_block s inode k) b" using on kn unfolding file_on_def b_def by blast
  have le: "Suc k * b - off \<le> N" using en(2) k(1) mult_le_mono1 [of "Suc k" en b] by linarith
  have "k * b - off \<le> N" using le by simp
  then have same: "agree D (mem s) (mem (S k))"
    unfolding S_def read_upto_def using filled_agree apart by simp blast
  have src: "ext2_get_inode_block inode (of_nat k) (S k) = file_block s inode k"
    using agree_file_block [OF on kn same] by (simp add: S_def read_upto_def file_block_def)
  define f where "f = (\<lambda>i. file_byte s inode (off + i))"
  have mS: "mem (S j) = filled (mem s) f buffer (j * b - off)" for j by (simp add: S_def read_upto_def f_def)
  define m where "m = (if of_nat k = (of_nat st :: u32)
     then memcpy (mem (S k)) buffer (file_block s inode k + of_nat off mod block_size s) (block_size s - of_nat off mod block_size s)
     else memcpy (mem (S k)) (buffer + block_size s * of_nat (k - st) - of_nat off mod block_size s) (file_block s inode k) (block_size s))"
  have "m = mem (S (Suc k))"
  proof (cases "k = st")
    case True
    have z: "k * b - off = 0" and len: "Suc k * b - off = b - r" using True offr by simp_all
    have "memcpy (filled (mem s) f buffer 0) (buffer + of_nat 0) (file_block s inode k + of_nat r) (of_nat (b - r)) =
        filled (mem s) f buffer (0 + (b - r))"
    proof (rule memcpy_extends [OF apart _ N])
      show "0 + (b - r) \<le> N" using le len by simp
      show "within D (file_block s inode k + of_nat r) (b - r)" using within_sub [OF blk] offr by simp
      fix j assume "j < b - r"
      then have "file_byte s inode (k * b + (r + j)) = mem s (file_block s inode k + of_nat (r + j))"
        by (intro file_byte_at) (simp_all add: b_def)
      then show "mem s (file_block s inode k + of_nat r + of_nat j) = f (0 + j)"
        using True offr by (simp add: f_def add.assoc)
    qed
    moreover have "block_size s - of_nat r = of_nat (b - r)" using offr(2) wb by (simp add: of_nat_diff)
    ultimately show ?thesis unfolding m_def mS wr len z using True by simp
  next
    case False
    then have "Suc st \<le> k" using k by simp
    then have "Suc st * b \<le> k * b" by (rule mult_le_mono1)
    then have ge: "off \<le> k * b" using offr by simp
    then have len: "Suc k * b - off = (k * b - off) + b" by simp
    have copied: "memcpy (filled (mem s) f buffer (k * b - off)) (buffer + of_nat (k * b - off)) (file_block s inode k) (of_nat b) =
        filled (mem s) f buffer ((k * b - off) + b)"
    proof (rule memcpy_extends [OF apart _ N blk])
      show "k * b - off + b \<le> N" using le len by simp
      fix j assume "j < b"
      then have "file_byte s inode (k * b + j) = mem s (file_block s inode k + of_nat j)"
        by (intro file_byte_at) (simp_all add: b_def)
      then show "mem s (file_block s inode k + of_nat j) = f (k * b - off + j)" using ge by (simp add: f_def)
    qed
    have dest: "buffer + block_size s * of_nat (k - st) - of_nat off mod block_size s = buffer + of_nat (k * b - off)"
      using buffer_position(2) [of off b k "block_size s"] \<open>Suc st \<le> k\<close> b0 wb by (simp add: wr st_def r_def)
    show ?thesis unfolding m_def mS len kw(2) dest if_not_P [OF False] using copied unfolding wb .
  qed
  then have "(S k)\<lparr>mem := m\<rparr> = S (Suc k)" by (simp add: S_def read_upto_def)
  moreover have "of_nat k + 1 = (of_nat (Suc k) :: u32)" "of_nat (k - st) + 1 = (of_nat (Suc k - st) :: u32)"
    using k by (simp_all add: Suc_diff_le)
  ultimately have "read_blocks inode (of_nat off) buffer (block_size s) (of_nat st) (of_nat en) (of_nat k) (of_nat (k - st)) (S k) =
      read_blocks inode (of_nat off) buffer (block_size s) (of_nat st) (of_nat en) (of_nat (Suc k)) (of_nat (Suc k - st)) (S (Suc k))"
    using kw(1) src by (subst read_blocks.simps) (simp add: m_def Let_def add.commute [of 1 "of_nat k"])
  then show ?case using Suc.hyps(1) [of "Suc k"] Suc.hyps(2) k unfolding st_def by simp
qed

lemma last_piece:
  fixes s :: "'a initrd_scheme" and inode buffer :: u32
  defines "b \<equiv> unat (block_size s)"
  assumes on: "file_on D s inode n" and apart': "\<forall>x. in_range buffer len x \<longrightarrow> x \<notin> D" and "len < 2 ^ 32"
    and at: "off + c = en * b + d" and es: "es < b" and en: "0 < es \<Longrightarrow> en < n" and fits: "d + k \<le> es" "c + k \<le> len"
  shows "memcpy (mem (read_upto s inode off buffer c)) (buffer + of_nat c)
      (ext2_get_inode_block inode (of_nat en) (read_upto s inode off buffer c) + of_nat d) (of_nat k) =
    mem (read_upto s inode off buffer (c + k))"
proof (cases "k = 0")
  case True
  then show ?thesis by (simp add: memcpy_def memcpy_loop.simps [of _ _ _ 0 0])
next
  case False
  have apart: "x \<notin> D" if "in_range buffer len x" for x using apart' that by blast
  have "en < n" using False en fits by simp
  then have blk: "within D (file_block s inode en) b" using on unfolding file_on_def b_def by blast
  have same: "agree D (mem s) (mem (read_upto s inode off buffer c))"
    unfolding read_upto_def using filled_agree [of buffer len D c "mem s"] apart fits by simp
  then have src: "ext2_get_inode_block inode (of_nat en) (read_upto s inode off buffer c) = file_block s inode en"
    using agree_file_block [OF on \<open>en < n\<close> same] by (simp add: file_block_def read_upto_def)
  have "memcpy (filled (mem s) (\<lambda>i. file_byte s inode (off + i)) buffer c) (buffer + of_nat c)
      (file_block s inode en + of_nat d) (of_nat k) = filled (mem s) (\<lambda>i. file_byte s inode (off + i)) buffer (c + k)"
  proof (rule memcpy_extends [OF apart fits(2) \<open>len < 2 ^ 32\<close>])
    show "within D (file_block s inode en + of_nat d) k" by (rule within_sub [OF blk]) (use fits es in linarith)
    fix j assume "j < k"
    then have "file_byte s inode (en * b + (d + j)) = mem s (file_block s inode en + of_nat (d + j))"
      by (intro file_byte_at) (use fits es b_def in linarith)+
    then show "mem s (file_block s inode en + of_nat d + of_nat j) = file_byte s inode (off + (c + j))"
      using at by simp (simp add: add.assoc [symmetric])
  qed
  then show ?thesis unfolding src by (simp add: read_upto_def)
qed

lemma read_initrd_fills:
  fixes s :: "'a initrd_scheme" and node offset sz buffer :: u32
  defines "inode \<equiv> ext2_get_inode (ld32 (mem s) (node + FS_INODE)) s"
  defines "len \<equiv> min (unat sz) (unat (i_size (mem s) inode) - unat offset)"
  assumes on: "file_on D s inode n" and blocks: "unat offset + len \<le> n * unat (block_size s)"
    and inside: "offset \<le> i_size (mem s) inode" and no_wrap: "unat offset + unat sz < 2 ^ 32"
    and apart: "\<And>x. in_range buffer len x \<Longrightarrow> x \<notin> D"
  shows "read_initrd node offset sz buffer s = ret (of_nat len, s\<lparr>mem :=
    \<lambda>x. if in_range buffer len x then file_byte s inode (unat offset + unat (x - buffer)) else mem s x\<rparr>)"
proof -
  define b off end_at where "b = unat (block_size s)" and "off = unat offset" and "end_at = off + len"
  have goal: "(\<lambda>x. if in_range buffer len x then file_byte s inode (unat offset + unat (x - buffer)) else mem s x) =
      filled (mem s) (\<lambda>i. file_byte s inode (off + i)) buffer len"
    by (simp add: filled_def off_def fun_eq_iff)
  have b0: "0 < b" using on by (simp add: file_on_def b_def unat_gt_0)
  have bs0: "block_size s \<noteq> 0" using on by (simp add: file_on_def)
  have small: "end_at < 2 ^ 32" "len < 2 ^ 32" "off < 2 ^ 32"
    using no_wrap by (simp_all add: end_at_def off_def len_def)
  have sum: "unat (offset + sz) = off + unat sz" using no_wrap unat_add_small [of offset "unat sz"] by (simp add: off_def)
  have end_word: "(if offset + sz > i_size (mem s) inode then i_size (mem s) inode else offset + sz) = of_nat end_at"
    using inside sum by (auto simp: word_less_nat_alt word_le_nat_alt end_at_def len_def off_def min_def word_unat_eq_iff unat_of_nat)
  have words: "offset = of_nat off" "block_size s = of_nat b" by (simp_all add: off_def b_def)
  define st en es where "st = off div b" and "en = end_at div b" and "es = end_at mod b"
  have div: "a div d = of_nat (unat a div unat d)" and mod: "a mod d = of_nat (unat a mod unat d)" for a d :: u32
    by (simp_all flip: unat_div_distrib unat_mod_distrib)
  have ew: "(of_nat end_at :: u32) div block_size s = of_nat en" "offset div block_size s = of_nat st"
    "(of_nat end_at :: u32) mod block_size s = of_nat es" "offset mod block_size s = of_nat (off mod b)"
    unfolding div mod unat_of_nat_small [OF small(1)] by (simp_all add: st_def en_def es_def b_def off_def)
  have en_n: "en * b \<le> end_at" "end_at = en * b + es" "es < b" using b0 by (simp_all add: en_def es_def)
  have n: "en \<le> n" "0 < es \<Longrightarrow> en < n"
  proof -
    have le: "en * b + es \<le> n * b" using blocks en_n(2) by (simp add: end_at_def off_def b_def)
    then have "en * b \<le> n * b" by linarith
    then show "en \<le> n" using b0 by simp
    assume "0 < es"
    then have "en * b < n * b" using le by linarith
    then show "en < n" by simp
  qed
  have en32: "en < 2 ^ 32" "st < 2 ^ 32" using small div_le_dividend [of end_at b] div_le_dividend [of off b]
    unfolding en_def st_def by linarith+
  have sten: "st \<le> en" unfolding st_def en_def by (rule div_le_mono) (simp add: end_at_def)
  have size: "(of_nat end_at :: u32) - offset = of_nat len" by (simp add: end_at_def off_def)
  have "\<forall>x. in_range buffer len x \<longrightarrow> x \<notin> D" using apart by blast
  note last = last_piece [where en = en and es = es and s = s, folded b_def, OF on this small(2) _ en_n(3) n(2)]
  show ?thesis
  proof (cases "st = en")
    case True
    have "off = en * b + off mod b" unfolding True [symmetric] st_def by (rule div_mult_mod_eq [symmetric])
    then have d: "off + 0 = en * b + off mod b" "off mod b + len \<le> es" using en_n(2) by (simp_all add: end_at_def)
    show ?thesis
      unfolding read_initrd_def goal Let_def inode_def [symmetric] end_word ew size if_not_P [OF bs0]
      using last [OF d(1), of len] d(2) True by (simp add: read_upto_def)
  next
    case False
    then have lt: "st < en" using sten by simp
    note pos = buffer_position [of off b en "block_size s", folded st_def, OF lt b0, OF words(2) [symmetric]]
    have at: "off + (en * b - off) = en * b + 0" "en * b - off + es \<le> len" "off + (en * b - off + es) = off + len"
      using pos(1) en_n(2) by (simp_all add: end_at_def)
    have zero: "st * b - off = 0" by (simp add: st_def)
    have "read_blocks inode (of_nat off) buffer (block_size s) (of_nat st) (of_nat en) (of_nat st) (of_nat (st - st))
        (read_upto s inode off buffer (st * b - off)) = (of_nat (en - st), read_upto s inode off buffer (en * b - off))"
      unfolding st_def b_def
      by (rule read_blocks_fill [OF on n(1) _ apart small(2,3) en32(1)]) (use at(2) sten in \<open>simp_all add: b_def st_def\<close>)
    then have blocks: "read_blocks inode offset buffer (block_size s) (of_nat st) (of_nat en) (of_nat st) 0 s =
        (of_nat (en - st), read_upto s inode off buffer (en * b - off))"
      unfolding zero by (simp add: words(1) read_upto_def)
    have ne: "(of_nat st :: u32) \<noteq> of_nat en" using False en32 by (simp add: of_nat_inject_small)
    have dest: "buffer + block_size s * of_nat (en - st) - of_nat (off mod b) = buffer + of_nat (en * b - off)"
      using pos(2) by (simp add: add_diff_eq [symmetric])
    show ?thesis
      unfolding read_initrd_def goal Let_def inode_def [symmetric] end_word ew size if_not_P [OF bs0] blocks
        if_not_P [OF ne] prod.case dest
      using last [OF at(1), of es] at(2,3) by (simp add: read_upto_def)
  qed
qed


text \<open>C11: reading inside a file copies exactly its bytes from the offset on, up to the requested length
  or the end of the file, to the buffer and touches nothing else, whatever the block boundaries in
  between; it returns the number of bytes.\<close>

theorem read_initrd_reads:
  assumes "inode = ext2_get_inode (ld32 (mem s) (node + FS_INODE)) s"
    and "len = min (unat sz) (unat (i_size (mem s) inode) - unat offset)"
    and "file_on D s inode n" and "unat offset + len \<le> n * unat (block_size s)"
    and "offset \<le> i_size (mem s) inode" and "unat offset + unat sz < 2 ^ 32"
    and "\<And>x. in_range buffer len x \<Longrightarrow> x \<notin> D"
  shows "read_initrd node offset sz buffer s = ret (of_nat len, s\<lparr>mem :=
    \<lambda>x. if in_range buffer len x then file_byte s inode (unat offset + unat (x - buffer)) else mem s x\<rparr>)"
  using assms(3-) unfolding assms(2) unfolding assms(1) by (rule read_initrd_fills)

section \<open>A disk\<close>

text \<open>
  A disk image at 0x200000 with blocks of 1024 bytes: the root directory with the entries \<open>.\<close> and
  \<open>rc\<close>, and the file \<open>rc\<close> (inode 11) of 2000 bytes in the blocks 11 and 12.
  The nodes of the file and of the root are at 0x180000 and 0x1B0000, the strings \<open>rc\<close>,
  \<open>/rc\<close> and \<open>/\<close> at 0x1A0000, 0x1C0000 and 0x1D0000.
\<close>

definition demo_words :: "(u32 \<times> u32) list" where
  "demo_words =
     [(0x200418, 0), (0x200438, 0xEF53), (0x200458, 128), (0x200808, 5),
      (0x201480, 0x41ED), (0x201484, 28), (0x2014A8, 10),
      (0x201900, 0x81A4), (0x201904, 2000), (0x201928, 11), (0x20192C, 12),
      (0x202800, 2), (0x202804, 0x0201000C), (0x202808, 0x2E),
      (0x20280C, 11), (0x202810, 0x01020010), (0x202814, 0x00006372),
      (0x202FFC, 0x64636261), (0x203000, 0x68676665),
      (0x180110, 11), (0x1A0000, 0x00006372), (0x1B0110, 2),
      (0x1B010C, 2), (0x1B012C, 0x1040), (0x1B0130, 0x1050), (0x1C0000, 0x0063722F), (0x1D0000, 0x2F)]"

definition demo_disk :: mem where
  "demo_disk = word_image demo_words"

definition demo_initrd :: initrd where
  "demo_initrd = kbd.extend (demo_kbd\<lparr>mem := demo_disk\<rparr>)
     (initrd.fields (\<lambda>f. case f of read_initrd_fn \<Rightarrow> 0x1000 | write_initrd_fn \<Rightarrow> 0x1010 | open_initrd_fn \<Rightarrow> 0x1020
        | close_initrd_fn \<Rightarrow> 0x1030 | readdir_initrd_fn \<Rightarrow> 0x1040 | finddir_initrd_fn \<Rightarrow> 0x1050)
       0x200000 0x200400 0x200800 0x201400 0 0)"

lemma demo_initrd_fields:
  "mem demo_initrd = demo_disk" "initrd_start demo_initrd = 0x200000" "initrd_superblock demo_initrd = 0x200400"
  "initrd_inode_table demo_initrd = 0x201400"
  by (simp_all add: demo_initrd_def kbd.defs initrd.defs)

lemma demo_word: "al4 a \<Longrightarrow> ld32 demo_disk a = (case map_of (rev demo_words) a of Some w \<Rightarrow> w | None \<Rightarrow> 0)"
  unfolding demo_disk_def by (rule word_image_at) (simp_all add: demo_words_def al4_def)

lemma demo_reads:
  "ld32 demo_disk 0x200418 = 0" "ld16 demo_disk 0x200458 = 128" "ld32 demo_disk 0x180110 = 11"
  "ld32 demo_disk 0x201904 = 2000" "ld32 demo_disk 0x201928 = 11" "ld32 demo_disk 0x20192C = 12"
  "demo_disk 0x203000 = 0x65" "demo_disk 0x202FFF = 0x64"
  using byte_of_word [of 0 demo_disk "0x203000"] byte_of_word [of 3 demo_disk "0x202FFC"]
  by (simp_all add: demo_word half_of_word demo_words_def al4_def)

lemma demo_geometry:
  "block_size demo_initrd = 1024" "ext2_get_inode 11 demo_initrd = 0x201900"
  "ext2_get_inode (ld32 (mem demo_initrd) (0x180000 + FS_INODE)) demo_initrd = 0x201900"
  "i_size (mem demo_initrd) 0x201900 = 2000"
  "file_block demo_initrd 0x201900 0 = 0x202C00" "file_block demo_initrd 0x201900 1 = 0x203000"
  by (simp_all add: block_size_def sb_log_block_size_def demo_initrd_fields demo_reads ext2_get_inode_def
      sb_inode_size_def FS_INODE_def i_size_def file_block_def ext2_get_inode_block_def ext2_get_block_def i_block_def)

lemma within_range: "k + n \<le> l \<Longrightarrow> l \<le> 2 ^ 32 \<Longrightarrow> within {x. in_range p l x} (p + of_nat k) n"
  using in_range_offset [of l _ p] by (simp add: within_def add.assoc flip: of_nat_add)

lemma demo_file_on: "file_on {x. in_range 0x200000 0x10000 x} demo_initrd 0x201900 2"
proof -
  have "within {x. in_range 0x200000 0x10000 x} (0x200000 + of_nat k) n" if "k + n \<le> 0x10000" for k n
    using that by (intro within_range) simp_all
  from this [of "0x418" 4] this [of "0x1958" 4] this [of "0x1928" 4] this [of "0x192C" 4] this [of "0x2C00" 1024]
    this [of "0x3000" 1024]
  show ?thesis
    using demo_geometry(6) by (auto simp: file_on_def demo_geometry demo_initrd_fields entry_addr_def less_2_cases_iff)
qed

theorem read_initrd_reads_witness:
  "\<exists>s. read_initrd 0x180000 1000 100 0x190000 demo_initrd = ret (100, s) \<and>
    mem s 0x190017 = 0x64 \<and> mem s 0x190018 = 0x65"
proof -
  have apart: "x \<notin> {x. in_range 0x200000 0x10000 x}" if r: "in_range 0x190000 100 x" for x
  proof -
    obtain j where "j < 100" "x = 0x190000 + of_nat j" using r by (rule in_range_obtain)
    then show ?thesis using range_apart [of "0x200000" "0x10000" "0x190000" 100 j] by simp
  qed
  have "read_initrd 0x180000 1000 100 0x190000 demo_initrd = ret (of_nat 100, demo_initrd\<lparr>mem :=
    \<lambda>x. if in_range 0x190000 100 x then file_byte demo_initrd 0x201900 (unat (1000 :: u32) + unat (x - 0x190000))
      else mem demo_initrd x\<rparr>)"
    by (rule read_initrd_reads [OF demo_geometry(3) [symmetric] _ demo_file_on _ _ _ apart])
      (unfold demo_geometry(1,4), simp_all)
  then show ?thesis
    using demo_geometry(6) by (simp add: demo_geometry file_byte_def demo_initrd_fields demo_reads in_range_def)
qed

text \<open>C18: a read that starts behind the end of the file does not return 0: the length wraps around to
  \<open>2 ^ 32\<close> less the distance from the end.  When the offset lies in the block of the end, that many
  bytes are copied from there to the buffer, almost the whole address space; otherwise the part of that
  block before the end of the file is copied, to a place in front of the buffer.\<close>

theorem read_initrd_past_end:
  assumes "inode = ext2_get_inode (ld32 (mem s) (node + FS_INODE)) s" and "bs = block_size s" and "bs \<noteq> 0"
    and "end = i_size (mem s) inode" and "end < offset" and "unat offset + unat sz < 2 ^ 32"
  shows "\<exists>len. unat len = 2 ^ 32 - (unat offset - unat end) \<and>
    read_initrd node offset sz buffer s = ret (len, s\<lparr>mem :=
      if offset div bs = end div bs
      then memcpy (mem s) buffer (ext2_get_inode_block inode (end div bs) s + offset mod bs) len
      else memcpy (mem s) (buffer - offset mod bs) (ext2_get_inode_block inode (end div bs) s) (end mod bs)\<rparr>)"
proof (intro exI [of _ "end - offset"] conjI)
  have "unat (offset + sz) = unat offset + unat sz" using assms(6) unat_add_small [of offset "unat sz"] by simp
  then have cut: "(if offset + sz > end then end else offset + sz) = end" using assms(5) by (simp add: word_less_nat_alt)
  have "unat (end - offset) + unat (offset - end) = 2 ^ 32" using assms(5) by (intro unat_diff_swap) auto
  moreover have "unat (offset - end) = unat offset - unat end" using assms(5) by (intro unat_sub) simp
  ultimately show "unat (end - offset) = 2 ^ 32 - (unat offset - unat end)" by simp
  have "end div bs \<le> offset div bs"
    using assms(5) unfolding word_le_nat_alt unat_div_distrib word_less_nat_alt by (intro div_le_mono) simp
  then have "read_blocks inode offset buffer bs (offset div bs) (end div bs) (offset div bs) 0 s = (0, s)"
    by (subst read_blocks.simps) (simp add: leD)
  then show "read_initrd node offset sz buffer s = ret (end - offset, s\<lparr>mem :=
      if offset div bs = end div bs
      then memcpy (mem s) buffer (ext2_get_inode_block inode (end div bs) s + offset mod bs) (end - offset)
      else memcpy (mem s) (buffer - offset mod bs) (ext2_get_inode_block inode (end div bs) s) (end mod bs)\<rparr>)"
    using assms(3) unfolding read_initrd_def Let_def assms(1,2) [symmetric] assms(4) [symmetric] cut by simp
qed

theorem read_initrd_past_end_witness:
  "\<exists>len m. unat len = 2 ^ 32 - 1000 \<and> read_initrd 0x180000 3000 0 0x190000 demo_initrd = ret (len, demo_initrd\<lparr>mem := m\<rparr>) \<and>
    m = memcpy (mem demo_initrd) 0x18FC48 0x203000 976"
proof -
  have "\<exists>len. unat len = 2 ^ 32 - (unat (3000 :: u32) - unat (2000 :: u32)) \<and>
    read_initrd 0x180000 3000 0 0x190000 demo_initrd = ret (len, demo_initrd\<lparr>mem :=
      if (3000 :: u32) div 1024 = 2000 div 1024
      then memcpy (mem demo_initrd) 0x190000 (ext2_get_inode_block 0x201900 (2000 div 1024) demo_initrd + 3000 mod 1024) len
      else memcpy (mem demo_initrd) (0x190000 - 3000 mod 1024) (ext2_get_inode_block 0x201900 (2000 div 1024) demo_initrd)
        (2000 mod 1024)\<rparr>)"
    by (rule read_initrd_past_end [OF demo_geometry(3) [symmetric] demo_geometry(1) [symmetric] _ demo_geometry(4) [symmetric]]; simp)
  then show ?thesis using demo_geometry(6) by (simp add: file_block_def)
qed

section \<open>The flags of a node\<close>

definition step_flags :: "u16 \<Rightarrow> u16 \<times> u32 \<Rightarrow> u32 \<Rightarrow> u32" where
  "step_flags mode = (\<lambda>(tb, flag) f. if mode AND tb = tb then f OR flag else f)"

lemma fold_flag_step:
  assumes "\<And>k. k < 2 \<Longrightarrow> \<not> in_range (fnode + FS_FLAGS) 4 (inode + of_nat k)"
  shows "ld32 (fold (flag_step inode fnode) ps m) (fnode + FS_FLAGS) =
    fold (step_flags (i_mode m inode)) ps (ld32 m (fnode + FS_FLAGS))"
proof (induction ps arbitrary: m)
  case (Cons p ps)
  obtain tb flag where p: "p = (tb, flag)" by (cases p)
  have mode: "i_mode (st32 m (fnode + FS_FLAGS) w) inode = i_mode m inode" for w
    using assms [of 0] assms [of 1] by (simp add: i_mode_def ld16_def st32_outside)
  show ?case using Cons [of "flag_step inode fnode p m"] by (simp add: p flag_step_def step_flags_def mode)
qed simp

text \<open>The flags by the type of the file, the four high bits of the mode.\<close>

definition type_flags :: "u16 \<Rightarrow> u32" where
  "type_flags t =
     (if t = 0x8000 then FS_FILE else if t = 0x4000 then FS_DIRECTORY
      else if t = 0x2000 then FS_CHARDEVICE else if t = 0x1000 then FS_PIPE
      else if t = 0x6000 then FS_DIRECTORY OR FS_BLOCKDEVICE OR FS_CHARDEVICE
      else if t = 0xA000 then FS_FILE OR FS_CHARDEVICE OR FS_SYMLINK
      else if t = 0xC000 then FS_FILE OR FS_DIRECTORY else 0)"

lemma type_bits:
  assumes "(tb :: u16) AND 0xF000 = tb"
  shows "mode AND tb = tb \<longleftrightarrow> (mode AND 0xF000) AND tb = tb"
  using assms by (metis and.assoc and.commute)

text \<open>C17: regular files, directories, character devices and pipes get exactly their own flag.  The type
  is not a set of bits, so a block device and a socket also count as a directory, and a symbolic link
  and a socket also as a regular file.\<close>

theorem node_flags_by_type:
  assumes "\<And>k. k < 2 \<Longrightarrow> \<not> in_range (fnode + FS_FLAGS) 4 (inode + of_nat k)"
    and "i_mode m inode AND 0xF000 \<in> {0x1000, 0x2000, 0x4000, 0x6000, 0x8000, 0xA000, 0xC000}"
  shows "ld32 (node_flags inode fnode m) (fnode + FS_FLAGS) = type_flags (i_mode m inode AND 0xF000)"
proof -
  define t where "t = i_mode m inode AND 0xF000"
  have mode: "i_mode (st32 m (fnode + FS_FLAGS) 0) inode = i_mode m inode"
    using assms(1) [of 0] assms(1) [of 1] by (simp add: i_mode_def ld16_def st32_outside)
  have bits: "step_flags (i_mode m inode) (tb, flag) f = (if t AND tb = tb then f OR flag else f)"
    if "tb AND 0xF000 = tb" for tb flag f
    using type_bits [OF that] by (simp add: step_flags_def t_def)
  have "ld32 (node_flags inode fnode m) (fnode + FS_FLAGS) = fold (step_flags (i_mode m inode))
      [(EXT2_S_IFREG, FS_FILE), (EXT2_S_IFDIR, FS_DIRECTORY), (EXT2_S_IFBLK, FS_BLOCKDEVICE),
       (EXT2_S_IFCHR, FS_CHARDEVICE), (EXT2_S_IFIFO, FS_PIPE), (EXT2_S_IFLNK, FS_SYMLINK)] 0"
    unfolding node_flags_def by (subst fold_flag_step) (use assms(1) in \<open>simp_all add: mode del: fold_simps\<close>)
  moreover have "t \<in> {0x1000, 0x2000, 0x4000, 0x6000, 0x8000, 0xA000, 0xC000}" using assms(2) by (simp only: t_def)
  ultimately show ?thesis
    unfolding t_def [symmetric]
    by (auto simp: bits EXT2_S_IFREG_def EXT2_S_IFDIR_def EXT2_S_IFBLK_def EXT2_S_IFCHR_def EXT2_S_IFIFO_def
        EXT2_S_IFLNK_def type_flags_def FS_FILE_def FS_DIRECTORY_def FS_BLOCKDEVICE_def FS_CHARDEVICE_def
        FS_PIPE_def FS_SYMLINK_def)
qed

theorem node_flags_by_type_witness:
  "ld32 (node_flags 0x201900 0x180000 (st16 demo_disk 0x201900 0x61A4)) (0x180000 + FS_FLAGS) = 0x0E"
proof -
  let ?m = "st16 demo_disk 0x201900 0x61A4"
  have mode: "i_mode ?m 0x201900 = 0x61A4" by (simp add: i_mode_def)
  have "ld32 (node_flags 0x201900 0x180000 ?m) (0x180000 + FS_FLAGS) = type_flags (i_mode ?m 0x201900 AND 0xF000)"
    by (rule node_flags_by_type) (auto simp: mode in_range_def FS_FLAGS_def less_2_cases_iff)
  then show ?thesis unfolding mode by (simp add: type_flags_def FS_DIRECTORY_def FS_BLOCKDEVICE_def FS_CHARDEVICE_def)
qed

section \<open>The entries of a directory\<close>

text \<open>
  \<open>dir_chain m sz block off ds\<close>: from the offset \<open>off\<close> on the directory of \<open>sz\<close> bytes at \<open>block\<close> has the
  entries \<open>ds\<close>, each found by the record length of the one before.
\<close>

fun dir_chain :: "mem \<Rightarrow> u32 \<Rightarrow> u32 \<Rightarrow> u32 \<Rightarrow> u32 list \<Rightarrow> bool" where
  "dir_chain m sz block off [] \<longleftrightarrow> \<not> off < sz"
| "dir_chain m sz block off (d # ds) \<longleftrightarrow> off < sz \<and> d = block + off \<and>
     dir_chain m sz block (off + ucast (d_rec_len m d)) ds"

lemma direntry_loop_nth:
  "dir_chain m (i_size m inode) block off ds \<Longrightarrow> unat i + length ds < 2 ^ 32 \<Longrightarrow>
    direntry_loop inode (i + k) block off i m = Some (if unat k < length ds then ds ! unat k else 0)"
proof (induction ds arbitrary: off i k)
  case Nil
  then show ?case by (subst direntry_loop.simps) simp
next
  case (Cons d ds)
  show ?case
  proof (cases "k = 0")
    case True
    then show ?thesis using Cons.prems by (subst direntry_loop.simps) simp
  next
    case False
    have "unat (i + 1) = unat i + 1" using Cons.prems(2) unat_add_small [of i 1] by simp
    moreover have k: "unat k = Suc (unat (k - 1))" using False unat_sub [of 1 k] by (simp add: word_le_nat_alt unat_gt_0 Suc_leI)
    ultimately have "direntry_loop inode (i + 1 + (k - 1)) block (off + ucast (d_rec_len m d)) (i + 1) m =
        Some (if unat (k - 1) < length ds then ds ! unat (k - 1) else 0)"
      by (intro Cons.IH) (use Cons.prems in auto)
    moreover have "i + 1 + (k - 1) = i + k" by simp
    ultimately show ?thesis
      unfolding k using Cons.prems False by (subst direntry_loop.simps) auto
  qed
qed

text \<open>\<open>ext2_get_direntry\<close> returns the entry with the given index, and no entry behind the last.\<close>

theorem direntry_is_nth:
  assumes "dir_chain (mem s) (i_size (mem s) inode) (ext2_get_block (i_block (mem s) inode 0) s) 0 ds"
    and "length ds < 2 ^ 32"
  shows "ext2_get_direntry inode index s = Some (if unat index < length ds then ds ! unat index else 0)"
  using direntry_loop_nth [OF assms(1), of 0 index] assms(2) by (simp add: ext2_get_direntry_def)

lemma demo_root_chain: "dir_chain demo_disk 28 0x202800 0 [0x202800, 0x20280C]"
proof -
  have "d_rec_len demo_disk 0x202800 = 12" "d_rec_len demo_disk 0x20280C = 16"
    by (simp_all add: d_rec_len_def half_of_word demo_word demo_words_def al4_def)
  then show ?thesis by simp
qed

lemma demo_root:
  "ext2_get_inode 2 demo_initrd = 0x201480" "i_size demo_disk 0x201480 = 28"
  "ext2_get_block (i_block demo_disk 0x201480 0) demo_initrd = 0x202800"
  by (simp_all add: ext2_get_inode_def sb_inode_size_def demo_initrd_fields demo_reads i_size_def i_block_def
      ext2_get_block_def demo_geometry demo_word demo_words_def al4_def)

theorem direntry_is_nth_witness:
  "ext2_get_direntry 0x201480 1 demo_initrd = Some 0x20280C \<and> ext2_get_direntry 0x201480 2 demo_initrd = Some 0"
proof -
  have "ext2_get_direntry 0x201480 i demo_initrd =
      Some (if unat i < length [0x202800, 0x20280C :: u32] then [0x202800, 0x20280C] ! unat i else 0)" for i
    by (rule direntry_is_nth) (simp_all only: demo_initrd_fields demo_root demo_root_chain, simp)
  from this [of 1] this [of 2] show ?thesis by simp
qed

end
