(* ===== verification/Borrow.thy ===== *)
theory Borrow
  imports Malloc
begin

text \<open>
  Small blocks taken from a page with a free cell and given back: the exact change of the abstract
  heap and of the state, and the bytes of memory that stay as they are.  The file system takes
  every temporary block this way.
\<close>

section \<open>Bytes that stay\<close>

text \<open>A word is kept if it lies in a block in use or outside of every chunk of the heap.\<close>

definition kept_words :: "(u32 \<Rightarrow> chunk option) \<Rightarrow> u32 set" where
  "kept_words A = {w. al4 w \<and> (w \<in> block_words A \<or> (\<forall>p c. A p = Some c \<longrightarrow> w \<notin> words p (chunk_len c)))}"

definition word_of :: "u32 \<Rightarrow> u32" where
  "word_of x = x - of_nat (unat x mod 4)"

definition kept :: "(u32 \<Rightarrow> chunk option) \<Rightarrow> u32 \<Rightarrow> bool" where
  "kept A x \<longleftrightarrow> word_of x \<in> kept_words A"

definition same_kept :: "(u32 \<Rightarrow> chunk option) \<Rightarrow> mem \<Rightarrow> mem \<Rightarrow> bool" where
  "same_kept A m m' \<longleftrightarrow> (\<forall>x. kept A x \<longrightarrow> m' x = m x)"

lemma word_of: "al4 (word_of x)" and word_of_offset: "word_of x + of_nat (unat x mod 4) = x"
proof -
  have "unat (of_nat (unat x mod 4) :: u32) = unat x mod 4"
    by (intro unat_of_nat_small order_less_le_trans [OF mod_less_divisor]) simp_all
  moreover have "(of_nat (unat x mod 4) :: u32) \<le> x" using calculation by (simp add: word_le_nat_alt)
  ultimately have "unat (word_of x) = unat x - unat x mod 4" unfolding word_of_def by (simp add: unat_sub)
  then have "unat (word_of x) mod 4 = 0" by (simp add: minus_mod_eq_mult_div)
  then show "al4 (word_of x)" by (simp add: al4_def)
qed (simp add: word_of_def)

lemma word_byte:
  assumes "ld32 m' w = ld32 m w" and "k < 4"
  shows "m' (w + of_nat k) = m (w + of_nat k)"
  using byte_of_word [OF assms(2), of m' w] byte_of_word [OF assms(2), of m w] assms(1) by simp

lemma same_keptI:
  assumes "\<And>w. w \<in> kept_words A \<Longrightarrow> ld32 m' w = ld32 m w"
  shows "same_kept A m m'"
  unfolding same_kept_def kept_def
proof (intro allI impI)
  fix x assume "word_of x \<in> kept_words A"
  from word_byte [OF assms [OF this], of "unat x mod 4"] show "m' x = m x" by (simp add: word_of_offset)
qed

lemma same_kept_refl [simp]: "same_kept A m m"
  by (simp add: same_kept_def)

lemma same_kept_trans: "same_kept A m m' \<Longrightarrow> same_kept A m' m'' \<Longrightarrow> same_kept A m m''"
  by (simp add: same_kept_def)

lemma same_kept_words:
  assumes "same_words W m m'" and "W \<inter> kept_words A = {}"
  shows "same_kept A m m'"
  using assms by (intro same_keptI same_wordsD [OF assms(1)]) (auto simp: kept_words_def)

section \<open>Taking and returning a cell\<close>

text \<open>There is a page of the bin with a free cell.\<close>

definition ready :: "(u32 \<Rightarrow> chunk option) \<Rightarrow> nat \<Rightarrow> bool" where
  "ready A b \<longleftrightarrow> (\<exists>p fs. fs \<noteq> [] \<and> A p = Some (Small b fs))"

text \<open>The only fields of the state an operation on small blocks changes.\<close>

definition heap_only :: "'a kheap_scheme \<Rightarrow> 'a kheap_scheme \<Rightarrow> bool" where
  "heap_only s s' \<longleftrightarrow> (\<exists>m h. s' = s\<lparr>mem := m, bin_head := h\<rparr>)"

lemma heap_only_refl [simp]: "heap_only s s"
  unfolding heap_only_def by (intro exI [of _ "mem s"] exI [of _ "bin_head s"]) simp

lemma heap_only_trans:
  assumes "heap_only s s'" and "heap_only s' s''"
  shows "heap_only s s''"
proof -
  obtain m h m' h' where "s' = s\<lparr>mem := m, bin_head := h\<rparr>" "s'' = s'\<lparr>mem := m', bin_head := h'\<rparr>"
    using assms unfolding heap_only_def by blast
  then have "s'' = s\<lparr>mem := m', bin_head := h'\<rparr>" by simp
  then show ?thesis unfolding heap_only_def by blast
qed

lemma heap_only_mem: "heap_only s (s\<lparr>mem := m\<rparr>)" and heap_only_head: "heap_only s (s\<lparr>bin_head := h\<rparr>)"
  and heap_only_both: "heap_only s (s\<lparr>bin_head := h, mem := m\<rparr>)"
proof -
  have "s\<lparr>mem := m\<rparr> = s\<lparr>mem := m, bin_head := bin_head s\<rparr>" "s\<lparr>bin_head := h\<rparr> = s\<lparr>mem := mem s, bin_head := h\<rparr>"
    "s\<lparr>bin_head := h, mem := m\<rparr> = s\<lparr>mem := m, bin_head := h\<rparr>" by simp_all
  then show "heap_only s (s\<lparr>mem := m\<rparr>)" "heap_only s (s\<lparr>bin_head := h\<rparr>)"
    "heap_only s (s\<lparr>bin_head := h, mem := m\<rparr>)" unfolding heap_only_def by blast+
qed

lemma heap_only_more: "heap_only s s' \<Longrightarrow> kheap.more s' = kheap.more s"
  unfolding heap_only_def by auto

lemma pop_only:
  assumes "klmalloc_list_head b s \<noteq> 0" and "klmalloc_small b s = ret (q, s')"
  shows "heap_only s s'"
  using assms
  by (auto simp: klmalloc_small_def klmalloc_stack_pop_def klmalloc_list_decouple_def Let_def
      bind_run_eq_ret assert_run_def heap_only_mem heap_only_both split: if_splits)

lemma push_only:
  assumes "hdr_size (mem s) (block_header q) \<le> NUM_BINS" and "klfree q s = ret s'"
  shows "heap_only s s'"
  using assms
  by (auto simp: klfree_def klmalloc_stack_push_def klmalloc_list_insert_def Let_def not_less [symmetric]
      bind_run_eq_ret assert_run_def heap_only_mem heap_only_both split: if_splits)

text \<open>The free cells of a bin, and having \<open>n\<close> of them in stock.\<close>

definition free_cells :: "(u32 \<Rightarrow> chunk option) \<Rightarrow> nat \<Rightarrow> u32 set" where
  "free_cells A b = {q. \<exists>p fs. A p = Some (Small b fs) \<and> q \<in> set fs}"

definition stock :: "(u32 \<Rightarrow> chunk option) \<Rightarrow> nat \<Rightarrow> nat \<Rightarrow> bool" where
  "stock A b n \<longleftrightarrow> (\<exists>cs. distinct cs \<and> length cs = n \<and> set cs \<subseteq> free_cells A b)"

lemma stock_ready:
  assumes "stock A b n" and "0 < n"
  shows "ready A b"
proof -
  obtain cs where "length cs = n" "set cs \<subseteq> free_cells A b" using assms(1) unfolding stock_def by blast
  then obtain q where "q \<in> free_cells A b" using assms(2) by (cases cs) auto
  then obtain p fs where "A p = Some (Small b fs)" "q \<in> set fs" unfolding free_cells_def by blast
  then have "fs \<noteq> []" "A p = Some (Small b fs)" by auto
  then show ?thesis unfolding ready_def by blast
qed

lemma stock_mono:
  assumes "stock A b k" and "n \<le> k"
  shows "stock A b n"
proof -
  obtain cs where "distinct cs" "length cs = k" "set cs \<subseteq> free_cells A b" using assms(1) unfolding stock_def by blast
  then show ?thesis
    unfolding stock_def using assms(2) set_take_subset [of n cs] by (intro exI [of _ "take n cs"]) auto
qed

text \<open>The heap after taking a cell of bin \<open>b\<close> keeps the bytes kept before, and its stock but for one cell.\<close>

definition grown :: "(u32 \<Rightarrow> chunk option) \<Rightarrow> (u32 \<Rightarrow> chunk option) \<Rightarrow> nat \<Rightarrow> bool" where
  "grown A A' b \<longleftrightarrow> kept_words A \<subseteq> kept_words A' \<and>
     (\<forall>c n. stock A c (n + (if c = b then 1 else 0)) \<longrightarrow> stock A' c n)"

lemma grown_kept: "grown A A' b \<Longrightarrow> kept A x \<Longrightarrow> kept A' x"
  unfolding grown_def kept_def by blast

lemma grown_same: "grown A A' b \<Longrightarrow> same_kept A' m m' \<Longrightarrow> same_kept A m m'"
  using grown_kept unfolding same_kept_def by blast

lemma grown_stock:
  assumes "grown A A' b" and "stock A c k" and "n + (if c = b then 1 else 0) \<le> k"
  shows "stock A' c n"
  using stock_mono [OF assms(2,3)] assms(1) unfolding grown_def by blast

lemma stock_remove:
  assumes "stock A c (Suc n)" and "free_cells A c - {q} \<subseteq> free_cells A' c"
  shows "stock A' c n"
proof -
  obtain cs where cs: "distinct cs" "length cs = Suc n" "set cs \<subseteq> free_cells A c" using assms(1) unfolding stock_def by blast
  let ?ds = "filter (\<lambda>x. x \<noteq> q) cs"
  have "card (set cs) \<le> Suc (card (set cs - {q}))" by (cases "q \<in> set cs") (simp_all add: card_Suc_Diff1)
  moreover have "set ?ds = set cs - {q}" by auto
  moreover have "card (set cs) = Suc n" "card (set ?ds) = length ?ds"
    using cs(1,2) distinct_card [OF cs(1)] distinct_card [of ?ds] by simp_all
  ultimately have "n \<le> length ?ds" by simp
  moreover have "stock A' c (length ?ds)"
    unfolding stock_def using cs assms(2) by (intro exI [of _ ?ds]) auto
  ultimately show ?thesis by (rule stock_mono [rotated])
qed

lemma pop_free_cells:
  assumes "A p = Some (Small b (q # fs))" and "x \<in> free_cells A c" and "c \<noteq> b \<or> x \<noteq> q"
  shows "x \<in> free_cells (A(p \<mapsto> Small b fs)) c"
proof -
  obtain p' gs where x: "A p' = Some (Small c gs)" "x \<in> set gs" using assms(2) unfolding free_cells_def by blast
  show ?thesis
    unfolding free_cells_def using assms(1,3) x by (cases "p' = p") (auto intro!: exI [of _ p'])
qed

lemma pop_stock:
  assumes "A p = Some (Small b (q # fs))" and "stock A c (n + (if c = b then 1 else 0))"
  shows "stock (A(p \<mapsto> Small b fs)) c n"
proof (cases "c = b")
  case True
  then show ?thesis using assms pop_free_cells [of A p b q fs, OF assms(1)] by (intro stock_remove [of A c n q]) auto
next
  case False
  then have "free_cells A c \<subseteq> free_cells (A(p \<mapsto> Small b fs)) c" using pop_free_cells [of A p b q fs, OF assms(1)] by blast
  then show ?thesis using assms(2) False unfolding stock_def by auto
qed

lemma take_cell:
  assumes "heap s A" and ready: "ready A b" and sz: "sz \<noteq> 0" "unat (klmalloc_bin_size sz) = b" and b: "b < 10"
  shows "\<exists>p q fs s'. A p = Some (Small b (q # fs)) \<and> malloc sz s = ret (q, s') \<and>
    heap s' (A(p \<mapsto> Small b fs)) \<and> heap_only s s' \<and> same_words {p, p + 4} (mem s) (mem s')"
proof -
  obtain ns lv busy where ok: "heap_ok s A ns lv busy" using assms(1) unfolding heap_def by blast
  note parts = heap_okD [OF ok]
  obtain p0 fs0 where "fs0 \<noteq> []" "A p0 = Some (Small b fs0)" using ready unfolding ready_def by blast
  then have "p0 \<in> set (busy b)" using bins_okD(4) [OF parts(5) b] by blast
  then obtain p ps where first: "busy b = p # ps" by (cases "busy b") auto
  then have "p \<in> set (busy b)" by simp
  then obtain gs where "gs \<noteq> []" "A p = Some (Small b gs)" using bins_okD(4) [OF parts(5) b] by blast
  then obtain q fs where A: "A p = Some (Small b (q # fs))" by (cases gs) auto
  obtain s' busy' where s': "klmalloc_small b s = ret (q, s')" "heap_ok s' (A(p \<mapsto> Small b fs)) ns lv busy'"
    "same_words {p, p + 4} (mem s) (mem s')" using pop_small [OF ok b first A] by blast
  have "klmalloc_list_head b s = p" using bins_okD(2) [OF parts(5) b] first by (simp add: klmalloc_list_head_def)
  moreover have "p \<noteq> 0" using chunk_okD(1) [OF chunks_okD(1) [OF parts(1) A]] .
  ultimately have "heap_only s s'" using pop_only [OF _ s'(1)] by simp
  moreover have "klmalloc_bin_size sz < BIG_BIN"
    using sz(2) b by (simp add: word_less_nat_alt BIG_BIN_def NUM_BINS_def)
  then have "malloc sz s = ret (q, s')" using s'(1) sz by (simp add: malloc_def klmalloc_def)
  ultimately show ?thesis using A s'(3) heapI [OF s'(2)] by blast
qed

lemma return_cell:
  assumes "heap s A" and A: "A p = Some (Small b fs)" and q: "q \<in> cells p b" "q \<notin> set fs"
  shows "\<exists>s'. free q s = ret s' \<and> heap s' (A(p \<mapsto> Small b (q # fs))) \<and> heap_only s s' \<and>
    same_words {p, p + 4, q} (mem s) (mem s')"
proof -
  obtain ns lv busy where ok: "heap_ok s A ns lv busy" using assms(1) unfolding heap_def by blast
  have chunk: "chunk_ok (mem s) p (Small b fs)" using chunks_okD(1) [OF heap_okD(1) [OF ok] A] .
  obtain s' busy' where s': "klfree q s = ret s'" "heap_ok s' (A(p \<mapsto> Small b (q # fs))) ns lv busy'"
    "same_words {p, p + 4, q} (mem s) (mem s')" using push_small [OF ok A q] by blast
  have "hdr_size (mem s) (block_header q) \<le> NUM_BINS"
  proof -
    have "hdr_size (mem s) (block_header q) = of_nat b" "b < 10" using cell_header [OF chunk q(1)] chunk by simp_all
    then show ?thesis by (simp add: word_le_nat_alt unat_of_nat_small NUM_BINS_def)
  qed
  then have "heap_only s s'" using s'(1) by (rule push_only)
  then show ?thesis using s'(1,3) heapI [OF s'(2)] unfolding free_def by blast
qed

section \<open>Free cells are not kept\<close>

lemma free_cell_blocks:
  assumes ok: "chunks_ok s A" "chunks_apart A" and A: "A p = Some (Small b (q # fs))"
    and r: "(r, k) \<in> blocks A"
  shows "words q (2 ^ (b + 2)) \<inter> words r k = {}"
proof -
  have chunk: "chunk_ok (mem s) p (Small b (q # fs))" using chunks_okD(1) [OF ok(1) A] .
  then have q: "b < 10" "unat p + 0x1000 \<le> 2 ^ 32" "q \<in> cells p b" "al4 p" using chunk_okD(4) [OF chunk] by simp_all
  have inside: "words q (2 ^ (b + 2)) \<subseteq> words p 0x1000" using cell_words [OF q(1-3)] by blast
  obtain p' c where c: "A p' = Some c" "(r, k) \<in> chunk_blocks p' c" using r unfolding in_blocks by blast
  show ?thesis
  proof (cases "p' = p")
    case True
    then have "r \<in> cells p b" "r \<noteq> q" "k = 2 ^ (b + 2)" using c A by auto
    then show ?thesis using cells_apart [OF q(1,2,3)] by blast
  next
    case False
    then have "words p (chunk_len (Small b (q # fs))) \<inter> words p' (chunk_len c) = {}"
      using chunks_apartD [OF ok(2) A c(1)] by blast
    moreover have "words r k \<subseteq> words p' (chunk_len c)" using chunk_block_words(1) [OF chunks_okD(1) [OF ok(1) c(1)] c(2)] .
    ultimately show ?thesis using inside by auto
  qed
qed

lemma free_cell_kept:
  assumes "heap s A" and A: "A p = Some (Small b (q # fs))"
  shows "({p, p + 4} \<union> words q (2 ^ (b + 2))) \<inter> kept_words A = {}"
proof -
  obtain ns lv busy where ok: "heap_ok s A ns lv busy" using assms(1) unfolding heap_def by blast
  note parts = heap_okD [OF ok]
  have chunk: "chunk_ok (mem s) p (Small b (q # fs))" using chunks_okD(1) [OF parts(1) A] .
  then have q: "b < 10" "unat p + 0x1000 \<le> 2 ^ 32" "q \<in> cells p b" by simp_all
  have inside: "words q (2 ^ (b + 2)) \<subseteq> words p 0x1000" using cell_words [OF q] by blast
  have hdr: "p \<in> words p 0x1000" "p + 4 \<in> words p 0x1000" using header_fields_in_chunk [OF chunk] by simp_all
  have "w \<notin> {p, p + 4} \<union> words q (2 ^ (b + 2))" if "w \<in> kept_words A" for w
  proof (cases "w \<in> block_words A")
    case True
    then obtain r k where "(r, k) \<in> blocks A" "w \<in> words r k" unfolding block_words_def by blast
    then have "w \<notin> words q (2 ^ (b + 2))" using free_cell_blocks [OF parts(1,2) A] by blast
    then show ?thesis using block_word_outside(1,2) [OF parts(1,2) True A] by simp
  next
    case False
    then have "w \<notin> words p 0x1000" using that A unfolding kept_words_def by fastforce
    then show ?thesis using hdr inside by blast
  qed
  then show ?thesis by blast
qed

lemma in_range_word:
  assumes "in_range q l x" and "al4 q" and "l mod 4 = 0"
  shows "word_of x \<in> words q l"
proof (rule ccontr)
  assume "word_of x \<notin> words q l"
  then have "\<not> in_range q l (word_of x + of_nat (unat x mod 4))"
    by (rule outside_block_word [OF word_of assms(2)]) simp
  then show False using assms(1) by (simp add: word_of_offset)
qed

lemma block_bytes_kept:
  assumes "heap s A" and "(q, 2 ^ (b + 2)) \<in> blocks A" and "in_range q (2 ^ (b + 2)) x"
  shows "kept A x"
proof -
  have "word_of x \<in> words q (2 ^ (b + 2))"
    using in_range_word [OF assms(3) block_valid(2) [OF assms(1,2)]] by (simp add: power_add)
  then show ?thesis using assms(2) word_of [of x] unfolding kept_def kept_words_def block_words_def by blast
qed

lemma kept_words_pop:
  assumes "heap s A" and A: "A p = Some (Small b (q # fs))"
  shows "kept_words A \<subseteq> kept_words (A(p \<mapsto> Small b fs))"
    and "blocks (A(p \<mapsto> Small b fs)) = insert (q, 2 ^ (b + 2)) (blocks A)"
proof -
  obtain ns lv busy where ok: "heap_ok s A ns lv busy" using assms(1) unfolding heap_def by blast
  note parts = heap_okD [OF ok]
  have chunk: "chunk_ok (mem s) p (Small b (q # fs))" using chunks_okD(1) [OF parts(1) A] .
  have sub: "chunk_blocks p (Small b (q # fs)) \<subseteq> blocks A" using A unfolding blocks_def by blast
  then show blocks: "blocks (A(p \<mapsto> Small b fs)) = insert (q, 2 ^ (b + 2)) (blocks A)"
    unfolding blocks_change [OF parts(1,2) A] pop_small_blocks(1) [OF chunk] by blast
  show "kept_words A \<subseteq> kept_words (A(p \<mapsto> Small b fs))"
  proof
    fix w assume w: "w \<in> kept_words A"
    have "w \<notin> words p' (chunk_len c)" if "(A(p \<mapsto> Small b fs)) p' = Some c" "w \<notin> block_words A" for p' c
    proof (cases "p' = p")
      case True
      then show ?thesis using w that A unfolding kept_words_def by fastforce
    next
      case False
      then show ?thesis using w that unfolding kept_words_def by auto
    qed
    moreover have "block_words A \<subseteq> block_words (A(p \<mapsto> Small b fs))" unfolding block_words_def blocks by blast
    ultimately show "w \<in> kept_words (A(p \<mapsto> Small b fs))" using w unfolding kept_words_def by blast
  qed
qed

section \<open>Borrowing\<close>

text \<open>A temporary block: whatever is written into it, after it is freed the abstract heap and all kept
  bytes are as before.\<close>

lemma borrow:
  assumes "heap s A" and "ready A b" and "sz \<noteq> 0" "unat (klmalloc_bin_size sz) = b" and b: "b < 10"
  shows "\<exists>q s1. malloc sz s = ret (q, s1) \<and> heap_only s s1 \<and> same_kept A (mem s) (mem s1) \<and>
    (\<forall>x. in_range q (2 ^ (b + 2)) x \<longrightarrow> \<not> kept A x) \<and>
    (\<forall>m. (\<forall>x. \<not> in_range q (2 ^ (b + 2)) x \<longrightarrow> m x = mem s1 x) \<longrightarrow>
       (\<exists>s2. free q (s1\<lparr>mem := m\<rparr>) = ret s2 \<and> heap s2 A \<and> heap_only s s2 \<and> same_kept A (mem s) (mem s2)))"
proof -
  obtain p q fs s1 where t: "A p = Some (Small b (q # fs))" "malloc sz s = ret (q, s1)" "heap s1 (A(p \<mapsto> Small b fs))"
    "heap_only s s1" "same_words {p, p + 4} (mem s) (mem s1)" using take_cell [OF assms] by blast
  define A1 where "A1 = A(p \<mapsto> Small b fs)"
  note pop = kept_words_pop [OF assms(1) t(1), folded A1_def] and h1 = t(3) [folded A1_def]
  note unkept = free_cell_kept [OF assms(1) t(1)]
  have A1: "A1 p = Some (Small b fs)" "A1(p \<mapsto> Small b (q # fs)) = A" using t(1) by (auto simp: A1_def)
  have q: "(q, 2 ^ (b + 2)) \<in> blocks A1" unfolding pop(2) by blast
  obtain ns lv busy where ok: "heap_ok s A ns lv busy" using assms(1) unfolding heap_def by blast
  have chunk: "chunk_ok (mem s) p (Small b (q # fs))" using chunks_okD(1) [OF heap_okD(1) [OF ok] t(1)] .
  have align: "al4 q" using block_valid(2) [OF h1 q] .
  have first: "same_kept A (mem s) (mem s1)" using t(5) by (rule same_kept_words) (use unkept in blast)
  have cell: "\<not> kept A x" if "in_range q (2 ^ (b + 2)) x" for x
    using in_range_word [OF that align] unkept by (auto simp: kept_def power_add)
  have given: "\<exists>s2. free q (s1\<lparr>mem := m\<rparr>) = ret s2 \<and> heap s2 A \<and> heap_only s s2 \<and> same_kept A (mem s) (mem s2)"
    if m: "\<forall>x. \<not> in_range q (2 ^ (b + 2)) x \<longrightarrow> m x = mem s1 x" for m
  proof -
    have "heap (s1\<lparr>mem := m\<rparr>) A1" by (rule heap_write_block(1) [OF h1 q]) (use m in blast)
    then obtain s2 where s2: "free q (s1\<lparr>mem := m\<rparr>) = ret s2" "heap s2 A" "heap_only (s1\<lparr>mem := m\<rparr>) s2"
      "same_words {p, p + 4, q} m (mem s2)"
      using return_cell [where A = A1 and p = p and b = b and fs = fs and q = q and s = "s1\<lparr>mem := m\<rparr>"] chunk A1(1)
      unfolding A1(2) by auto
    have "heap_only s s2" using heap_only_trans [OF heap_only_trans [OF t(4) heap_only_mem] s2(3)] .
    moreover have "same_kept A (mem s1) m" unfolding same_kept_def using m cell by blast
    moreover have "q \<in> words q (2 ^ (b + 2))" using block_valid(3) [OF h1 q] .
    then have "{p, p + 4, q} \<inter> kept_words A = {}" using unkept by blast
    with s2(4) have "same_kept A m (mem s2)" by (rule same_kept_words)
    ultimately have "same_kept A (mem s) (mem s2)" using first same_kept_trans by blast
    then show ?thesis using s2(1,2) \<open>heap_only s s2\<close> by blast
  qed
  then show ?thesis using t(2,4) first cell given by blast
qed

end
