(* ===== verification/Lookup.thy ===== *)
theory Lookup
  imports Ramdisk Borrow
begin

text \<open>
  Looking a name up in a directory of the ram disk: the walk over the entries with its temporary
  blocks finds the first entry of that name, and the node made for it describes the file.
\<close>

section \<open>Names\<close>

text \<open>The name of an entry as a string, which ends at a zero byte if the name contains one.\<close>

definition dent_name :: "mem \<Rightarrow> u32 \<Rightarrow> u8 list" where
  "dent_name m d = takeWhile (\<lambda>c. c \<noteq> 0) (map (\<lambda>k. m (d + D_NAME + of_nat k)) [0..<unat (d_name_len m d)])"

lemma cstr_takeWhile:
  assumes "\<And>k. k < length xs \<Longrightarrow> m (p + of_nat k) = xs ! k" and "m (p + of_nat (length xs)) = 0"
  shows "cstr m p (takeWhile (\<lambda>c. c \<noteq> 0) xs)"
  using assms
proof (induction xs arbitrary: p)
  case (Cons x xs)
  have "m p = x" using Cons.prems(1) [of 0] by simp
  moreover have "cstr m (p + 1) (takeWhile (\<lambda>c. c \<noteq> 0) xs)"
    using Cons.prems(1) [of "Suc _"] Cons.prems(2) by (intro Cons.IH) (simp_all add: algebra_simps)
  ultimately show ?case by simp
qed simp

lemma copied_name:
  fixes m :: mem and q d :: u32
  defines "n \<equiv> d_name_len m d"
  defines "m1 \<equiv> memcpy m q (d + D_NAME) (ucast n)"
  defines "m2 \<equiv> m1(q + ucast (d_name_len m1 d) := 0)"
  assumes apart: "\<forall>j < 8 + unat n. \<not> in_range q l (d + of_nat j)" and l: "unat n < l" "l < 2 ^ 32"
  shows "cstr m2 q (dent_name m d)" and "\<not> in_range q l x \<Longrightarrow> m2 x = m x"
proof -
  let ?f = "\<lambda>j. m (d + D_NAME + of_nat j)" and ?k = "unat n"
  have "memcpy (filled m ?f q 0) (q + of_nat 0) (d + D_NAME) (of_nat ?k) = filled m ?f q (0 + ?k)"
  proof (rule memcpy_extends [where D = "{x. \<not> in_range q l x}" and n = l])
    have "\<not> in_range q l (d + D_NAME + of_nat j)" if "j < ?k" for j
      using apart [rule_format, of "8 + j"] that by (simp add: D_NAME_def add.assoc)
    then show "within {x. \<not> in_range q l x} (d + D_NAME) ?k" by (simp add: within_def)
    show "0 + ?k \<le> l" "l < 2 ^ 32" using l by simp_all
    show "m (d + D_NAME + of_nat j) = m (d + D_NAME + of_nat (0 + j))" for j by simp
  qed simp
  then have m1: "m1 = filled m ?f q ?k" unfolding m1_def by simp
  have "\<not> in_range q l (d + of_nat 6)" using apart [rule_format, of 6] by simp
  then have "\<not> in_range q ?k (d + 6)" using l(1) by (auto simp: in_range_def)
  then have "d_name_len m1 d = n" by (simp add: m1 filled_def d_name_len_def n_def)
  then have m2: "m2 = (filled m ?f q ?k)(q + ucast n := 0)" unfolding m2_def using m1 by metis
  have at: "m2 (q + of_nat j) = (if j = ?k then 0 else ?f j)" if "j \<le> ?k" for j
  proof -
    have "unat (of_nat j :: u32) = j" using that l by (intro unat_of_nat_small) linarith
    moreover have "q + of_nat j = q + of_nat ?k \<longleftrightarrow> j = ?k"
      using of_nat_inject_small [of j ?k] that l by auto
    ultimately show ?thesis using that by (simp add: m2 filled_def in_range_def)
  qed
  show "cstr m2 q (dent_name m d)"
    unfolding dent_name_def n_def [symmetric] by (rule cstr_takeWhile) (use at [of ?k] in \<open>simp_all add: at\<close>)
  assume x: "\<not> in_range q l x"
  moreover have "x \<noteq> q + ucast n" using x l by (auto simp: in_range_def unsigned_ucast_eq take_bit_nat_eq_self)
  moreover have "\<not> in_range q ?k x" using x l by (auto simp: in_range_def)
  ultimately show "m2 x = m x" by (simp add: m2 filled_def)
qed

lemma name_bin:
  assumes "sz = ucast (n :: u8) + (1 :: u32)"
  shows "sz \<noteq> 0" and "unat (klmalloc_bin_size sz) \<le> 6" and "unat n < 2 ^ (unat (klmalloc_bin_size sz) + 2)"
proof -
  have n: "unat n < 256" using unsigned_less [of n] by simp
  then have "unat (ucast n + 1 :: u32) = unat n + 1"
    using unat_add_small [of "ucast n :: u32" 1] by (simp add: unsigned_ucast_eq take_bit_nat_eq_self)
  then have sz: "unat sz = unat n + 1" unfolding assms .
  then show nz: "sz \<noteq> 0" by auto
  define b where "b = unat (klmalloc_bin_size sz)"
  have "sz \<le> 2048" using sz n by (simp add: word_le_nat_alt)
  then have fits: "unat sz \<le> 2 ^ (b + 2)" "b = 0 \<or> 2 ^ (b + 1) < unat sz" using bin_size_fits [OF nz] by (simp_all add: b_def)
  show "unat n < 2 ^ (b + 2)" using fits(1) sz by simp
  show "b \<le> 6"
  proof (rule ccontr)
    assume "\<not> b \<le> 6"
    then have "(2::nat) ^ 8 \<le> 2 ^ (b + 1)" by (intro power_increasing) simp_all
    then show False using fits(2) \<open>\<not> b \<le> 6\<close> sz n by auto
  qed
qed

section \<open>The walk\<close>

text \<open>The memory the walk reads is kept: the entries, the size of the directory and the name.\<close>

definition walk_kept :: "(u32 \<Rightarrow> chunk option) \<Rightarrow> mem \<Rightarrow> u32 \<Rightarrow> u32 list \<Rightarrow> u32 \<Rightarrow> u8 list \<Rightarrow> bool" where
  "walk_kept A m inode ds name t \<longleftrightarrow>
     (\<forall>d \<in> set ds. \<forall>j < 8 + unat (d_name_len m d). kept A (d + of_nat j)) \<and>
     (\<forall>j < 4. kept A (inode + 4 + of_nat j)) \<and> (\<forall>j \<le> length t. kept A (name + of_nat j)) \<and> cstr m name t"

lemma same_kept_ld32:
  assumes "same_kept A m m'" and "\<And>j. j < 4 \<Longrightarrow> kept A (p + of_nat j)"
  shows "ld32 m' p = ld32 m p"
  by (rule ld32_cong) (use assms in \<open>metis in_range_obtain same_kept_def\<close>)

lemma same_kept_ld16:
  assumes "same_kept A m m'" and "kept A p" and "kept A (p + 1)"
  shows "ld16 m' p = ld16 m p"
  using assms by (simp add: ld16_def same_kept_def)

lemma same_kept_cstr:
  assumes "same_kept A m m'" and "\<And>j. j \<le> length t \<Longrightarrow> kept A (p + of_nat j)"
  shows "cstr m' p t = cstr m p t"
  by (rule cstr_cong) (use assms in \<open>simp add: same_kept_def\<close>)

lemma entry_bytes:
  assumes byte: "\<And>j. j < 8 + unat (d_name_len m d) \<Longrightarrow> m' (d + of_nat j) = m (d + of_nat j)"
  shows "d_name_len m' d = d_name_len m d" and "d_rec_len m' d = d_rec_len m d" and "d_inode m' d = d_inode m d"
    and "dent_name m' d = dent_name m d"
proof -
  show len: "d_name_len m' d = d_name_len m d" using byte [of 6] by (simp add: d_name_len_def)
  show "d_rec_len m' d = d_rec_len m d" using byte [of 4] byte [of 5] by (simp add: d_rec_len_def ld16_def add.assoc)
  show "d_inode m' d = d_inode m d"
    using byte [of 0] byte [of 1] byte [of 2] byte [of 3] by (simp add: d_inode_def ld32_def)
  have "m' (d + D_NAME + of_nat j) = m (d + D_NAME + of_nat j)" if "j < unat (d_name_len m d)" for j
    using byte [of "8 + j"] that by (simp add: D_NAME_def add.assoc)
  then show "dent_name m' d = dent_name m d"
    unfolding dent_name_def len by (intro arg_cong [where f = "takeWhile _"]) simp
qed

lemma entry_same:
  assumes "same_kept A m m'" and "\<forall>j < 8 + unat (d_name_len m d). kept A (d + of_nat j)"
  shows "d_name_len m' d = d_name_len m d" and "d_rec_len m' d = d_rec_len m d" and "d_inode m' d = d_inode m d"
    and "dent_name m' d = dent_name m d"
  by (rule entry_bytes; use assms in \<open>simp add: same_kept_def\<close>)+

text \<open>The bin of the temporary copy of an entry's name.\<close>

definition entry_bin :: "mem \<Rightarrow> u32 \<Rightarrow> nat" where
  "entry_bin m d = unat (klmalloc_bin_size (ucast (d_name_len m d) + 1))"

definition found :: "u8 list \<Rightarrow> mem \<Rightarrow> u32 list \<Rightarrow> u32" where
  "found t m ds = (case find (\<lambda>d. dent_name m d = t) ds of Some d \<Rightarrow> d | None \<Rightarrow> 0)"

lemma finddir_loop_found:
  fixes s :: "'a initrd_scheme"
  assumes "heap s A" and "\<forall>d \<in> set ds. ready A (entry_bin m d)" and "same_kept A m (mem s)"
    and "dir_chain m (i_size m inode) block off ds" and "walk_kept A m inode ds name t"
  shows "\<exists>s'. finddir_loop inode name block off s = ret (found t m ds, s') \<and> heap s' A \<and> heap_only s s' \<and>
    same_kept A m (mem s')"
  using assms
proof (induction ds arbitrary: off s)
  case Nil
  have "i_size (mem s) inode = i_size m inode"
    using Nil.prems(5) unfolding i_size_def walk_kept_def by (intro same_kept_ld32 [OF Nil.prems(3)]) blast
  then have "finddir_loop inode name block off s = ret (0, s)"
    using Nil.prems(4) by (subst finddir_loop.simps) simp
  then show ?case using Nil.prems by (simp add: found_def)
next
  case (Cons d ds)
  note kp = Cons.prems(5) [unfolded walk_kept_def]
  have size: "i_size (mem s) inode = i_size m inode"
    unfolding i_size_def using kp by (intro same_kept_ld32 [OF Cons.prems(3)]) blast
  have chain: "off < i_size m inode" "d = block + off" "dir_chain m (i_size m inode) block (off + ucast (d_rec_len m d)) ds"
    using Cons.prems(4) unfolding dir_chain.simps by blast+
  have dk: "\<forall>j < 8 + unat (d_name_len m d). kept A (d + of_nat j)" using kp by simp
  note e = entry_same [OF Cons.prems(3) dk]
  define sz where "sz = ucast (d_name_len (mem s) d) + (1 :: u32)"
  define b where "b = unat (klmalloc_bin_size sz)"
  have rd: "ready A b" using Cons.prems(2) unfolding b_def sz_def e(1) entry_bin_def by simp
  note bin = name_bin [OF sz_def, folded b_def]
  obtain q s1 where q: "malloc sz s = ret (q, s1)" "heap_only s s1" "same_kept A (mem s) (mem s1)"
    "\<And>x. in_range q (2 ^ (b + 2)) x \<Longrightarrow> \<not> kept A x"
    "\<And>m. \<forall>x. \<not> in_range q (2 ^ (b + 2)) x \<longrightarrow> m x = mem s1 x \<Longrightarrow>
       \<exists>s2. free q (s1\<lparr>mem := m\<rparr>) = ret s2 \<and> heap s2 A \<and> heap_only s s2 \<and> same_kept A (mem s) (mem s2)"
    using borrow [OF Cons.prems(1) rd bin(1) b_def [symmetric]] bin(2) by fastforce
  have same1: "same_kept A m (mem s1)" using Cons.prems(3) q(3) by (rule same_kept_trans)
  note e1 = entry_same [OF same1 dk]
  define m1 where "m1 = memcpy (mem s1) q (d + D_NAME) (ucast (d_name_len (mem s1) d))"
  define m2 where "m2 = m1(q + ucast (d_name_len m1 d) := 0)"
  have "(2::nat) ^ (b + 2) \<le> 2 ^ 8" using bin(2) by (intro power_increasing) simp_all
  then have l: "unat (d_name_len (mem s1) d) < 2 ^ (b + 2)" "(2::nat) ^ (b + 2) < 2 ^ 32"
    using bin(3) unfolding e(1) e1(1) by simp_all
  have apart: "\<forall>j < 8 + unat (d_name_len (mem s1) d). \<not> in_range q (2 ^ (b + 2)) (d + of_nat j)"
    using q(4) dk unfolding e1(1) by blast
  note copy = copied_name [OF apart l, folded m1_def, folded m2_def]
  have "same_kept A (mem s1) m2" unfolding same_kept_def using copy(2) q(4) by blast
  with same1 have "same_kept A m m2" by (rule same_kept_trans)
  then have "cstr m2 name t" using same_kept_cstr [of A m m2 t name] kp by blast
  note cmp = strcmp_cstr [OF copy(1) this]
  have eq: "strcmp_spec (dent_name (mem s1) d) t = 0 \<longleftrightarrow> dent_name m d = t"
    using cstr_no_NUL [OF copy(1)] cstr_no_NUL [OF \<open>cstr m2 name t\<close>] by (simp add: e1(4))
  obtain s2 where s2: "free q (s1\<lparr>mem := m2\<rparr>) = ret s2" "heap s2 A" "heap_only s s2" "same_kept A (mem s) (mem s2)"
    using q(5) [of m2] copy(2) by blast
  have same2: "same_kept A m (mem s2)" using Cons.prems(3) s2(4) by (rule same_kept_trans)
  note e2 = entry_same [OF same2 dk]
  have step: "finddir_loop inode name block off s = (if dent_name m d = t then ret (d, s2)
      else finddir_loop inode name block (off + ucast (d_rec_len m d)) s2)"
    using chain(1) q(1) s2(1) cmp eq
    by (subst finddir_loop.simps) (simp add: size Let_def lift_run_def e2(2) flip: chain(2) sz_def m1_def m2_def)
  show ?case
  proof (cases "dent_name m d = t")
    case True
    then show ?thesis using step s2 same2 by (simp add: found_def)
  next
    case False
    have "walk_kept A m inode ds name t" using Cons.prems(5) unfolding walk_kept_def by simp
    from Cons.IH [OF s2(2) _ same2 chain(3) this] show ?thesis
      using step False heap_only_trans [OF s2(3)] Cons.prems(2) by (auto simp: found_def)
  qed
qed

section \<open>The node of a file\<close>

text \<open>The heap with a block of 512 bytes more.\<close>

lemma keep_cell:
  assumes "heap s A" and "ready A b" and "sz \<noteq> 0" "unat (klmalloc_bin_size sz) = b" and "b < 10"
  shows "\<exists>q s1 A1. malloc sz s = ret (q, s1) \<and> heap s1 A1 \<and> heap_only s s1 \<and> same_kept A (mem s) (mem s1) \<and>
    blocks A1 = insert (q, 2 ^ (b + 2)) (blocks A) \<and> grown A A1 b \<and>
    al4 q \<and> q \<noteq> 0 \<and> (\<forall>x. in_range q (2 ^ (b + 2)) x \<longrightarrow> \<not> kept A x)"
proof -
  obtain p q fs s1 where t: "A p = Some (Small b (q # fs))" "malloc sz s = ret (q, s1)" "heap s1 (A(p \<mapsto> Small b fs))"
    "heap_only s s1" "same_words {p, p + 4} (mem s) (mem s1)" using take_cell [OF assms] by blast
  note pop = kept_words_pop [OF assms(1) t(1)] and unkept = free_cell_kept [OF assms(1) t(1)]
  have q: "(q, 2 ^ (b + 2)) \<in> blocks (A(p \<mapsto> Small b fs))" unfolding pop(2) by blast
  note valid = block_valid [OF t(3) q]
  have "\<not> kept A x" if "in_range q (2 ^ (b + 2)) x" for x
    using in_range_word [OF that valid(2)] unkept by (auto simp: kept_def power_add)
  moreover have "same_kept A (mem s) (mem s1)" using t(5) by (rule same_kept_words) (use unkept in blast)
  moreover have "grown A (A(p \<mapsto> Small b fs)) b"
    unfolding grown_def using pop(1) pop_stock [of A p b q fs, OF t(1)] by blast
  ultimately show ?thesis using t(2,3,4) pop valid by blast
qed

lemma bin_of_node: "unat (klmalloc_bin_size FS_NODE_SIZE) = 7"
  using bin_size_value [of 8 FS_NODE_SIZE] by (simp add: FS_NODE_SIZE_def)

text \<open>What a node says about the entry \<open>d\<close> and the inode \<open>i\<close> it was made from.\<close>

definition node_describes :: "(driver_fun \<Rightarrow> u32) \<Rightarrow> mem \<Rightarrow> u32 \<Rightarrow> u32 \<Rightarrow> u32 \<Rightarrow> mem \<Rightarrow> bool" where
  "node_describes addr m d i node m' \<longleftrightarrow>
     cstr m' node (dent_name m d) \<and> ld32 m' (node + FS_INODE) = d_inode m d \<and>
     ld32 m' (node + FS_LENGTH) = i_size m i \<and> ld32 m' (node + FS_UID) = ucast (i_uid m i) \<and>
     ld32 m' (node + FS_MASK) = ucast (i_mode m i AND 0xFFF) \<and>
     ld32 m' (node + FS_FLAGS) = fold (step_flags (i_mode m i))
       [(EXT2_S_IFREG, FS_FILE), (EXT2_S_IFDIR, FS_DIRECTORY), (EXT2_S_IFBLK, FS_BLOCKDEVICE),
        (EXT2_S_IFCHR, FS_CHARDEVICE), (EXT2_S_IFIFO, FS_PIPE), (EXT2_S_IFLNK, FS_SYMLINK)] 0 \<and>
     ld32 m' (node + FS_READ) = addr read_initrd_fn \<and> ld32 m' (node + FS_OPEN) = addr open_initrd_fn \<and>
     ld32 m' (node + FS_READDIR) = addr readdir_initrd_fn \<and> ld32 m' (node + FS_FINDDIR) = addr finddir_initrd_fn"

text \<open>The builders of a node write behind its name, in the 56 bytes from offset 256 on.\<close>

definition tail_only :: "u32 \<Rightarrow> mem \<Rightarrow> mem \<Rightarrow> bool" where
  "tail_only node m m' \<longleftrightarrow> (\<forall>x. \<not> in_range (node + 256) 56 x \<longrightarrow> m' x = m x)"

lemma tail_only_trans: "tail_only node m m' \<Longrightarrow> tail_only node m' m'' \<Longrightarrow> tail_only node m m''"
  by (simp add: tail_only_def)

lemma tail_only_st32:
  assumes "k \<le> 52" and "a = 256 + of_nat k"
  shows "tail_only node m (st32 m (node + a) v)"
  unfolding tail_only_def
proof (intro allI impI)
  fix x assume x: "\<not> in_range (node + 256) 56 x"
  have "\<not> in_range (node + a) 4 x"
  proof
    assume "in_range (node + a) 4 x"
    then obtain j where "j < 4" "x = node + a + of_nat j" by (rule in_range_obtain)
    then have "x = node + 256 + of_nat (k + j)" "k + j < 56" using assms by (simp_all add: algebra_simps)
    then show False using x by (simp del: of_nat_add)
  qed
  then show "st32 m (node + a) v x = m x" by (rule st32_outside)
qed

lemma node_fields_tail:
  "tail_only node m (st32 m (node + FS_MASK) v)" "tail_only node m (st32 m (node + FS_UID) v)"
  "tail_only node m (st32 m (node + FS_GID) v)" "tail_only node m (st32 m (node + FS_FLAGS) v)"
  "tail_only node m (st32 m (node + FS_INODE) v)" "tail_only node m (st32 m (node + FS_LENGTH) v)"
  "tail_only node m (st32 m (node + FS_READ) v)" "tail_only node m (st32 m (node + FS_WRITE) v)"
  "tail_only node m (st32 m (node + FS_OPEN) v)" "tail_only node m (st32 m (node + FS_CLOSE) v)"
  "tail_only node m (st32 m (node + FS_READDIR) v)" "tail_only node m (st32 m (node + FS_FINDDIR) v)"
  using tail_only_st32 [of 0] tail_only_st32 [of 4] tail_only_st32 [of 8] tail_only_st32 [of 12]
    tail_only_st32 [of 16] tail_only_st32 [of 20] tail_only_st32 [of 28] tail_only_st32 [of 32]
    tail_only_st32 [of 36] tail_only_st32 [of 40] tail_only_st32 [of 44] tail_only_st32 [of 48]
  by (simp_all add: FS_MASK_def FS_UID_def FS_GID_def FS_FLAGS_def FS_INODE_def FS_LENGTH_def FS_READ_def
      FS_WRITE_def FS_OPEN_def FS_CLOSE_def FS_READDIR_def FS_FINDDIR_def)

text \<open>The fields are words of the node, no two of them the same.\<close>

lemma node_field:
  assumes "al4 node" and "al4 a" "al4 b"
  shows "ld32 (st32 m (node + a) v) (node + b) = (if b = a then v else ld32 m (node + b))"
  using assms by (simp add: ld32_st32_aligned al4_add)

lemma fields_aligned:
  "al4 FS_MASK" "al4 FS_UID" "al4 FS_GID" "al4 FS_FLAGS" "al4 FS_INODE" "al4 FS_LENGTH" "al4 FS_READ" "al4 FS_WRITE"
  "al4 FS_OPEN" "al4 FS_CLOSE" "al4 FS_READDIR" "al4 FS_FINDDIR"
  by (simp_all add: al4_def FS_MASK_def FS_UID_def FS_GID_def FS_FLAGS_def FS_INODE_def FS_LENGTH_def FS_READ_def
      FS_WRITE_def FS_OPEN_def FS_CLOSE_def FS_READDIR_def FS_FINDDIR_def)

lemmas field_offsets =FS_MASK_def FS_UID_def FS_GID_def FS_FLAGS_def FS_INODE_def FS_LENGTH_def FS_READ_def
  FS_WRITE_def FS_OPEN_def FS_CLOSE_def FS_READDIR_def FS_FINDDIR_def

lemma fields_differ:
  "distinct [FS_MASK, FS_UID, FS_GID, FS_FLAGS, FS_INODE, FS_LENGTH, FS_READ, FS_WRITE, FS_OPEN, FS_CLOSE, FS_READDIR, FS_FINDDIR]"
  "distinct (rev [FS_MASK, FS_UID, FS_GID, FS_FLAGS, FS_INODE, FS_LENGTH, FS_READ, FS_WRITE, FS_OPEN, FS_CLOSE, FS_READDIR, FS_FINDDIR])"
  by (simp_all add: field_offsets)

lemmas field_distinct = fields_differ [simplified]

text \<open>The inode read by the builders does not overlap the node.\<close>

definition inode_apart :: "u32 \<Rightarrow> u32 \<Rightarrow> bool" where
  "inode_apart node i \<longleftrightarrow> (\<forall>j < 128. \<not> in_range node 512 (i + of_nat j))"

lemma tail_in_node: "\<not> in_range node 512 x \<Longrightarrow> \<not> in_range (node + 256) 56 x"
  and name_not_tail: "in_range node 256 x \<Longrightarrow> \<not> in_range (node + 256) 56 x"
proof -
  have "x - node = x - (node + 256) + 256" by simp
  then have "unat (x - node) = unat (x - (node + 256)) + 256" if "in_range (node + 256) 56 x"
    using that unat_add_small [of "x - (node + 256)" 256] unfolding in_range_def by simp
  then show "\<not> in_range node 512 x \<Longrightarrow> \<not> in_range (node + 256) 56 x"
    and "in_range node 256 x \<Longrightarrow> \<not> in_range (node + 256) 56 x" unfolding in_range_def by fastforce+
qed

lemma inode_reads:
  assumes "inode_apart node i" and "\<forall>x. \<not> in_range node 512 x \<longrightarrow> m' x = m x"
  shows "i_mode m' i = i_mode m i" and "i_uid m' i = i_uid m i" and "i_size m' i = i_size m i" and "i_gid m' i = i_gid m i"
proof -
  have byte: "m' (i + of_nat j) = m (i + of_nat j)" if "j < 128" for j
    using assms that unfolding inode_apart_def by blast
  show "i_mode m' i = i_mode m i" using byte [of 0] byte [of 1] by (simp add: i_mode_def ld16_def)
  show "i_uid m' i = i_uid m i" using byte [of 2] byte [of 3] by (simp add: i_uid_def ld16_def add.assoc)
  show "i_gid m' i = i_gid m i" using byte [of 24] byte [of 25] by (simp add: i_gid_def ld16_def add.assoc)
  show "i_size m' i = i_size m i"
    using byte [of 4] byte [of 5] byte [of 6] byte [of 7] by (simp add: i_size_def ld32_def add.assoc)
qed

lemma node_flags_effect:
  assumes "inode_apart node i" and "al4 node"
  shows "tail_only node m (node_flags i node m)"
    and "ld32 (node_flags i node m) (node + FS_FLAGS) = fold (step_flags (i_mode m i))
       [(EXT2_S_IFREG, FS_FILE), (EXT2_S_IFDIR, FS_DIRECTORY), (EXT2_S_IFBLK, FS_BLOCKDEVICE),
        (EXT2_S_IFCHR, FS_CHARDEVICE), (EXT2_S_IFIFO, FS_PIPE), (EXT2_S_IFLNK, FS_SYMLINK)] 0"
    and "al4 b \<Longrightarrow> b \<noteq> FS_FLAGS \<Longrightarrow> ld32 (node_flags i node m) (node + b) = ld32 m (node + b)"
proof -
  let ?m0 = "st32 m (node + FS_FLAGS) 0"
  have tail: "tail_only node m (fold (flag_step i node) ps m)" for ps m
    by (induction ps arbitrary: m)
      (auto simp: flag_step_def tail_only_def [of _ m m for m] split_def intro: tail_only_trans node_fields_tail)
  show "tail_only node m (node_flags i node m)"
    unfolding node_flags_def by (rule tail_only_trans [OF node_fields_tail(4) tail])
  have apart: "\<not> in_range (node + FS_FLAGS) 4 (i + of_nat k)" if "k < 2" for k
  proof
    assume "in_range (node + FS_FLAGS) 4 (i + of_nat k)"
    then obtain j where "j < 4" "i + of_nat k = node + of_nat (268 + j)"
      by (rule in_range_obtain) (simp add: FS_FLAGS_def)
    moreover have "\<not> in_range node 512 (i + of_nat k)" using assms(1) that unfolding inode_apart_def by simp
    ultimately show False using in_range_offset [of 512 "268 + j" node] by (simp del: of_nat_add)
  qed
  have "i_mode ?m0 i = i_mode m i"
    using node_fields_tail(4) [of node m 0] by (intro inode_reads(1) [OF assms(1)]) (simp add: tail_only_def tail_in_node)
  then show "ld32 (node_flags i node m) (node + FS_FLAGS) = fold (step_flags (i_mode m i))
       [(EXT2_S_IFREG, FS_FILE), (EXT2_S_IFDIR, FS_DIRECTORY), (EXT2_S_IFBLK, FS_BLOCKDEVICE),
        (EXT2_S_IFCHR, FS_CHARDEVICE), (EXT2_S_IFIFO, FS_PIPE), (EXT2_S_IFLNK, FS_SYMLINK)] 0"
    unfolding node_flags_def by (subst fold_flag_step [OF apart]) (simp_all only: ld32_st32_same)
  assume b: "al4 b" "b \<noteq> FS_FLAGS"
  have "ld32 (fold (flag_step i node) ps m) (node + b) = ld32 m (node + b)" for ps m
    by (induction ps arbitrary: m) (simp_all add: flag_step_def node_field assms(2) b fields_aligned split_def)
  then show "ld32 (node_flags i node m) (node + b) = ld32 m (node + b)"
    unfolding node_flags_def by (simp only: node_field [OF assms(2) fields_aligned(4) b(1)] b(2) if_False)
qed

lemma node_from_inode_effect:
  assumes apart: "inode_apart node i" and al: "al4 node"
  shows "tail_only node m (node_from_inode rights i node m)"
    and "ld32 (node_from_inode rights i node m) (node + FS_LENGTH) = i_size m i"
    and "ld32 (node_from_inode rights i node m) (node + FS_UID) = ucast (i_uid m i)"
    and "ld32 (node_from_inode rights i node m) (node + FS_MASK) = ucast (i_mode m i AND rights)"
    and "ld32 (node_from_inode rights i node m) (node + FS_INODE) = ld32 m (node + FS_INODE)"
proof -
  define m1 where "m1 = st32 m (node + FS_UID) (ucast (i_uid m i))"
  define m2 where "m2 = st32 m1 (node + FS_GID) (ucast (i_gid m1 i))"
  define m3 where "m3 = st32 m2 (node + FS_LENGTH) (i_size m2 i)"
  have eq: "node_from_inode rights i node m = st32 m3 (node + FS_MASK) (ucast (i_mode m3 i AND rights))"
    unfolding node_from_inode_def m1_def m2_def m3_def Let_def ..
  have t1: "tail_only node m m1" unfolding m1_def by (rule node_fields_tail)
  then have t2: "tail_only node m m2" unfolding m2_def by (rule tail_only_trans [OF _ node_fields_tail(3)])
  then have t3: "tail_only node m m3" unfolding m3_def by (rule tail_only_trans [OF _ node_fields_tail(6)])
  then show "tail_only node m (node_from_inode rights i node m)"
    unfolding eq by (rule tail_only_trans [OF _ node_fields_tail(1)])
  have "i_size m2 i = i_size m i"
    using t2 tail_in_node by (intro inode_reads(3) [OF apart]) (simp add: tail_only_def)
  moreover have "i_mode m3 i = i_mode m i"
    using t3 tail_in_node by (intro inode_reads(1) [OF apart]) (simp add: tail_only_def)
  ultimately show "ld32 (node_from_inode rights i node m) (node + FS_LENGTH) = i_size m i"
    "ld32 (node_from_inode rights i node m) (node + FS_UID) = ucast (i_uid m i)"
    "ld32 (node_from_inode rights i node m) (node + FS_MASK) = ucast (i_mode m i AND rights)"
    "ld32 (node_from_inode rights i node m) (node + FS_INODE) = ld32 m (node + FS_INODE)"
    unfolding eq by (simp_all add: m1_def m2_def m3_def node_field al fields_aligned field_distinct)
qed

lemma node_from_file_describes:
  assumes apart: "inode_apart node i" and al: "al4 node" and nz: "node \<noteq> 0"
    and entry: "\<forall>j < 8 + unat (d_name_len (mem s) d). \<not> in_range node 512 (d + of_nat j)"
  shows "\<exists>m'. initrd_node_from_file i d node s = (1, s\<lparr>mem := m'\<rparr>) \<and>
    node_describes (fun_addr s) (mem s) d i node m' \<and> (\<forall>x. \<not> in_range node 512 x \<longrightarrow> m' x = mem s x)"
proof -
  let ?m = "mem s"
  define m1 where "m1 = st32 ?m (node + FS_INODE) (d_inode ?m d)"
  define m3 where "m3 = (let m2 = memcpy m1 node (d + D_NAME) (ucast (d_name_len m1 d)) in m2(node + ucast (d_name_len m2 d) := 0))"
  define m4 where "m4 = node_from_inode 0xFFF i node m3"
  define m5 where "m5 = node_flags i node m4"
  define m6 where "m6 = node_ops (fun_addr s) node m5"
  have t1: "tail_only node ?m m1" unfolding m1_def by (rule node_fields_tail)
  have o1: "m1 x = ?m x" if "\<not> in_range node 512 x" for x
    using t1 tail_in_node [OF that] by (simp add: tail_only_def)
  have e1: "d_name_len m1 d = d_name_len ?m d" "dent_name m1 d = dent_name ?m d"
    by (rule entry_bytes; use entry o1 in blast)+
  have "\<not> in_range node 256 (d + of_nat j)" if "j < 8 + unat (d_name_len m1 d)" for j
    using entry that in_range_mono [of node 256 _ 512] by (auto simp: e1(1))
  then have "\<forall>j < 8 + unat (d_name_len m1 d). \<not> in_range node 256 (d + of_nat j)" by blast
  moreover have "unat (d_name_len m1 d) < 256" using unsigned_less [of "d_name_len m1 d"] by simp
  ultimately have copy: "cstr m3 node (dent_name ?m d)" "\<And>x. \<not> in_range node 256 x \<Longrightarrow> m3 x = m1 x"
    using copied_name [of m1 d node 256] unfolding m3_def Let_def e1(2) by simp_all
  have o3: "\<forall>x. \<not> in_range node 512 x \<longrightarrow> m3 x = ?m x"
    using copy(2) in_range_mono [of node 256 _ 512, simplified] o1 by metis
  note inode4 = node_from_inode_effect [OF apart al, where rights = "0xFFF" and m = m3, folded m4_def]
  note t4 = inode4(1)
  have t5: "tail_only node m4 m5" unfolding m5_def by (rule node_flags_effect(1) [OF apart al])
  have t6: "tail_only node m5 m6" unfolding m6_def node_ops_def Let_def
    by (intro tail_only_trans [OF _ node_fields_tail(12)] tail_only_trans [OF _ node_fields_tail(11)]
        tail_only_trans [OF _ node_fields_tail(10)] tail_only_trans [OF _ node_fields_tail(9)]
        tail_only_trans [OF _ node_fields_tail(8)] node_fields_tail)
  have t: "tail_only node m3 m6" using t4 t5 t6 tail_only_trans by blast
  have o6: "m6 x = ?m x" if "\<not> in_range node 512 x" for x
    using t tail_in_node [OF that] o3 that by (simp add: tail_only_def)
  have o4: "\<forall>x. \<not> in_range node 512 x \<longrightarrow> m4 x = ?m x"
    using t4 tail_in_node o3 by (simp add: tail_only_def)
  have "in_range node 256 (node + of_nat k)" if "k \<le> length (dent_name ?m d)" for k
  proof -
    have "length (dent_name ?m d) \<le> unat (d_name_len ?m d)"
      unfolding dent_name_def by (rule order_trans [OF length_takeWhile_le]) simp
    moreover have "unat (d_name_len ?m d) < 256" using unsigned_less [of "d_name_len ?m d"] by simp
    ultimately have "k < 256" using that by linarith
    then show ?thesis by simp
  qed
  then have "cstr m6 node (dent_name ?m d) = cstr m3 node (dent_name ?m d)"
    using t name_not_tail by (intro cstr_cong) (simp add: tail_only_def)
  moreover have "ld32 m3 (node + FS_INODE) = ld32 m1 (node + FS_INODE)"
  proof (rule ld32_cong)
    fix x assume "in_range (node + FS_INODE) 4 x"
    then obtain j where j: "j < 4" "x = node + of_nat (272 + j)" by (rule in_range_obtain) (simp add: FS_INODE_def)
    then have "\<not> in_range node 256 x" by (simp add: in_range_def unat_of_nat del: of_nat_add)
    then show "m3 x = m1 x" by (rule copy(2))
  qed
  then have "ld32 m3 (node + FS_INODE) = d_inode ?m d" by (simp add: m1_def)
  moreover note r3 = inode_reads [OF apart o3] and r4 = inode_reads [OF apart o4]
  have flags: "ld32 m6 (node + FS_FLAGS) = ld32 m5 (node + FS_FLAGS)"
    by (simp add: m6_def node_ops_def Let_def node_field al fields_aligned field_distinct)
  moreover note inode4(2-5) [unfolded r3]
  moreover have "ld32 m6 (node + b) = ld32 m4 (node + b)" if "b \<in> {FS_LENGTH, FS_UID, FS_MASK, FS_INODE}" for b
    using that by (auto simp: m6_def node_ops_def Let_def node_field al fields_aligned field_distinct m5_def node_flags_effect(3) [OF apart al])
  moreover have "ld32 m6 (node + FS_FLAGS) = fold (step_flags (i_mode ?m i))
       [(EXT2_S_IFREG, FS_FILE), (EXT2_S_IFDIR, FS_DIRECTORY), (EXT2_S_IFBLK, FS_BLOCKDEVICE),
        (EXT2_S_IFCHR, FS_CHARDEVICE), (EXT2_S_IFIFO, FS_PIPE), (EXT2_S_IFLNK, FS_SYMLINK)] 0"
    unfolding flags m5_def node_flags_effect(2) [OF apart al] r4 ..
  moreover have "ld32 m6 (node + FS_READ) = fun_addr s read_initrd_fn" "ld32 m6 (node + FS_OPEN) = fun_addr s open_initrd_fn"
    "ld32 m6 (node + FS_READDIR) = fun_addr s readdir_initrd_fn" "ld32 m6 (node + FS_FINDDIR) = fun_addr s finddir_initrd_fn"
    by (simp_all add: m6_def node_ops_def Let_def node_field al fields_aligned field_distinct)
  ultimately have "node_describes (fun_addr s) ?m d i node m6"
    unfolding node_describes_def using copy(1) by simp
  moreover have "initrd_node_from_file i d node s = (1, s\<lparr>mem := m6\<rparr>)"
    using nz unfolding m6_def m5_def m4_def m3_def m1_def initrd_node_from_file_def Let_def by simp
  ultimately show ?thesis using o6 by blast
qed

text \<open>The description only depends on the entry and the inode.\<close>

lemma node_describes_cong:
  assumes entry: "\<And>j. j < 8 + unat (d_name_len m d) \<Longrightarrow> m2 (d + of_nat j) = m (d + of_nat j)"
    and inode: "\<And>j. j < 128 \<Longrightarrow> m2 (i + of_nat j) = m (i + of_nat j)"
  shows "node_describes addr m2 d i node m' = node_describes addr m d i node m'"
proof -
  have "d_inode m2 d = d_inode m d" "dent_name m2 d = dent_name m d" by (rule entry_bytes; use entry in blast)+
  moreover have "i_mode m2 i = i_mode m i" using inode [of 0] inode [of 1] by (simp add: i_mode_def ld16_def)
  moreover have "i_uid m2 i = i_uid m i" using inode [of 2] inode [of 3] by (simp add: i_uid_def ld16_def add.assoc)
  moreover have "i_size m2 i = i_size m i"
    using inode [of 4] inode [of 5] inode [of 6] inode [of 7] by (simp add: i_size_def ld32_def add.assoc)
  ultimately show ?thesis unfolding node_describes_def by simp
qed

section \<open>Looking up\<close>

text \<open>
  The disk and the name lie outside of what the heap may write: the walk, the inode size in the
  superblock and the inodes of the entries are kept.
\<close>

definition lookup_kept :: "(u32 \<Rightarrow> chunk option) \<Rightarrow> 'a initrd_scheme \<Rightarrow> u32 \<Rightarrow> u32 list \<Rightarrow> u32 \<Rightarrow> u8 list \<Rightarrow> bool" where
  "lookup_kept A s inode ds name t \<longleftrightarrow> walk_kept A (mem s) inode ds name t \<and> 0 \<notin> set ds \<and>
     kept A (initrd_superblock s + 88) \<and> kept A (initrd_superblock s + 89) \<and>
     (\<forall>d \<in> set ds. \<forall>j < 128. kept A (ext2_get_inode (d_inode (mem s) d) s + of_nat j))"

lemma heap_only_fields:
  fixes s s' :: "'a initrd_scheme"
  assumes "heap_only s s'"
  shows "initrd_superblock s' = initrd_superblock s" and "initrd_inode_table s' = initrd_inode_table s"
    and "initrd_start s' = initrd_start s" and "fun_addr s' = fun_addr s" and "fs_root s' = fs_root s"
  using assms unfolding heap_only_def by auto

lemma get_inode_same:
  fixes s s' :: "'a initrd_scheme"
  assumes "heap_only s s'" and "same_kept A (mem s) (mem s')"
    and "kept A (initrd_superblock s + 88)" "kept A (initrd_superblock s + 89)"
  shows "ext2_get_inode i s' = ext2_get_inode i s"
proof -
  have "sb_inode_size (mem s') (initrd_superblock s) = sb_inode_size (mem s) (initrd_superblock s)"
    unfolding sb_inode_size_def using assms(3,4) by (intro same_kept_ld16 [OF assms(2)]) (simp_all add: add.assoc)
  then show ?thesis by (simp add: ext2_get_inode_def heap_only_fields [OF assms(1)])
qed

lemma fresh_node:
  fixes s :: "'a initrd_scheme"
  assumes "heap s A" and "ready A 7" and entry: "\<forall>j < 8 + unat (d_name_len (mem s) d). kept A (d + of_nat j)"
    and inode: "\<forall>j < 128. kept A (ext2_get_inode (d_inode (mem s) d) s + of_nat j)"
    and sb: "kept A (initrd_superblock s + 88)" "kept A (initrd_superblock s + 89)"
  shows "\<exists>node s2 m' A'. malloc FS_NODE_SIZE s = ret (node, s2) \<and>
    snd (initrd_node_from_file (ext2_get_inode (d_inode (mem s2) d) s2) d node s2) = s2\<lparr>mem := m'\<rparr> \<and>
    node_describes (fun_addr s) (mem s) d (ext2_get_inode (d_inode (mem s) d) s) node m' \<and>
    heap_only s (s2\<lparr>mem := m'\<rparr>) \<and> same_kept A (mem s) m' \<and>
    heap (s2\<lparr>mem := m'\<rparr>) A' \<and> blocks A' = insert (node, 512) (blocks A) \<and> (node, 512) \<notin> blocks A \<and> grown A A' 7 \<and>
    (\<forall>x. in_range node 512 x \<longrightarrow> \<not> kept A x)"
proof -
  have "FS_NODE_SIZE \<noteq> 0" by (simp add: FS_NODE_SIZE_def)
  from keep_cell [OF assms(1,2) this bin_of_node] obtain node s2 A' where n: "malloc FS_NODE_SIZE s = ret (node, s2)"
    "heap s2 A'" "heap_only s s2" "same_kept A (mem s) (mem s2)" "blocks A' = insert (node, 512) (blocks A)"
    "al4 node" "node \<noteq> 0" "\<forall>x. in_range node 512 x \<longrightarrow> \<not> kept A x" "grown A A' 7" by auto
  note e = entry_same [OF n(4) entry]
  define i where "i = ext2_get_inode (d_inode (mem s) d) s"
  have i: "ext2_get_inode (d_inode (mem s2) d) s2 = i" unfolding i_def e(3) by (rule get_inode_same [OF n(3,4) sb])
  have "inode_apart node i" unfolding inode_apart_def using n(8) inode unfolding i_def by blast
  moreover have "\<forall>j < 8 + unat (d_name_len (mem s2) d). \<not> in_range node 512 (d + of_nat j)"
    using n(8) entry unfolding e(1) by blast
  ultimately obtain m' where m': "initrd_node_from_file i d node s2 = (1, s2\<lparr>mem := m'\<rparr>)"
    "node_describes (fun_addr s2) (mem s2) d i node m'" "\<forall>x. \<not> in_range node 512 x \<longrightarrow> m' x = mem s2 x"
    using node_from_file_describes n(6,7) by blast
  have "node_describes (fun_addr s) (mem s) d i node m'"
    using m'(2) n(4) entry inode unfolding heap_only_fields(4) [OF n(3)] i_def
    by (subst (asm) node_describes_cong [of "mem s"]) (simp_all add: same_kept_def)
  moreover have "heap (s2\<lparr>mem := m'\<rparr>) A'"
    by (rule heap_write_block(1) [OF n(2)]) (use n(5) m'(3) in auto)
  moreover have "same_kept A (mem s) m'" using n(4,8) m'(3) unfolding same_kept_def by metis
  moreover have "heap_only s (s2\<lparr>mem := m'\<rparr>)" by (rule heap_only_trans [OF n(3) heap_only_mem])
  moreover have "(node, 512) \<notin> blocks A"
  proof
    assume "(node, 512) \<in> blocks A"
    then have "kept A node" using block_bytes_kept [OF assms(1), of node 7 node] by (simp add: in_range_def)
    then show False using n(8) by (simp add: in_range_def)
  qed
  ultimately show ?thesis using n(1,5,8,9) m'(1) i unfolding i_def by (intro exI [of _ node] exI [of _ s2] exI [of _ m'] exI [of _ A']) simp
qed

lemma finddir_lookup:
  fixes s :: "'a initrd_scheme"
  assumes "heap s A" and "ready A 7" "\<forall>d \<in> set ds. ready A (entry_bin (mem s) d)"
    and inode: "inode = ext2_get_inode (ld32 (mem s) (node + FS_INODE)) s" "i_mode (mem s) inode AND EXT2_S_IFDIR \<noteq> 0"
    and "dir_chain (mem s) (i_size (mem s) inode) (ext2_get_inode_block inode 0 s) 0 ds"
    and "lookup_kept A s inode ds name t"
  shows "\<exists>out s'. finddir_initrd node name s = ret (out, s') \<and> heap_only s s' \<and> same_kept A (mem s) (mem s') \<and>
    (case find (\<lambda>d. dent_name (mem s) d = t) ds of
       None \<Rightarrow> out = 0 \<and> heap s' A
     | Some d \<Rightarrow> node_describes (fun_addr s) (mem s) d (ext2_get_inode (d_inode (mem s) d) s) out (mem s') \<and>
         (\<exists>A'. heap s' A' \<and> (out, 512) \<notin> blocks A \<and> blocks A' = insert (out, 512) (blocks A) \<and> grown A A' 7) \<and>
         (\<forall>x. in_range out 512 x \<longrightarrow> \<not> kept A x))"
proof -
  note kp = assms(7) [unfolded lookup_kept_def]
  from kp have wk: "walk_kept A (mem s) inode ds name t" by blast
  from finddir_loop_found [OF assms(1,3) same_kept_refl assms(6) wk]
  obtain s1 where s1: "finddir_loop inode name (ext2_get_inode_block inode 0 s) 0 s = ret (found t (mem s) ds, s1)"
    "heap s1 A" "heap_only s s1" "same_kept A (mem s) (mem s1)" by blast
  have run: "finddir_initrd node name s =
      (if found t (mem s) ds = 0 then ret (0, s1)
       else bind_run (malloc FS_NODE_SIZE s1) (\<lambda>(outnode, s2).
          ret (outnode, snd (initrd_node_from_file (ext2_get_inode (d_inode (mem s2) (found t (mem s) ds)) s2)
                               (found t (mem s) ds) outnode s2))))"
    using inode s1(1) unfolding finddir_initrd_def Let_def by (simp add: assert_run_def)
  show ?thesis
  proof (cases "find (\<lambda>d. dent_name (mem s) d = t) ds")
    case None
    then show ?thesis using run s1(2-4) by (simp add: found_def)
  next
    case (Some d)
    then have "d \<in> set ds" by (auto simp: find_Some_iff)
    with Some have d: "d \<in> set ds" "found t (mem s) ds = d" by (simp_all add: found_def)
    with kp have nz: "d \<noteq> 0" by auto
    have entry: "\<forall>j < 8 + unat (d_name_len (mem s) d). kept A (d + of_nat j)" using wk d(1) unfolding walk_kept_def by blast
    have inode: "\<forall>j < 128. kept A (ext2_get_inode (d_inode (mem s) d) s + of_nat j)" using kp d(1) by blast
    note e = entry_same [OF s1(4) entry]
    have sb: "kept A (initrd_superblock s + 88)" "kept A (initrd_superblock s + 89)" using kp by blast+
    define i where "i = ext2_get_inode (d_inode (mem s) d) s"
    have i: "ext2_get_inode (d_inode (mem s1) d) s1 = i"
      unfolding e(3) i_def by (rule get_inode_same [OF s1(3,4) sb])
    have "\<forall>j < 8 + unat (d_name_len (mem s1) d). kept A (d + of_nat j)" using entry unfolding e(1) .
    moreover have "\<forall>j < 128. kept A (ext2_get_inode (d_inode (mem s1) d) s1 + of_nat j)" using inode unfolding i i_def .
    ultimately obtain out s2 m' A' where n: "malloc FS_NODE_SIZE s1 = ret (out, s2)"
      "snd (initrd_node_from_file (ext2_get_inode (d_inode (mem s2) d) s2) d out s2) = s2\<lparr>mem := m'\<rparr>"
      "node_describes (fun_addr s1) (mem s1) d (ext2_get_inode (d_inode (mem s1) d) s1) out m'"
      "heap_only s1 (s2\<lparr>mem := m'\<rparr>)" "same_kept A (mem s1) m'" "heap (s2\<lparr>mem := m'\<rparr>) A'"
      "blocks A' = insert (out, 512) (blocks A)" "(out, 512) \<notin> blocks A" "grown A A' 7" "\<forall>x. in_range out 512 x \<longrightarrow> \<not> kept A x"
      using fresh_node [OF s1(2), of d] assms(2) sb heap_only_fields(1) [OF s1(3)] by auto
    have "finddir_initrd node name s = ret (out, s2\<lparr>mem := m'\<rparr>)" using run nz n(1,2) by (simp add: d(2))
    moreover have "node_describes (fun_addr s) (mem s) d i out m'"
      using n(3) entry inode s1(4) unfolding i heap_only_fields(4) [OF s1(3)] i_def
      by (subst (asm) node_describes_cong [of "mem s"]) (simp_all add: same_kept_def)
    ultimately show ?thesis
      using Some heap_only_trans [OF s1(3) n(4)] same_kept_trans [OF s1(4) n(5)] n(6-10) by (auto simp: i_def)
  qed
qed

text \<open>C10: Looking up a name in a directory of the ram disk finds the first entry with exactly that name:
  the call returns a new block of the heap that holds a node with the name, the inode number, the
  length, the owner, the rights and the type flags of the file and the functions of the driver.  When
  no entry has the name the result is a null pointer and the abstract heap is as before: every
  temporary block is freed.  The heap invariant holds afterwards and no block in use is written.\<close>

theorem finddir_finds:
  fixes s :: "'a initrd_scheme"
  assumes "heap s A" and "ready A 7" "\<forall>d \<in> set ds. ready A (entry_bin (mem s) d)"
    and inode: "inode = ext2_get_inode (ld32 (mem s) (node + FS_INODE)) s" "i_mode (mem s) inode AND EXT2_S_IFDIR \<noteq> 0"
    and "dir_chain (mem s) (i_size (mem s) inode) (ext2_get_inode_block inode 0 s) 0 ds"
    and "lookup_kept A s inode ds name t"
  shows "\<exists>out s'. finddir_initrd node name s = ret (out, s') \<and> heap_only s s' \<and> same_kept A (mem s) (mem s') \<and>
    (case find (\<lambda>d. dent_name (mem s) d = t) ds of
       None \<Rightarrow> out = 0 \<and> heap s' A
     | Some d \<Rightarrow> node_describes (fun_addr s) (mem s) d (ext2_get_inode (d_inode (mem s) d) s) out (mem s') \<and>
         (\<exists>A'. heap s' A' \<and> (out, 512) \<notin> blocks A \<and> blocks A' = insert (out, 512) (blocks A)))"
proof -
  note found = finddir_lookup [OF assms]
  show ?thesis
  proof (cases "find (\<lambda>d. dent_name (mem s) d = t) ds")
    case None
    then show ?thesis using found by simp
  next
    case (Some d)
    then show ?thesis using found by simp blast
  qed
qed

text \<open>The heap with pages of 4-byte, 512-byte and 1024-byte cells beside the disk of Ramdisk.\<close>

definition disk_chunks :: "u32 \<Rightarrow> chunk option" where
  "disk_chunks = (two_chunks 0 7)(0x11000 \<mapsto> Small 8 (page_cells 0x11000 8))"

definition demo_lookup :: initrd where
  "demo_lookup = demo_initrd\<lparr>mem := demo_page 0x11000 8 (demo_page 0x20000 7 (demo_page 0x10000 0 demo_disk)),
     bin_head := (replicate 10 0)[0 := 0x10000, 7 := 0x20000, 8 := 0x11000], fs_root := 0x1B0000, lit := \<lambda>_. 0x1D0000\<rparr>"

lemma demo_lookup_fields:
  "mem demo_lookup = demo_page 0x11000 8 (demo_page 0x20000 7 (demo_page 0x10000 0 demo_disk))"
  "initrd_start demo_lookup = 0x200000" "initrd_superblock demo_lookup = 0x200400" "initrd_inode_table demo_lookup = 0x201400"
  "bin_head demo_lookup = (replicate 10 0)[0 := 0x10000, 7 := 0x20000, 8 := 0x11000]" "big_head demo_lookup = 0x500"
  "big_level demo_lookup = 0" "newest_big demo_lookup = 0" "heap_end demo_lookup = 0x100000" "fs_root demo_lookup = 0x1B0000"
  "lit demo_lookup = (\<lambda>_. 0x1D0000)"
  by (simp_all add: demo_lookup_def demo_initrd_def kbd.defs initrd.defs demo_kbd_def kheap.defs demo_heap_def kmm.defs demo_kmm_def)

lemma demo_disk_low:
  assumes "x \<in> words 0x500 44"
  shows "ld32 demo_disk x = 0"
proof -
  have "al4 x" "in_range 0x500 44 x" using assms by (auto simp: words_def)
  then show ?thesis by (subst demo_word) (auto simp: demo_words_def in_range_def)
qed

lemma demo_lookup_heap: "heap demo_lookup disk_chunks"
proof -
  define s where "s = demo_lookup\<lparr>mem := demo_page 0x20000 7 (demo_page 0x10000 0 demo_disk),
    bin_head := (replicate 10 0)[0 := 0x10000, 7 := 0x20000]\<rparr>"
  have ok: "heap_ok s (two_chunks 0 7) [] (\<lambda>_. 0) ((\<lambda>_. [])(0 := [0x10000], 7 := [0x20000]))"
    by (intro two_pages_ok [of _ _ _ demo_disk]) (simp_all add: s_def demo_lookup_fields demo_disk_low)
  have apart: "words 0x11000 0x1000 \<inter> words (big_head s) 44 = {}"
    "\<And>q c. two_chunks 0 7 q = Some c \<Longrightarrow> words 0x11000 0x1000 \<inter> words q (chunk_len c) = {}"
    using demo_apart_words [of "0x500" 44 "0x11000" "0x1000"] demo_apart_words [of "0x10000" "0x1000" "0x11000" "0x1000"]
      demo_apart_words [of "0x11000" "0x1000" "0x20000" "0x1000"]
    by (auto simp: s_def demo_lookup_fields two_chunks_def Int_commute split: if_splits)
  define m' where "m' = demo_page 0x11000 8 (mem s)"
  have "heap_ok (s\<lparr>mem := m', bin_head := (bin_head s)[8 := 0x11000]\<rparr>) ((two_chunks 0 7)(0x11000 \<mapsto> Small 8 (page_cells 0x11000 8)))
      [] (\<lambda>_. 0) (((\<lambda>_. [])(0 := [0x10000], 7 := [0x20000]))(8 := [0x11000]))"
    using page_added(1) [OF ok _ _ _ _ _ _ apart, of 8]
    by (simp add: s_def demo_lookup_fields m'_def demo_page_def two_chunks_def)
  moreover have "s\<lparr>mem := m', bin_head := (bin_head s)[8 := 0x11000]\<rparr> = demo_lookup"
    by (simp add: s_def m'_def demo_lookup_def)
  ultimately show ?thesis unfolding disk_chunks_def by (intro heapI) simp
qed

lemma demo_lookup_kept:
  assumes "0x30000 \<le> x"
  shows "kept disk_chunks x" and "mem demo_lookup x = demo_disk x"
proof -
  define w where "w = word_of x"
  obtain a where a: "unat w = 4 * a" using word_of [of x] by (auto simp: al4_def w_def)
  define k where "k = unat x mod 4"
  have k: "k < 4" by (simp add: k_def)
  have x: "x = w + of_nat k" using word_of_offset [of x] by (simp add: w_def k_def)
  have "unat w < 2 ^ 32" using unsigned_less [of w] by simp
  then have "4 * a + k < 2 ^ 32" using a k by simp
  then have "unat x = unat w + k" unfolding x using a by (intro unat_add_small) simp_all
  moreover have "0x30000 \<le> unat x" using assms by (simp add: word_le_nat_alt)
  ultimately have w: "0x30000 \<le> w" using a k by (simp add: word_le_nat_alt)
  have out: "w \<notin> words p 0x1000" if "p \<in> {0x10000, 0x11000, 0x20000}" for p
  proof -
    have "p \<le> 0x30000" using that by auto
    then have "p \<le> w" using w by (rule order_trans)
    then have "unat (w - p) = unat w - unat p" by (simp add: unat_sub)
    moreover have "unat p \<le> 0x20000" "0x30000 \<le> unat w" using that w by (auto simp: word_le_nat_alt)
    ultimately have "\<not> unat (w - p) < 0x1000" by linarith
    then show ?thesis by (simp add: words_def in_range_def)
  qed
  then show "kept disk_chunks x"
    using word_of [of x] by (auto simp: kept_def kept_words_def disk_chunks_def two_chunks_def w_def split: if_splits)
  have "ld32 (demo_page p b m) w = ld32 m w" if "p \<in> {0x10000, 0x11000, 0x20000}" "b < 10" for p b m
  proof -
    have "same_words (words p 0x1000) m (demo_page p b m)" by (rule demo_page_facts(3); use that in auto)
    then show ?thesis using out [OF that(1)] word_of [of x] by (simp add: same_words_def w_def)
  qed
  then have "ld32 (mem demo_lookup) w = ld32 demo_disk w" by (simp add: demo_lookup_fields(1))
  then show "mem demo_lookup x = demo_disk x" unfolding x using k by (rule word_byte)
qed

lemma demo_lookup_word:
  assumes "0x30000 \<le> a" and "al4 a"
  shows "ld32 (mem demo_lookup) a = (case map_of (rev demo_words) a of Some w \<Rightarrow> w | None \<Rightarrow> 0)"
proof -
  have "0x30000 \<le> x" if x: "in_range a 4 x" for x
  proof -
    obtain k where k: "k < 4" "x = a + of_nat k" using x by (rule in_range_obtain)
    then have "unat x div 4 = unat a div 4" "unat x mod 4 = k" using al4_div [OF assms(2) k(1)] by simp_all
    moreover have "0x30000 \<le> unat a" using assms(1) by (simp add: word_le_nat_alt)
    moreover have "unat x = unat x div 4 * 4 + unat x mod 4" by simp
    moreover have "unat a = unat a div 4 * 4 + unat a mod 4" by simp
    moreover have "unat a mod 4 = 0" using assms(2) by (simp add: al4_def)
    ultimately have "0x30000 \<le> unat x" by linarith
    then show ?thesis by (simp add: word_le_nat_alt)
  qed
  then have "ld32 (mem demo_lookup) a = ld32 demo_disk a" by (intro ld32_cong demo_lookup_kept(2))
  then show ?thesis using assms(2) by (simp add: demo_word)
qed

lemma demo_lookup_disk:
  "sb_inode_size (mem demo_lookup) 0x200400 = 128" "sb_log_block_size (mem demo_lookup) 0x200400 = 0"
  "ld32 (mem demo_lookup) 0x1B0110 = 2" "i_mode (mem demo_lookup) 0x201480 = 0x41ED"
  "i_size (mem demo_lookup) 0x201480 = 28" "i_block (mem demo_lookup) 0x201480 0 = 10"
  "d_rec_len (mem demo_lookup) 0x202800 = 12" "d_rec_len (mem demo_lookup) 0x20280C = 16"
  "d_inode (mem demo_lookup) 0x202800 = 2" "d_inode (mem demo_lookup) 0x20280C = 11"
  "i_size (mem demo_lookup) 0x201900 = 2000"
  by (simp_all add: sb_inode_size_def sb_log_block_size_def i_mode_def i_size_def i_block_def d_rec_len_def d_inode_def
      half_of_word demo_lookup_word demo_words_def al4_def)

lemma demo_lookup_bytes:
  "d_name_len (mem demo_lookup) 0x202800 = 1" "d_name_len (mem demo_lookup) 0x20280C = 2"
  "mem demo_lookup 0x202808 = 0x2E" "mem demo_lookup 0x202814 = 0x72" "mem demo_lookup 0x202815 = 0x63"
  "mem demo_lookup 0x1A0000 = 0x72" "mem demo_lookup 0x1A0001 = 0x63" "mem demo_lookup 0x1A0002 = 0"
proof -
  have b: "mem demo_lookup (a + of_nat k) = ucast (drop_bit (8 * k) (case map_of (rev demo_words) a of Some w \<Rightarrow> w | None \<Rightarrow> 0))"
    if "k < 4" "0x30000 \<le> a" "al4 a" for a k
    using byte_of_word [OF that(1), of "mem demo_lookup" a] demo_lookup_word [OF that(2,3)] by simp
  show "d_name_len (mem demo_lookup) 0x202800 = 1" using b [of 2 "0x202804"] by (simp add: d_name_len_def demo_words_def al4_def)
  show "d_name_len (mem demo_lookup) 0x20280C = 2" using b [of 2 "0x202810"] by (simp add: d_name_len_def demo_words_def al4_def)
  show "mem demo_lookup 0x202808 = 0x2E" using b [of 0 "0x202808"] by (simp add: demo_words_def al4_def)
  show "mem demo_lookup 0x202814 = 0x72" "mem demo_lookup 0x202815 = 0x63"
    using b [of 0 "0x202814"] b [of 1 "0x202814"] by (simp_all add: demo_words_def al4_def)
  show "mem demo_lookup 0x1A0000 = 0x72" "mem demo_lookup 0x1A0001 = 0x63" "mem demo_lookup 0x1A0002 = 0"
    using b [of 0 "0x1A0000"] b [of 1 "0x1A0000"] b [of 2 "0x1A0000"] by (simp_all add: demo_words_def al4_def)
qed

lemma demo_lookup_names:
  "dent_name (mem demo_lookup) 0x202800 = [0x2E]" "dent_name (mem demo_lookup) 0x20280C = [0x72, 0x63]"
  "cstr (mem demo_lookup) 0x1A0000 [0x72, 0x63]"
proof -
  have "[0..<2] = [0, 1]" by (simp add: upt_rec)
  then show "dent_name (mem demo_lookup) 0x202800 = [0x2E]" "dent_name (mem demo_lookup) 0x20280C = [0x72, 0x63]"
    "cstr (mem demo_lookup) 0x1A0000 [0x72, 0x63]"
    by (simp_all add: dent_name_def demo_lookup_bytes D_NAME_def)
qed

lemma demo_lookup_inode: "ext2_get_inode n demo_lookup = 0x201400 + 128 * (n - 1)"
  by (simp add: ext2_get_inode_def demo_lookup_fields(3,4) demo_lookup_disk)

lemma demo_lookup_bins: "entry_bin (mem demo_lookup) 0x202800 = 0" "entry_bin (mem demo_lookup) 0x20280C = 0"
  using bin_size_value [of 1 2] bin_size_value [of 1 3] by (simp_all add: entry_bin_def demo_lookup_bytes)

lemma demo_lookup_chain:
  "dir_chain (mem demo_lookup) (i_size (mem demo_lookup) 0x201480) (ext2_get_inode_block 0x201480 0 demo_lookup) 0
     [0x202800, 0x20280C]"
proof -
  have "block_size demo_lookup = 1024" by (simp add: block_size_def demo_lookup_fields(3) demo_lookup_disk)
  then have "ext2_get_inode_block 0x201480 0 demo_lookup = 0x202800"
    by (simp add: ext2_get_inode_block_def ext2_get_block_def demo_lookup_fields(2) demo_lookup_disk)
  then show ?thesis by (simp add: demo_lookup_disk)
qed

lemma demo_lookup_kept_at:
  assumes "unat p + j < 2 ^ 32" and "0x30000 \<le> p"
  shows "kept disk_chunks (p + of_nat j)"
  using unat_add_small [OF assms(1)] assms(2) by (intro demo_lookup_kept(1)) (simp add: word_le_nat_alt)

lemma disk_ready: "ready disk_chunks 0" "ready disk_chunks 7"
proof -
  have at: "disk_chunks 0x10000 = Some (Small 0 (page_cells 0x10000 0))" "disk_chunks 0x20000 = Some (Small 7 (page_cells 0x20000 7))"
    by (simp_all add: disk_chunks_def two_chunks_def)
  have "page_cells p b \<noteq> []" for p b by (simp add: page_cells_def)
  then show "ready disk_chunks 0" "ready disk_chunks 7" unfolding ready_def using at by blast+
qed

theorem finddir_finds_witness:
  "\<exists>out s'. finddir_initrd 0x1B0000 0x1A0000 demo_lookup = ret (out, s') \<and> cstr (mem s') out [0x72, 0x63] \<and>
    ld32 (mem s') (out + FS_INODE) = 11 \<and> ld32 (mem s') (out + FS_LENGTH) = 2000"
proof -
  let ?s = demo_lookup and ?A = disk_chunks and ?i = "0x201480 :: u32" and ?ds = "[0x202800, 0x20280C :: u32]"
    and ?t = "[0x72, 0x63 :: u8]"
  have ready: "ready ?A 0" "ready ?A 7" by (rule disk_ready)+
  have bins: "\<forall>d \<in> set ?ds. ready ?A (entry_bin (mem ?s) d)" using ready by (simp add: demo_lookup_bins)
  note kept = demo_lookup_kept_at
  have "\<forall>j < 20. kept ?A (d + of_nat j)" if "d \<in> set ?ds" for d using that kept by auto
  moreover have "\<forall>j < 128. kept ?A (i + of_nat j)" if "i \<in> {0x201480, 0x201900}" for i using that kept by auto
  moreover have "\<forall>j < 4. kept ?A (?i + 4 + of_nat j)" "\<forall>j \<le> 2. kept ?A (0x1A0000 + of_nat j)" using kept by auto
  moreover have "kept ?A 0x200458" "kept ?A 0x200459" by (rule demo_lookup_kept(1); simp)+
  ultimately have "lookup_kept ?A ?s ?i ?ds 0x1A0000 ?t"
    by (simp add: lookup_kept_def walk_kept_def demo_lookup_bytes demo_lookup_names(3) demo_lookup_fields(3)
        demo_lookup_disk demo_lookup_inode del: cstr.simps)
  moreover have "?i = ext2_get_inode (ld32 (mem ?s) (0x1B0000 + FS_INODE)) ?s"
    by (simp add: FS_INODE_def demo_lookup_disk demo_lookup_inode)
  moreover have "i_mode (mem ?s) ?i AND EXT2_S_IFDIR \<noteq> 0" by (simp add: demo_lookup_disk EXT2_S_IFDIR_def)
  moreover have "dir_chain (mem ?s) (i_size (mem ?s) ?i) (ext2_get_inode_block ?i 0 ?s) 0 ?ds"
    by (rule demo_lookup_chain)
  moreover have "find (\<lambda>d. dent_name (mem ?s) d = ?t) ?ds = Some 0x20280C" by (simp add: demo_lookup_names)
  ultimately obtain out s' where "finddir_initrd 0x1B0000 0x1A0000 ?s = ret (out, s')"
    "node_describes (fun_addr ?s) (mem ?s) 0x20280C (ext2_get_inode (d_inode (mem ?s) 0x20280C) ?s) out (mem s')"
    using finddir_finds [OF demo_lookup_heap ready(2) bins, of ?i "0x1B0000" "0x1A0000" ?t] by auto
  then show ?thesis
    unfolding node_describes_def demo_lookup_names(2) demo_lookup_disk(10) demo_lookup_inode by (auto simp: demo_lookup_disk)
qed

end
