(* ===== verification/Vfs.thy ===== *)
theory Vfs
  imports Ext2
begin

text \<open>
  The virtual file system, \<^verbatim>\<open>kernel/core/vfs.c\<close>.  Every operation calls the function whose address
  the node holds; the functions in the kernel with these types are those of the ram disk, and a
  call of any other address is undefined.
\<close>

section \<open>Calls through a node\<close>

definition node_fun :: "u32 \<Rightarrow> u32 \<Rightarrow> 'a initrd_scheme \<Rightarrow> u32" where
  "node_fun node field s = ld32 (mem s) (node + field)"

definition call_if :: "u32 \<Rightarrow> driver_fun \<Rightarrow> 'a initrd_scheme \<Rightarrow> 'b run \<Rightarrow> 'b run" where
  "call_if p f s r = (if p = fun_addr s f then r else halt (Undefined ''call of a function pointer''))"

definition read_fs :: "u32 \<Rightarrow> u32 \<Rightarrow> u32 \<Rightarrow> u32 \<Rightarrow> 'a initrd_scheme \<Rightarrow> (u32 \<times> 'a initrd_scheme) run" where
  "read_fs node offset sz buffer s =
     (let p = node_fun node FS_READ s in
      if p \<noteq> 0 then call_if p read_initrd_fn s (read_initrd node offset sz buffer s) else ret (0, s))"

definition write_fs :: "u32 \<Rightarrow> u32 \<Rightarrow> u32 \<Rightarrow> u32 \<Rightarrow> 'a initrd_scheme \<Rightarrow> (u32 \<times> 'a initrd_scheme) run" where
  "write_fs node offset sz buffer s =
     (let p = node_fun node FS_WRITE s in
      if p \<noteq> 0 then call_if p write_initrd_fn s (ret (write_initrd node offset sz buffer s)) else ret (0, s))"

definition open_fs :: "u32 \<Rightarrow> u8 \<Rightarrow> u8 \<Rightarrow> 'a initrd_scheme \<Rightarrow> 'a initrd_scheme run" where
  "open_fs node rd wr s =
     (let p = node_fun node FS_OPEN s in
      if p \<noteq> 0 then call_if p open_initrd_fn s (ret (open_initrd node rd wr s)) else ret s)"

definition close_fs :: "u32 \<Rightarrow> 'a initrd_scheme \<Rightarrow> 'a initrd_scheme run" where
  "close_fs node s =
     (let p = node_fun node FS_CLOSE s in
      if p \<noteq> 0 then call_if p close_initrd_fn s (ret (close_initrd node s)) else ret s)"

definition readdir_fs :: "u32 \<Rightarrow> u32 \<Rightarrow> 'a initrd_scheme \<Rightarrow> (u32 \<times> 'a initrd_scheme) run" where
  "readdir_fs node index s =
     (let p = node_fun node FS_READDIR s in
      if ld32 (mem s) (node + FS_FLAGS) AND 0x07 = FS_DIRECTORY \<and> p \<noteq> 0
      then call_if p readdir_initrd_fn s (readdir_initrd node index s) else ret (0, s))"

text \<open>The guard of \<^verbatim>\<open>finddir_fs\<close> tests the pointer \<^verbatim>\<open>readdir\<close>, not the one it calls.\<close>

definition finddir_fs :: "u32 \<Rightarrow> u32 \<Rightarrow> 'a initrd_scheme \<Rightarrow> (u32 \<times> 'a initrd_scheme) run" where
  "finddir_fs node name s =
     (if ld32 (mem s) (node + FS_FLAGS) AND FS_DIRECTORY \<noteq> 0 \<and> node_fun node FS_READDIR s \<noteq> 0
      then call_if (node_fun node FS_FINDDIR s) finddir_initrd_fn s (finddir_initrd node name s) else ret (0, s))"

section \<open>Opening a path\<close>

text \<open>The loop that replaces every slash by a terminator and counts them.\<close>

function split_path :: "u32 \<Rightarrow> u32 \<Rightarrow> u32 \<Rightarrow> mem \<Rightarrow> u32 \<times> mem" where
  "split_path p end_path depth m =
     (if p < end_path then
        if m p = 0x2F then split_path (p + 1) end_path (depth + 1) (m(p := 0))
        else split_path (p + 1) end_path depth m
      else (depth, m))"
  by pat_completeness auto
termination
  by (relation "measure (\<lambda>(p, e, d, m). unat e - unat p)") auto

declare split_path.simps [simp del]

text \<open>\<open>walk_path n\<close>: the loop over the components with \<open>n\<close> iterations left.\<close>

primrec walk_path :: "nat \<Rightarrow> u32 \<Rightarrow> u32 \<Rightarrow> u32 \<Rightarrow> 'a initrd_scheme \<Rightarrow> (u32 \<times> 'a initrd_scheme) run" where
  "walk_path 0 path path_offset node_ptr s = bind_run (free path s) (\<lambda>s1. ret (0, s1))"
| "walk_path (Suc n) path path_offset node_ptr s =
     bind_run (finddir_fs node_ptr path_offset s) (\<lambda>(node, s1).
       if node = 0 then bind_run (free path s1) (\<lambda>s2. ret (0, s2))
       else if n = 0 then bind_run (open_fs node 1 0 s1) (\<lambda>s2. ret (node, s2))
       else bind_run (lift_run (strlen (mem s1) path_offset)) (\<lambda>len.
         walk_path n path (path_offset + (len + 1)) node s1))"

text \<open>\<^verbatim>\<open>!filename[0] == '/'\<close> compares the negation of the first character, 0 or 1, with a slash.\<close>

definition kopen :: "u32 \<Rightarrow> u32 \<Rightarrow> 'a initrd_scheme \<Rightarrow> (u32 \<times> 'a initrd_scheme) run" where
  "kopen filename flags s =
     (if fs_root s = 0 then halt (Panic ''Attempted to kopen() without a filesystem in place.'')
      else if (if mem s filename = 0 then 1 else 0) = (0x2F :: int)
      then halt (Panic ''Attempted to kopen() a non-absolute path.'')
      else bind_run (lift_run (strlen (mem s) filename)) (\<lambda>path_len.
        bind_run (malloc path_len s) (\<lambda>(path, s1).
          case split_path path (path + path_len) 0 (memcpy (mem s1) path filename path_len) of (path_depth, m) \<Rightarrow>
            walk_path (unat path_depth) path (path + 1) (fs_root s1) (s1\<lparr>mem := m(path + path_len := 0)\<rparr>))))"

end
