(* ===== verification/Path.thy ===== *)
theory Path
  imports Lookup Vfs
begin

text \<open>
  Opening a path: \<^verbatim>\<open>kopen\<close> splits its name at the slashes and follows the components from the root
  through the directories of the ram disk.
\<close>

section \<open>Giving a small block back\<close>

lemma small_block:
  assumes "heap s A" and "(q, 2 ^ (b + 2)) \<in> blocks A" and b: "b < 10"
  obtains p fs where "A p = Some (Small b fs)" and "q \<in> cells p b" and "q \<notin> set fs"
    and "unat q + 2 ^ (b + 2) \<le> 2 ^ 32"
proof -
  obtain ns lv busy where ok: "heap_ok s A ns lv busy" using assms(1) unfolding heap_def by blast
  obtain p c where A: "A p = Some c" "(q, 2 ^ (b + 2)) \<in> chunk_blocks p c" using assms(2) unfolding in_blocks by blast
  note chunk = chunks_okD(1) [OF heap_okD(1) [OF ok] A(1)]
  show thesis
  proof (cases c)
    case (Small b' fs)
    then have q: "q \<in> cells p b" "q \<notin> set fs" "b' = b" using A(2) by auto
    obtain i where i: "i \<le> cells_available b" "q = p + of_nat (12 + i * 2 ^ (b + 2))"
      using q(1) by (auto simp: cells_def cell_addr_def)
    have "0 < (2::nat) ^ (b + 2)" by simp
    moreover have top: "unat p + 0x1000 \<le> 2 ^ 32" using chunk Small by simp
    ultimately have lt: "unat p + (12 + i * 2 ^ (b + 2)) < 2 ^ 32" using cell_offset [OF b i(1)] by linarith
    have "unat q = unat p + (12 + i * 2 ^ (b + 2))" unfolding i(2) by (rule unat_add_small [OF lt])
    then have "unat q + 2 ^ (b + 2) \<le> 2 ^ 32" using cell_offset [OF b i(1)] top by linarith
    then show thesis using that A(1) Small q by blast
  next
    case (Big n f)
    then have "unat n = 2 ^ (b + 2)" using A(2) by (auto split: if_splits)
    moreover have "(2::nat) ^ (b + 2) \<le> 2 ^ 11" using b by (intro power_increasing) simp_all
    ultimately show thesis using chunk Big by simp
  qed
qed

lemma give_back:
  assumes "heap s A" and "(q, 2 ^ (b + 2)) \<in> blocks A" and b: "b < 10"
  shows "\<exists>s' A'. free q s = ret s' \<and> heap s' A' \<and> heap_only s s' \<and> blocks A' = blocks A - {(q, 2 ^ (b + 2))} \<and>
    (\<forall>x. kept A x \<and> \<not> in_range q (2 ^ (b + 2)) x \<longrightarrow> mem s' x = mem s x)"
proof -
  obtain p fs where A: "A p = Some (Small b fs)" and q: "q \<in> cells p b" "q \<notin> set fs" using small_block [OF assms] .
  obtain ns lv busy where ok: "heap_ok s A ns lv busy" using assms(1) unfolding heap_def by blast
  note parts = heap_okD [OF ok]
  have chunk: "chunk_ok (mem s) p (Small b fs)" using chunks_okD(1) [OF parts(1) A] .
  obtain s' where s': "free q s = ret s'" "heap s' (A(p \<mapsto> Small b (q # fs)))" "heap_only s s'"
    "same_words {p, p + 4, q} (mem s) (mem s')" using return_cell [OF assms(1) A q] by blast
  have mine: "(q, 2 ^ (b + 2)) \<in> chunk_blocks p (Small b fs)" using q by simp
  have "chunk_blocks p (Small b fs) \<subseteq> blocks A" using A unfolding blocks_def by blast
  moreover have "chunk_blocks p (Small b (q # fs)) = chunk_blocks p (Small b fs) - {(q, 2 ^ (b + 2))}"
    by (simp only: chunk_blocks.simps list.set) blast
  ultimately have "blocks (A(p \<mapsto> Small b (q # fs))) = blocks A - {(q, 2 ^ (b + 2))}"
    unfolding blocks_change [OF parts(1,2) A] using mine by blast
  moreover have "mem s' x = mem s x" if x: "kept A x" "\<not> in_range q (2 ^ (b + 2)) x" for x
  proof -
    define w where "w = word_of x"
    have kw: "w \<in> kept_words A" using x(1) by (simp add: kept_def w_def)
    have "w \<notin> {p, p + 4}"
    proof (cases "w \<in> block_words A")
      case True
      then show ?thesis using block_word_outside(1,2) [OF parts(1,2) True A] by simp
    next
      case False
      then have "w \<notin> words p 0x1000" using kw A unfolding kept_words_def by fastforce
      then show ?thesis using header_fields_in_chunk [OF chunk] by auto
    qed
    moreover have "w \<noteq> q"
    proof
      assume "w = q"
      then have "x = q + of_nat (unat x mod 4)" using word_of_offset [of x] by (simp add: w_def)
      moreover have "unat x mod 4 < 2 ^ (b + 2)" by (rule order_less_le_trans [of _ 4]) (simp_all add: power_add)
      moreover have "(2::nat) ^ (b + 2) \<le> 2 ^ 32" using b by (intro power_increasing) simp_all
      ultimately show False using x(2) in_range_offset by metis
    qed
    ultimately have "ld32 (mem s') w = ld32 (mem s) w"
      using same_wordsD [OF s'(4), of w] word_of [of x] by (simp add: w_def)
    from word_byte [OF this, of "unat x mod 4"] show ?thesis using word_of_offset [of x] by (simp add: w_def)
  qed
  ultimately show ?thesis using s'(1-3) by blast
qed

section \<open>Directories of the disk\<close>

definition is_dir :: "mem \<Rightarrow> u32 \<Rightarrow> bool" where
  "is_dir m i \<longleftrightarrow> i_mode m i AND EXT2_S_IFDIR = EXT2_S_IFDIR"

text \<open>The inode an entry names.\<close>

definition entry_inode :: "'a initrd_scheme \<Rightarrow> u32 \<Rightarrow> u32" where
  "entry_inode s d = ext2_get_inode (d_inode (mem s) d) s"

text \<open>
  \<open>dir_ok k A s n ds\<close>: inode \<open>n\<close> is a directory with the entries \<open>ds\<close>, all of which is kept by the
  heap, and for the copy of every name \<open>k\<close> cells are in stock.  \<open>tree_ok\<close> says so of a set of inode
  numbers that is closed under the subdirectories.
\<close>

definition dir_ok :: "nat \<Rightarrow> (u32 \<Rightarrow> chunk option) \<Rightarrow> 'a initrd_scheme \<Rightarrow> u32 \<Rightarrow> u32 list \<Rightarrow> bool" where
  "dir_ok k A s n ds \<longleftrightarrow>
     (let i = ext2_get_inode n s in
      is_dir (mem s) i \<and> dir_chain (mem s) (i_size (mem s) i) (ext2_get_inode_block i 0 s) 0 ds \<and>
      0 \<notin> set ds \<and> (\<forall>j < 128. kept A (i + of_nat j)) \<and>
      (\<forall>d \<in> set ds. (\<forall>j < 8 + unat (d_name_len (mem s) d). kept A (d + of_nat j)) \<and>
         (\<forall>j < 128. kept A (entry_inode s d + of_nat j)) \<and> stock A (entry_bin (mem s) d) k))"

definition tree_ok :: "nat \<Rightarrow> (u32 \<Rightarrow> chunk option) \<Rightarrow> 'a initrd_scheme \<Rightarrow> u32 set \<Rightarrow> (u32 \<Rightarrow> u32 list) \<Rightarrow> bool" where
  "tree_ok k A s N ents \<longleftrightarrow>
     (\<forall>j < 4. kept A (initrd_superblock s + 24 + of_nat j)) \<and>
     kept A (initrd_superblock s + 88) \<and> kept A (initrd_superblock s + 89) \<and>
     (\<forall>n \<in> N. dir_ok k A s n (ents n) \<and>
        (\<forall>d \<in> set (ents n). is_dir (mem s) (entry_inode s d) \<longrightarrow> d_inode (mem s) d \<in> N))"

text \<open>The entry a list of names leads to.\<close>

fun resolve :: "'a initrd_scheme \<Rightarrow> (u32 \<Rightarrow> u32 list) \<Rightarrow> u32 \<Rightarrow> u8 list list \<Rightarrow> u32 option" where
  "resolve s ents n [] = None"
| "resolve s ents n (t # ts) =
     (case find (\<lambda>d. dent_name (mem s) d = t) (ents n) of
        None \<Rightarrow> None
      | Some d \<Rightarrow> if ts = [] then Some d
                  else if is_dir (mem s) (entry_inode s d) then resolve s ents (d_inode (mem s) d) ts else None)"

section \<open>The disk stays the same\<close>

lemma inode_bytes:
  assumes byte: "\<forall>j < 128. m' (i + of_nat j) = m (i + of_nat j)"
  shows "i_mode m' i = i_mode m i" and "i_size m' i = i_size m i" and "i_block m' i 0 = i_block m i 0"
proof -
  have b: "m' (i + of_nat j) = m (i + of_nat j)" if "j < 128" for j using byte that by blast
  show "i_mode m' i = i_mode m i" using b [of 0] b [of 1] by (simp add: i_mode_def ld16_def)
  show "i_size m' i = i_size m i" using b [of 4] b [of 5] b [of 6] b [of 7] by (simp add: i_size_def ld32_def add.assoc)
  show "i_block m' i 0 = i_block m i 0"
    using b [of 40] b [of 41] b [of 42] b [of 43] by (simp add: i_block_def ld32_def add.assoc)
qed

lemma dir_chain_cong:
  assumes "\<forall>d \<in> set ds. d_rec_len m' d = d_rec_len m d"
  shows "dir_chain m' sz block off ds = dir_chain m sz block off ds"
  using assms by (induction ds arbitrary: off) auto

lemma tree_okD:
  assumes "tree_ok k A s N ents" and "n \<in> N"
  shows "dir_ok k A s n (ents n)"
    and "d \<in> set (ents n) \<Longrightarrow> is_dir (mem s) (entry_inode s d) \<Longrightarrow> d_inode (mem s) d \<in> N"
    and "kept A (initrd_superblock s + 88)" and "kept A (initrd_superblock s + 89)"
    and "\<And>j. j < 4 \<Longrightarrow> kept A (initrd_superblock s + 24 + of_nat j)"
  using assms unfolding tree_ok_def by blast+

lemma dir_okD:
  assumes "dir_ok k A s n ds"
  shows "is_dir (mem s) (ext2_get_inode n s)"
    and "dir_chain (mem s) (i_size (mem s) (ext2_get_inode n s)) (ext2_get_inode_block (ext2_get_inode n s) 0 s) 0 ds"
    and "0 \<notin> set ds" and "\<forall>j < 128. kept A (ext2_get_inode n s + of_nat j)"
    and "d \<in> set ds \<Longrightarrow> \<forall>j < 8 + unat (d_name_len (mem s) d). kept A (d + of_nat j)"
    and "d \<in> set ds \<Longrightarrow> \<forall>j < 128. kept A (entry_inode s d + of_nat j)"
    and "d \<in> set ds \<Longrightarrow> stock A (entry_bin (mem s) d) k"
  using assms unfolding dir_ok_def Let_def by blast+

text \<open>The state later, when only blocks of the heap were written.\<close>

lemma tree_same:
  fixes s s' :: "'a initrd_scheme"
  assumes tree: "tree_ok k A s N ents" and "n \<in> N" and only: "heap_only s s'" and same: "same_kept A (mem s) (mem s')"
  shows "ext2_get_inode x s' = ext2_get_inode x s"
    and "is_dir (mem s') (ext2_get_inode n s) = is_dir (mem s) (ext2_get_inode n s)"
    and "i_size (mem s') (ext2_get_inode n s) = i_size (mem s) (ext2_get_inode n s)"
    and "ext2_get_inode_block (ext2_get_inode n s) 0 s' = ext2_get_inode_block (ext2_get_inode n s) 0 s"
    and "d \<in> set (ents n) \<Longrightarrow> d_name_len (mem s') d = d_name_len (mem s) d"
    and "d \<in> set (ents n) \<Longrightarrow> d_rec_len (mem s') d = d_rec_len (mem s) d"
    and "d \<in> set (ents n) \<Longrightarrow> d_inode (mem s') d = d_inode (mem s) d"
    and "d \<in> set (ents n) \<Longrightarrow> dent_name (mem s') d = dent_name (mem s) d"
    and "d \<in> set (ents n) \<Longrightarrow> entry_inode s' d = entry_inode s d"
    and "d \<in> set (ents n) \<Longrightarrow> is_dir (mem s') (entry_inode s d) = is_dir (mem s) (entry_inode s d)"
    and "d \<in> set (ents n) \<Longrightarrow> entry_bin (mem s') d = entry_bin (mem s) d"
proof -
  note t = tree_okD [OF tree \<open>n \<in> N\<close>] and fields = heap_only_fields [OF only]
  note dir = dir_okD [OF t(1)]
  show inode: "ext2_get_inode x s' = ext2_get_inode x s" for x by (rule get_inode_same [OF only same t(3,4)])
  have "ld32 (mem s') (initrd_superblock s + 24) = ld32 (mem s) (initrd_superblock s + 24)"
    by (rule same_kept_ld32 [OF same t(5)])
  then have size: "block_size s' = block_size s" by (simp add: block_size_def sb_log_block_size_def fields)
  have bytes: "\<forall>j < 128. mem s' (ext2_get_inode n s + of_nat j) = mem s (ext2_get_inode n s + of_nat j)"
    using dir(4) same unfolding same_kept_def by blast
  note i = inode_bytes [OF bytes]
  show "is_dir (mem s') (ext2_get_inode n s) = is_dir (mem s) (ext2_get_inode n s)" by (simp add: is_dir_def i)
  show "i_size (mem s') (ext2_get_inode n s) = i_size (mem s) (ext2_get_inode n s)" by (rule i)
  show "ext2_get_inode_block (ext2_get_inode n s) 0 s' = ext2_get_inode_block (ext2_get_inode n s) 0 s"
    by (simp add: ext2_get_inode_block_def ext2_get_block_def i size fields)
  assume d: "d \<in> set (ents n)"
  note e = entry_same [OF same dir(5) [OF d]]
  show "d_name_len (mem s') d = d_name_len (mem s) d" "d_rec_len (mem s') d = d_rec_len (mem s) d"
    "d_inode (mem s') d = d_inode (mem s) d" "dent_name (mem s') d = dent_name (mem s) d" by (rule e)+
  show "entry_inode s' d = entry_inode s d" by (simp add: entry_inode_def inode e)
  show "entry_bin (mem s') d = entry_bin (mem s) d" by (simp add: entry_bin_def e)
  have "\<forall>j < 128. mem s' (entry_inode s d + of_nat j) = mem s (entry_inode s d + of_nat j)"
    using dir(6) [OF d] same unfolding same_kept_def by blast
  from inode_bytes(1) [OF this] show "is_dir (mem s') (entry_inode s d) = is_dir (mem s) (entry_inode s d)"
    by (simp add: is_dir_def)
qed

lemma tree_later:
  fixes s s' :: "'a initrd_scheme"
  assumes tree: "tree_ok k A s N ents" and only: "heap_only s s'" and same: "same_kept A (mem s) (mem s')"
    and grown: "grown A A' b"
    and cells: "\<And>n d. n \<in> N \<Longrightarrow> d \<in> set (ents n) \<Longrightarrow> k' + (if entry_bin (mem s) d = b then 1 else 0) \<le> k"
  shows "tree_ok k' A' s' N ents"
  unfolding tree_ok_def
proof (intro conjI ballI impI allI)
  note fields = heap_only_fields(1) [OF only]
  show "kept A' (initrd_superblock s' + 88)" "kept A' (initrd_superblock s' + 89)"
    "j < 4 \<Longrightarrow> kept A' (initrd_superblock s' + 24 + of_nat j)" for j
    using tree grown_kept [OF grown] unfolding tree_ok_def fields by blast+
  fix n assume n: "n \<in> N"
  note t = tree_okD [OF tree n] and ts = tree_same [OF tree n only same]
  note dir = dir_okD [OF t(1)]
  have "dir_chain (mem s') (i_size (mem s) (ext2_get_inode n s)) (ext2_get_inode_block (ext2_get_inode n s) 0 s) 0 (ents n)"
    using dir(2) dir_chain_cong [of "ents n" "mem s'" "mem s"] ts(6) by blast
  moreover have "stock A' (entry_bin (mem s) d) k'" if "d \<in> set (ents n)" for d
    using grown_stock [OF grown dir(7) [OF that]] cells [OF n that] by blast
  moreover have "\<forall>j < 128. kept A' (ext2_get_inode n s + of_nat j)" using dir(4) grown_kept [OF grown] by blast
  moreover have "\<forall>j < 8 + unat (d_name_len (mem s) d). kept A' (d + of_nat j)" "\<forall>j < 128. kept A' (entry_inode s d + of_nat j)"
    if "d \<in> set (ents n)" for d
    using dir(5,6) [OF that] grown_kept [OF grown] by blast+
  ultimately show "dir_ok k' A' s' n (ents n)"
    using dir(1,3) unfolding dir_ok_def Let_def ts(1) by (simp add: ts)
  fix d assume d: "d \<in> set (ents n)" "is_dir (mem s') (entry_inode s' d)"
  then show "d_inode (mem s') d \<in> N" using t(2) by (simp add: ts)
qed

lemma resolve_same:
  fixes s s' :: "'a initrd_scheme"
  assumes tree: "tree_ok k A s N ents" and only: "heap_only s s'" and same: "same_kept A (mem s) (mem s')"
  shows "n \<in> N \<Longrightarrow> resolve s' ents n ts = resolve s ents n ts"
proof (induction ts arbitrary: n)
  case (Cons t ts)
  note same = tree_same [OF tree Cons.prems only same]
  have "find (\<lambda>d. dent_name (mem s') d = t) (ents n) = find (\<lambda>d. dent_name (mem s) d = t) (ents n)"
    by (rule find_cong) (simp_all add: same(8))
  moreover have "resolve s' ents (d_inode (mem s') d) ts = resolve s ents (d_inode (mem s) d) ts"
    if "d \<in> set (ents n)" "is_dir (mem s) (entry_inode s d)" for d
    using Cons.IH [OF tree_okD(2) [OF tree Cons.prems that]] same(7) [OF that(1)] by simp
  moreover have "d \<in> set (ents n)" if "find (\<lambda>d. dent_name (mem s) d = t) (ents n) = Some d" for d
    using that by (auto simp: find_Some_iff)
  ultimately show ?case by (auto simp: same split: option.split)
qed simp

section \<open>Nodes of directories\<close>

text \<open>A node of the ram disk for the directory with inode \<open>n\<close>.\<close>

definition dir_node :: "(u32 \<Rightarrow> chunk option) \<Rightarrow> 'a initrd_scheme \<Rightarrow> u32 \<Rightarrow> u32 \<Rightarrow> bool" where
  "dir_node A s node n \<longleftrightarrow>
     (\<forall>f \<in> {FS_FLAGS, FS_INODE, FS_READDIR, FS_FINDDIR}. \<forall>j < 4. kept A (node + f + of_nat j)) \<and>
     ld32 (mem s) (node + FS_FLAGS) AND FS_DIRECTORY \<noteq> 0 \<and> ld32 (mem s) (node + FS_INODE) = n \<and>
     ld32 (mem s) (node + FS_READDIR) \<noteq> 0 \<and> ld32 (mem s) (node + FS_FINDDIR) = fun_addr s finddir_initrd_fn"

lemma dir_node_later:
  fixes s s' :: "'a initrd_scheme"
  assumes "dir_node A s node n" and "heap_only s s'" and same: "same_kept A (mem s) (mem s')"
    and "\<And>x. kept A x \<Longrightarrow> kept A' x"
  shows "dir_node A' s' node n"
proof -
  have "ld32 (mem s') (node + f) = ld32 (mem s) (node + f)" if "f \<in> {FS_FLAGS, FS_INODE, FS_READDIR, FS_FINDDIR}" for f
    using assms(1) that unfolding dir_node_def by (intro same_kept_ld32 [OF same]) blast
  then show ?thesis using assms(1,4) unfolding dir_node_def heap_only_fields(4) [OF assms(2)] by simp
qed

text \<open>Of the flags a node gets, that of a directory is set exactly by the bit of directories.\<close>

lemma directory_flag:
  "fold (step_flags mode)
     [(EXT2_S_IFREG, FS_FILE), (EXT2_S_IFDIR, FS_DIRECTORY), (EXT2_S_IFBLK, FS_BLOCKDEVICE),
      (EXT2_S_IFCHR, FS_CHARDEVICE), (EXT2_S_IFIFO, FS_PIPE), (EXT2_S_IFLNK, FS_SYMLINK)] 0 AND FS_DIRECTORY \<noteq> 0
   \<longleftrightarrow> mode AND EXT2_S_IFDIR = EXT2_S_IFDIR"
proof -
  have other: "step_flags mode (tb, flag) f AND FS_DIRECTORY = f AND FS_DIRECTORY" if "flag AND FS_DIRECTORY = 0" for tb flag f
    using that by (simp add: step_flags_def bit.conj_disj_distrib2)
  have "step_flags mode (EXT2_S_IFDIR, FS_DIRECTORY) f AND FS_DIRECTORY =
      (if mode AND EXT2_S_IFDIR = EXT2_S_IFDIR then FS_DIRECTORY else f AND FS_DIRECTORY)" for f
    by (simp add: step_flags_def bit.conj_disj_distrib2)
  moreover have "FS_FILE AND FS_DIRECTORY = 0" "FS_BLOCKDEVICE AND FS_DIRECTORY = 0" "FS_CHARDEVICE AND FS_DIRECTORY = 0"
    "FS_PIPE AND FS_DIRECTORY = 0" "FS_SYMLINK AND FS_DIRECTORY = 0" "FS_DIRECTORY \<noteq> 0"
    by (simp_all add: FS_FILE_def FS_BLOCKDEVICE_def FS_CHARDEVICE_def FS_PIPE_def FS_SYMLINK_def FS_DIRECTORY_def)
  ultimately show ?thesis by (simp add: other)
qed

lemma described_node:
  fixes s :: "'a initrd_scheme"
  assumes "node_describes (fun_addr s) m d i node (mem s)" and "heap s A" and "(node, 512) \<in> blocks A"
    and "fun_addr s readdir_initrd_fn \<noteq> 0"
  shows "is_dir m i \<Longrightarrow> dir_node A s node (d_inode m d)"
    and "\<not> is_dir m i \<Longrightarrow> finddir_fs node name s = ret (0, s)"
    and "open_fs node rd wr s = ret s"
proof -
  note d = assms(1) [unfolded node_describes_def]
  have dir: "ld32 (mem s) (node + FS_FLAGS) AND FS_DIRECTORY \<noteq> 0 \<longleftrightarrow> is_dir m i"
    using d directory_flag [of "i_mode m i"] unfolding is_dir_def by simp
  then show "\<not> is_dir m i \<Longrightarrow> finddir_fs node name s = ret (0, s)" by (simp add: finddir_fs_def)
  show "open_fs node rd wr s = ret s"
    using d by (simp add: open_fs_def node_fun_def call_if_def open_initrd_def Let_def)
  have "kept A (node + f + of_nat j)" if "f \<in> {FS_FLAGS, FS_INODE, FS_READDIR, FS_FINDDIR}" "j < 4" for f j
  proof -
    have "unat f + j < 512" using that by (auto simp: field_offsets)
    then have "in_range node 512 (node + of_nat (unat f + j))" by (intro in_range_offset) simp_all
    then have "in_range node (2 ^ (7 + 2)) (node + f + of_nat j)" by (simp add: add.assoc)
    then show ?thesis using block_bytes_kept [OF assms(2), of node 7] assms(3) by simp
  qed
  then show "is_dir m i \<Longrightarrow> dir_node A s node (d_inode m d)"
    using d dir assms(4) unfolding dir_node_def by simp
qed

section \<open>Following the components\<close>

text \<open>The components of the path as strings one after the other.\<close>

fun comps :: "(u32 \<Rightarrow> chunk option) \<Rightarrow> mem \<Rightarrow> u32 \<Rightarrow> u8 list list \<Rightarrow> bool" where
  "comps A m p [] \<longleftrightarrow> True"
| "comps A m p (t # ts) \<longleftrightarrow> cstr m p t \<and> (\<forall>j \<le> length t. kept A (p + of_nat j)) \<and>
     comps A m (p + (of_nat (length t) + 1)) ts"

lemma comps_later:
  assumes "comps A m p ts" and "same_kept A m m'" and "\<And>x. kept A x \<Longrightarrow> kept A' x"
  shows "comps A' m' p ts"
  using assms(1)
proof (induction ts arbitrary: p)
  case (Cons t ts)
  then have "cstr m' p t" using same_kept_cstr [OF assms(2), of t p] by simp
  then show ?case using Cons assms(3) by simp
qed simp

text \<open>One call of \<open>finddir_fs\<close> on a directory.\<close>

lemma finddir_dir:
  fixes s :: "'a initrd_scheme"
  assumes "heap s A" and "stock A 7 1" and tree: "tree_ok 1 A s N ents" and n: "n \<in> N" and node: "dir_node A s node n"
    and name: "cstr (mem s) p t" "\<forall>j \<le> length t. kept A (p + of_nat j)"
  shows "\<exists>out s'. finddir_fs node p s = ret (out, s') \<and> heap_only s s' \<and> same_kept A (mem s) (mem s') \<and>
    (case find (\<lambda>d. dent_name (mem s) d = t) (ents n) of
       None \<Rightarrow> out = 0 \<and> heap s' A
     | Some d \<Rightarrow> out \<noteq> 0 \<and> node_describes (fun_addr s) (mem s) d (entry_inode s d) out (mem s') \<and>
         (\<exists>A'. heap s' A' \<and> (out, 512) \<notin> blocks A \<and> blocks A' = insert (out, 512) (blocks A) \<and> grown A A' 7) \<and>
         (\<forall>x. in_range out 512 x \<longrightarrow> \<not> kept A x))"
proof -
  note t = tree_okD [OF tree n]
  note dir = dir_okD [OF t(1)]
  let ?i = "ext2_get_inode n s"
  have call: "finddir_fs node p s = finddir_initrd node p s"
    using node by (simp add: finddir_fs_def node_fun_def call_if_def dir_node_def)
  have inode: "?i = ext2_get_inode (ld32 (mem s) (node + FS_INODE)) s" using node by (simp add: dir_node_def)
  have "EXT2_S_IFDIR \<noteq> 0" by (simp add: EXT2_S_IFDIR_def)
  then have mode: "i_mode (mem s) ?i AND EXT2_S_IFDIR \<noteq> 0" using dir(1) by (simp add: is_dir_def)
  have "kept A (?i + 4 + of_nat j)" if "j < 4" for j
    using dir(4) [rule_format, of "4 + j"] that by (simp add: add.assoc)
  then have "lookup_kept A s ?i (ents n) p t"
    using dir(3,5,6) t(3,4) name unfolding lookup_kept_def walk_kept_def entry_inode_def by blast
  moreover have "ready A 7" using assms(2) by (rule stock_ready) simp
  moreover have "\<forall>d \<in> set (ents n). ready A (entry_bin (mem s) d)" using stock_ready [OF dir(7)] by simp
  ultimately obtain out s' where r: "finddir_initrd node p s = ret (out, s')" "heap_only s s'" "same_kept A (mem s) (mem s')"
    "case find (\<lambda>d. dent_name (mem s) d = t) (ents n) of
       None \<Rightarrow> out = 0 \<and> heap s' A
     | Some d \<Rightarrow> node_describes (fun_addr s) (mem s) d (ext2_get_inode (d_inode (mem s) d) s) out (mem s') \<and>
         (\<exists>A'. heap s' A' \<and> (out, 512) \<notin> blocks A \<and> blocks A' = insert (out, 512) (blocks A) \<and> grown A A' 7) \<and>
         (\<forall>x. in_range out 512 x \<longrightarrow> \<not> kept A x)"
    using finddir_lookup [OF assms(1) _ _ inode mode dir(2)] by blast
  show ?thesis
  proof (cases "find (\<lambda>d. dent_name (mem s) d = t) (ents n)")
    case None
    then show ?thesis using call r by simp
  next
    case (Some d)
    then obtain A' where A': "heap s' A'" "(out, 512) \<notin> blocks A" "blocks A' = insert (out, 512) (blocks A)" "grown A A' 7"
      "\<forall>x. in_range out 512 x \<longrightarrow> \<not> kept A x"
      using r(4) by auto
    then have "out \<noteq> 0" using block_valid(1) [OF A'(1), of out 512] by simp
    then show ?thesis using Some call r A' unfolding entry_inode_def by auto
  qed
qed

lemma resolve_entry:
  assumes "tree_ok k A s N ents"
  shows "n \<in> N \<Longrightarrow> resolve s ents n ts = Some d \<Longrightarrow> \<exists>n' \<in> N. d \<in> set (ents n')"
proof (induction ts arbitrary: n)
  case (Cons t ts)
  then obtain e where e: "find (\<lambda>d. dent_name (mem s) d = t) (ents n) = Some e" by (auto split: option.splits)
  then have "e \<in> set (ents n)" by (auto simp: find_Some_iff)
  then show ?case
    using Cons e tree_okD(2) [OF assms Cons.prems(1), of e] by (auto split: if_splits)
qed simp

lemma resolved_later:
  fixes s s1 :: "'a initrd_scheme"
  assumes tree: "tree_ok k A s N ents" and only: "heap_only s s1" and same: "same_kept A (mem s) (mem s1)"
    and n: "n \<in> N" and res: "resolve s ents n ts = Some d"
    and described: "node_describes (fun_addr s1) (mem s1) d (entry_inode s1 d) out m'"
  shows "node_describes (fun_addr s) (mem s) d (entry_inode s d) out m'"
proof -
  obtain n' where n': "n' \<in> N" "d \<in> set (ents n')" using resolve_entry [OF tree n res] by blast
  note dir = dir_okD(5,6) [OF tree_okD(1) [OF tree n'(1)] n'(2)]
  have "node_describes (fun_addr s) (mem s1) d (entry_inode s d) out m'"
    using described unfolding heap_only_fields(4) [OF only] tree_same(9) [OF tree n'(1) only same n'(2)] .
  then show ?thesis
    using dir same by (subst (asm) node_describes_cong [of "mem s"]) (simp_all add: same_kept_def)
qed

text \<open>What stays when the copy of the path is freed: the kept bytes outside of it.\<close>

definition kept_but :: "(u32 \<Rightarrow> chunk option) \<Rightarrow> u32 \<Rightarrow> nat \<Rightarrow> mem \<Rightarrow> mem \<Rightarrow> bool" where
  "kept_but A q l m m' \<longleftrightarrow> (\<forall>x. kept A x \<and> \<not> in_range q l x \<longrightarrow> m' x = m x)"

lemma same_kept_but: "same_kept A m m' \<Longrightarrow> (\<And>x. kept A x \<Longrightarrow> kept A' x) \<Longrightarrow> kept_but A' q l m' m'' \<Longrightarrow> kept_but A q l m m''"
  and same_kept_is_but: "same_kept A m m' \<Longrightarrow> kept_but A q l m m'"
  by (simp_all add: same_kept_def kept_but_def)

text \<open>Giving up: the copy of the path is freed.\<close>

lemma gives_up:
  fixes s s1 :: "'a initrd_scheme"
  assumes "heap s1 A1" and "(path, 2 ^ (b + 2)) \<in> blocks A1" and "b < 10" and "heap_only s s1"
    and "same_kept A (mem s) (mem s1)" and "\<And>x. kept A x \<Longrightarrow> kept A1 x" and "blocks A \<subseteq> blocks A1"
  shows "\<exists>s' A'. bind_run (free path s1) (\<lambda>s2. ret (0, s2)) = ret (0, s') \<and> heap s' A' \<and> heap_only s s' \<and>
    kept_but A path (2 ^ (b + 2)) (mem s) (mem s') \<and> blocks A - {(path, 2 ^ (b + 2))} \<subseteq> blocks A'"
proof -
  obtain s2 A2 where g: "free path s1 = ret s2" "heap s2 A2" "heap_only s1 s2"
    "blocks A2 = blocks A1 - {(path, 2 ^ (b + 2))}" "kept_but A1 path (2 ^ (b + 2)) (mem s1) (mem s2)"
    using give_back [OF assms(1-3)] unfolding kept_but_def by blast
  have "kept_but A path (2 ^ (b + 2)) (mem s) (mem s2)" by (rule same_kept_but [OF assms(5,6) g(5)])
  moreover have "heap_only s s2" by (rule heap_only_trans [OF assms(4) g(3)])
  moreover have "blocks A - {(path, 2 ^ (b + 2))} \<subseteq> blocks A2" using assms(7) g(4) by blast
  ultimately show ?thesis using g(1,2) by (intro exI [of _ s2] exI [of _ A2]) simp
qed

lemma walk_finds:
  fixes s :: "'a initrd_scheme"
  assumes "heap s A" and "stock A 7 (length ts)" and "tree_ok 1 A s N ents" and "n \<in> N" and "dir_node A s node n"
    and "comps A (mem s) p ts" and "ts \<noteq> []" and "fun_addr s readdir_initrd_fn \<noteq> 0"
    and "(path, 2 ^ (b + 2)) \<in> blocks A" and b: "b < 10"
  shows "\<exists>out s' A'. walk_path (length ts) path p node s = ret (out, s') \<and> heap s' A' \<and> heap_only s s' \<and>
    kept_but A path (2 ^ (b + 2)) (mem s) (mem s') \<and> blocks A - {(path, 2 ^ (b + 2))} \<subseteq> blocks A' \<and>
    (case resolve s ents n ts of
       None \<Rightarrow> out = 0
     | Some d \<Rightarrow> node_describes (fun_addr s) (mem s) d (entry_inode s d) out (mem s') \<and>
         (out, 512) \<in> blocks A' - blocks A \<and> (path, 2 ^ (b + 2)) \<in> blocks A' \<and> (\<forall>x. in_range out 512 x \<longrightarrow> \<not> kept A x))"
  using assms(1-9)
proof (induction ts arbitrary: A s n node p)
  case (Cons t ts)
  note hyps = Cons.prems
  have "stock A 7 1" using hyps(2) by (rule stock_mono) simp
  moreover have name: "cstr (mem s) p t" "\<forall>j \<le> length t. kept A (p + of_nat j)"
    "comps A (mem s) (p + (of_nat (length t) + 1)) ts" using hyps(6) by simp_all
  ultimately obtain out1 s1 where f: "finddir_fs node p s = ret (out1, s1)" "heap_only s s1" "same_kept A (mem s) (mem s1)"
    "case find (\<lambda>d. dent_name (mem s) d = t) (ents n) of
       None \<Rightarrow> out1 = 0 \<and> heap s1 A
     | Some d \<Rightarrow> out1 \<noteq> 0 \<and> node_describes (fun_addr s) (mem s) d (entry_inode s d) out1 (mem s1) \<and>
         (\<exists>A'. heap s1 A' \<and> (out1, 512) \<notin> blocks A \<and> blocks A' = insert (out1, 512) (blocks A) \<and> grown A A' 7) \<and>
         (\<forall>x. in_range out1 512 x \<longrightarrow> \<not> kept A x)"
    using finddir_dir [OF hyps(1) _ hyps(3-5)] by blast
  show ?case
  proof (cases "find (\<lambda>d. dent_name (mem s) d = t) (ents n)")
    case None
    then have z: "out1 = 0" "heap s1 A" using f(4) by simp_all
    then have "walk_path (length (t # ts)) path p node s = bind_run (free path s1) (\<lambda>s2. ret (0, s2))" using f(1) by simp
    then show ?thesis using None gives_up [OF z(2) hyps(9) b f(2,3)] by auto
  next
    case (Some d)
    then obtain A1 where d: "out1 \<noteq> 0" "node_describes (fun_addr s) (mem s) d (entry_inode s d) out1 (mem s1)"
      "heap s1 A1" "(out1, 512) \<notin> blocks A" "blocks A1 = insert (out1, 512) (blocks A)" "grown A A1 7"
      "\<forall>x. in_range out1 512 x \<longrightarrow> \<not> kept A x"
      using f(4) by auto
    from Some have ds: "d \<in> set (ents n)" by (auto simp: find_Some_iff)
    note fields = heap_only_fields(4) [OF f(2)]
    have at: "fun_addr s1 readdir_initrd_fn \<noteq> 0" "(out1, 512) \<in> blocks A1" "(path, 2 ^ (b + 2)) \<in> blocks A1"
      using hyps(8,9) d(5) fields by simp_all
    note node1 = described_node [OF d(2) [folded fields] d(3) at(2,1)]
    show ?thesis
    proof (cases "ts = []")
      case True
      then have "walk_path (length (t # ts)) path p node s = ret (out1, s1)"
        using f(1) d(1) node1(3) by simp
      moreover have "resolve s ents n (t # ts) = Some d" using Some True by simp
      moreover have "(out1, 512) \<in> blocks A1 - blocks A" using at(2) d(4) by blast
      ultimately show ?thesis
        using d(2,3,5,7) at(3) f(2) same_kept_is_but [OF f(3)] by (intro exI [of _ out1] exI [of _ s1] exI [of _ A1]) auto
    next
      case False
      note kept1 = grown_kept [OF d(6)]
      have same: "tree_ok 1 A1 s1 N ents"
      proof (rule tree_later [OF hyps(3) f(2,3) d(6)])
        fix n' d' assume "n' \<in> N" "d' \<in> set (ents n')"
        have "entry_bin (mem s) d' \<le> 6" unfolding entry_bin_def by (rule name_bin(2) [OF refl])
        then show "1 + (if entry_bin (mem s) d' = 7 then 1 else 0) \<le> (1 :: nat)" by simp
      qed
      have "comps A (mem s1) (p + (of_nat (length t) + 1)) ts" using comps_later [OF name(3) f(3)] by blast
      then have comps: "comps A1 (mem s1) (p + (of_nat (length t) + 1)) ts" using comps_later [OF _ same_kept_refl kept1] by blast
      have "cstr (mem s1) p t" using same_kept_cstr [OF f(3), of t p] name(1,2) by simp
      then have run: "walk_path (length (t # ts)) path p node s =
          walk_path (length ts) path (p + (of_nat (length t) + 1)) out1 s1"
        using f(1) d(1) False by (simp add: strlen_cstr lift_run_def)
      show ?thesis
      proof (cases "is_dir (mem s) (entry_inode s d)")
        case True
        then have n1: "d_inode (mem s) d \<in> N" using tree_okD(2) [OF hyps(3,4) ds] by blast
        have stock: "stock A1 7 (length ts)" using grown_stock [OF d(6) hyps(2)] by simp
        obtain out s' A' where w: "walk_path (length ts) path (p + (of_nat (length t) + 1)) out1 s1 = ret (out, s')"
          "heap s' A'" "heap_only s1 s'" "kept_but A1 path (2 ^ (b + 2)) (mem s1) (mem s')"
          "blocks A1 - {(path, 2 ^ (b + 2))} \<subseteq> blocks A'"
          "case resolve s1 ents (d_inode (mem s) d) ts of
             None \<Rightarrow> out = 0
           | Some e \<Rightarrow> node_describes (fun_addr s1) (mem s1) e (entry_inode s1 e) out (mem s') \<and>
               (out, 512) \<in> blocks A' - blocks A1 \<and> (path, 2 ^ (b + 2)) \<in> blocks A' \<and> (\<forall>x. in_range out 512 x \<longrightarrow> \<not> kept A1 x)"
          using Cons.IH [OF d(3) stock same n1 node1(1) [OF True] comps False at(1,3)] by blast
        have res: "resolve s ents n (t # ts) = resolve s1 ents (d_inode (mem s) d) ts"
          using Some False True resolve_same [OF hyps(3) f(2,3) n1] by simp
        have but: "kept_but A path (2 ^ (b + 2)) (mem s) (mem s')" using same_kept_but [OF f(3) kept1 w(4)] .
        have sub: "blocks A - {(path, 2 ^ (b + 2))} \<subseteq> blocks A'" using w(5) d(5) by blast
        have "case resolve s ents n (t # ts) of
             None \<Rightarrow> out = 0
           | Some e \<Rightarrow> node_describes (fun_addr s) (mem s) e (entry_inode s e) out (mem s') \<and>
               (out, 512) \<in> blocks A' - blocks A \<and> (path, 2 ^ (b + 2)) \<in> blocks A' \<and> (\<forall>x. in_range out 512 x \<longrightarrow> \<not> kept A x)"
          using w(6) resolved_later [OF hyps(3) f(2,3) n1] d(5) kept1 unfolding res resolve_same [OF hyps(3) f(2,3) n1]
          by (auto split: option.splits)
        then show ?thesis unfolding run using w(1,2) heap_only_trans [OF f(2) w(3)] but sub by blast
      next
        case False
        obtain k where k: "length ts = Suc k" using \<open>ts \<noteq> []\<close> by (cases ts) auto
        have "walk_path (length (t # ts)) path p node s = bind_run (free path s1) (\<lambda>s2. ret (0, s2))"
          unfolding run k by (simp add: node1(2) [OF False])
        moreover have "resolve s ents n (t # ts) = None" using Some False \<open>ts \<noteq> []\<close> by simp
        moreover have "blocks A \<subseteq> blocks A1" using d(5) by blast
        ultimately show ?thesis using gives_up [OF d(3) at(3) b f(2,3) kept1] by auto
      qed
    qed
  qed
qed simp

section \<open>Splitting the path\<close>

definition path_string :: "u8 list list \<Rightarrow> u8 list" where
  "path_string ts = concat (map (\<lambda>t. 0x2F # t) ts)"

lemma path_string_simps [simp]: "path_string [] = []" "path_string (t # ts) = 0x2F # t @ path_string ts"
  by (simp_all add: path_string_def)

lemma path_string_slashes: "\<forall>t \<in> set ts. 0x2F \<notin> set t \<Longrightarrow> count_list (path_string ts) 0x2F = length ts"
  by (induction ts) (simp_all add: count_list_append)

lemma path_string_length: "length ts \<le> length (path_string ts)"
  by (induction ts) simp_all

lemma path_string_set: "t \<in> set ts \<Longrightarrow> set t \<subseteq> set (path_string ts)"
  by (induction ts) auto

lemma in_range_Suc:
  assumes "n < 2 ^ 32"
  shows "in_range p (Suc n) x \<longleftrightarrow> x = p \<or> in_range (p + 1) n x"
proof
  assume "in_range p (Suc n) x"
  then obtain k where k: "k < Suc n" "x = p + of_nat k" by (rule in_range_obtain)
  show "x = p \<or> in_range (p + 1) n x"
  proof (cases k)
    case (Suc j)
    then have "x = p + 1 + of_nat j" "j < n" using k by simp_all
    then show ?thesis using assms by simp
  qed (use k in simp)
next
  assume "x = p \<or> in_range (p + 1) n x"
  then show "in_range p (Suc n) x"
  proof
    assume "in_range (p + 1) n x"
    then obtain k where "k < n" "x = p + 1 + of_nat k" by (rule in_range_obtain)
    then show ?thesis using assms in_range_offset [of "Suc n" "Suc k" p] by (simp add: add.assoc)
  qed simp
qed

lemma split_path_effect:
  assumes "\<And>k. k < length bs \<Longrightarrow> m (p + of_nat k) = bs ! k" and "unat p + length bs < 2 ^ 32"
  shows "split_path p (p + of_nat (length bs)) depth m =
    (depth + of_nat (count_list bs 0x2F), \<lambda>x. if in_range p (length bs) x \<and> m x = 0x2F then 0 else m x)"
  using assms
proof (induction bs arbitrary: p depth m)
  case Nil
  then show ?case by (subst split_path.simps) simp
next
  case (Cons c cs)
  have c: "m p = c" using Cons.prems(1) [of 0] by simp
  have p1: "unat (p + 1) = unat p + 1" using unat_add_small [of p 1] Cons.prems(2) by simp
  have "unat (p + of_nat (length (c # cs))) = unat p + length (c # cs)" using Cons.prems(2) by (intro unat_add_small)
  then have lt: "p < p + of_nat (length (c # cs))" by (simp add: word_less_nat_alt)
  have n: "length cs < 2 ^ 32" using Cons.prems(2) by simp
  have tail: "m (p + 1 + of_nat k) = cs ! k" if "k < length cs" for k
    using Cons.prems(1) [of "Suc k"] that by (simp add: algebra_simps)
  have away: "\<not> in_range (p + 1) (length cs) p"
  proof
    assume "in_range (p + 1) (length cs) p"
    then obtain k where k: "k < length cs" "p = p + 1 + of_nat k" by (rule in_range_obtain)
    then have "Suc k < 2 ^ 32" using Cons.prems(2) by simp
    then have "unat (of_nat (Suc k) :: u32) = Suc k" by (rule unat_of_nat_small)
    moreover have "(of_nat (Suc k) :: u32) = 0" using k(2) by (simp add: add.assoc)
    ultimately show False by simp
  qed
  then have apart: "p + 1 + of_nat k \<noteq> p" if "k < length cs" for k
    using in_range_offset [of "length cs" k "p + 1"] n that by (metis less_imp_le_nat)
  define m1 where "m1 = (if c = 0x2F then m(p := 0) else m)"
  have m1: "m1 (p + 1 + of_nat k) = cs ! k" if "k < length cs" for k
    using tail [OF that] apart [OF that] by (simp add: m1_def)
  have "split_path p (p + of_nat (length (c # cs))) depth m =
      split_path (p + 1) (p + 1 + of_nat (length cs)) (depth + (if c = 0x2F then 1 else 0)) m1"
    using lt c by (subst split_path.simps) (simp add: m1_def algebra_simps)
  also have "\<dots> = (depth + (if c = 0x2F then 1 else 0) + of_nat (count_list cs 0x2F),
      \<lambda>x. if in_range (p + 1) (length cs) x \<and> m1 x = 0x2F then 0 else m1 x)"
    using Cons.prems(2) p1 by (intro Cons.IH m1) simp_all
  also have "(\<lambda>x. if in_range (p + 1) (length cs) x \<and> m1 x = 0x2F then 0 else m1 x) =
      (\<lambda>x. if in_range p (length (c # cs)) x \<and> m x = 0x2F then 0 else m x)"
    using away c n by (auto simp: m1_def fun_eq_iff in_range_Suc)
  finally show ?case by simp
qed

lemma comps_of_path:
  assumes "\<And>k. k < length (path_string ts) \<Longrightarrow>
      m (p + of_nat k) = (if path_string ts ! k = 0x2F then 0 else path_string ts ! k)"
    and "m (p + of_nat (length (path_string ts))) = 0"
    and "\<And>k. k \<le> length (path_string ts) \<Longrightarrow> kept A (p + of_nat k)"
    and "\<forall>t \<in> set ts. 0x2F \<notin> set t \<and> 0 \<notin> set t"
  shows "comps A m (p + 1) ts"
  using assms
proof (induction ts arbitrary: p)
  case (Cons t ts)
  let ?q = "p + of_nat (Suc (length t))" and ?n = "length (path_string ts)"
  have at: "m (p + 1 + of_nat k) = t ! k" "t ! k \<noteq> 0" if "k < length t" for k
  proof -
    have t: "t ! k \<noteq> 0x2F" "t ! k \<noteq> 0" using Cons.prems(4) that by (auto simp: in_set_conv_nth)
    have "m (p + of_nat (Suc k)) = t ! k" using Cons.prems(1) [of "Suc k"] that t(1) by (simp add: nth_append)
    then show "m (p + 1 + of_nat k) = t ! k" by (simp add: algebra_simps)
    show "t ! k \<noteq> 0" by (rule t(2))
  qed
  have rest: "m (?q + of_nat k) = (if path_string ts ! k = 0x2F then 0 else path_string ts ! k)" if "k < ?n" for k
    using Cons.prems(1) [of "Suc (length t) + k"] that by (simp add: nth_append add.assoc)
  have last: "m (?q + of_nat ?n) = 0" using Cons.prems(2) by (simp add: algebra_simps)
  have "m ?q = 0"
  proof (cases ts)
    case (Cons u us)
    then show ?thesis using rest [of 0] by simp
  qed (use last in simp)
  then have "cstr m (p + 1) t" using at by (simp add: cstr_nth algebra_simps)
  moreover have "kept A (p + 1 + of_nat j)" if "j \<le> length t" for j
    using Cons.prems(3) [of "Suc j"] that by (simp add: algebra_simps)
  moreover have "comps A m (?q + 1) ts"
  proof (rule Cons.IH [OF rest last])
    show "kept A (?q + of_nat k)" if "k \<le> ?n" for k
      using Cons.prems(3) [of "Suc (length t) + k"] that by (simp add: add.assoc)
  qed (use Cons.prems(4) in auto)
  ultimately show ?case by (simp add: algebra_simps)
qed simp

section \<open>Opening\<close>

text \<open>The copy of the path after splitting: its components in a block of the heap.\<close>

lemma split_copy:
  fixes s1 :: "'a initrd_scheme" and ts :: "u8 list list"
  defines "ps \<equiv> path_string ts"
  assumes heap: "heap s1 A1" "(q, 2 ^ (b + 2)) \<in> blocks A1" "b < 10" and fits: "length ps < 2 ^ (b + 2)"
    and name: "cstr (mem s1) filename ps" "\<forall>j \<le> length ps. \<not> in_range q (2 ^ (b + 2)) (filename + of_nat j)"
    and slash: "\<forall>t \<in> set ts. 0x2F \<notin> set t"
  shows "\<exists>m. split_path q (q + of_nat (length ps)) 0 (memcpy (mem s1) q filename (of_nat (length ps))) = (of_nat (length ts), m) \<and>
    comps A1 (m(q + of_nat (length ps) := 0)) (q + 1) ts \<and>
    (\<forall>x. \<not> in_range q (2 ^ (b + 2)) x \<longrightarrow> (m(q + of_nat (length ps) := 0)) x = mem s1 x)"
proof -
  let ?n = "length ps" and ?f = "\<lambda>j. ps ! j"
  define l where "l = (2::nat) ^ (b + 2)"
  have end_block: "unat q + l \<le> 2 ^ 32" using small_block [OF heap] unfolding l_def by blast
  have l: "?n < l" "l < 2 ^ 32" using fits heap(3) power_strict_increasing [of "b + 2" 32 "2 :: nat"] by (simp_all add: l_def)
  have "memcpy (filled (mem s1) ?f q 0) (q + of_nat 0) filename (of_nat ?n) = filled (mem s1) ?f q (0 + ?n)"
    using name l by (intro memcpy_extends [where D = "{x. \<not> in_range q l x}" and n = l])
      (auto simp: within_def l_def cstr_nth)
  then have copy: "memcpy (mem s1) q filename (of_nat ?n) = filled (mem s1) ?f q ?n" by simp
  have small: "unat (of_nat j :: u32) = j" if "j \<le> ?n" for j using that l by (intro unat_of_nat_small) linarith
  define m where "m = (\<lambda>x. if in_range q ?n x \<and> filled (mem s1) ?f q ?n x = 0x2F then 0 else filled (mem s1) ?f q ?n x)"
  have "split_path q (q + of_nat ?n) 0 (filled (mem s1) ?f q ?n) = (0 + of_nat (count_list ps 0x2F), m)"
    unfolding m_def using end_block l small by (intro split_path_effect) (simp_all add: filled_def in_range_def)
  then have "split_path q (q + of_nat ?n) 0 (memcpy (mem s1) q filename (of_nat ?n)) = (of_nat (length ts), m)"
    unfolding copy using path_string_slashes [OF slash] by (simp add: ps_def)
  moreover have "comps A1 (m(q + of_nat ?n := 0)) (q + 1) ts"
  proof (rule comps_of_path [of ts, folded ps_def])
    show "(m(q + of_nat ?n := 0)) (q + of_nat k) = (if ps ! k = 0x2F then 0 else ps ! k)" if "k < ?n" for k
    proof -
      have "(of_nat k :: u32) \<noteq> of_nat ?n" using that l by (simp add: of_nat_inject_small)
      then show ?thesis using that small by (simp add: m_def filled_def in_range_def)
    qed
    show "kept A1 (q + of_nat k)" if "k \<le> ?n" for k
      using block_bytes_kept [OF heap(1,2), folded l_def] in_range_offset [of l k q] that l by simp
    show "\<forall>t \<in> set ts. 0x2F \<notin> set t \<and> 0 \<notin> set t"
      using slash cstr_no_NUL [OF name(1)] path_string_set by (fastforce simp: ps_def)
  qed simp
  moreover have "(m(q + of_nat ?n := 0)) x = mem s1 x" if x: "\<not> in_range q l x" for x
  proof -
    have "x \<noteq> q + of_nat ?n" using x l small [of ?n] by (auto simp: in_range_def)
    moreover have "\<not> in_range q ?n x" using x l(1) by (auto simp: in_range_def)
    ultimately show ?thesis by (simp add: m_def filled_def)
  qed
  ultimately show ?thesis unfolding l_def by blast
qed

text \<open>The bin of the copy.\<close>

definition path_bin :: "u8 list list \<Rightarrow> nat" where
  "path_bin ts = unat (klmalloc_bin_size (of_nat (length (path_string ts))))"

lemma kopen_copies:
  fixes s :: "'a initrd_scheme"
  assumes "heap s A" and "fs_root s \<noteq> 0"
    and name: "cstr (mem s) filename (path_string ts)" "\<forall>j \<le> length (path_string ts). kept A (filename + of_nat j)"
    and "ts \<noteq> []" and slash: "\<forall>t \<in> set ts. 0x2F \<notin> set t"
    and b: "path_bin ts = b" "b < 10" and fits: "length (path_string ts) < 2 ^ (b + 2)" and "stock A b 1"
  shows "\<exists>q s2 A1. kopen filename flags s = walk_path (length ts) q (q + 1) (fs_root s) s2 \<and> heap s2 A1 \<and>
    blocks A1 = insert (q, 2 ^ (b + 2)) (blocks A) \<and> (q, 2 ^ (b + 2)) \<notin> blocks A \<and> grown A A1 b \<and>
    (\<forall>x. in_range q (2 ^ (b + 2)) x \<longrightarrow> \<not> kept A x) \<and> heap_only s s2 \<and> same_kept A (mem s) (mem s2) \<and>
    comps A1 (mem s2) (q + 1) ts"
proof -
  let ?ps = "path_string ts" and ?len = "of_nat (length (path_string ts)) :: u32"
  have long: "length ?ps < 2 ^ 32" using name(1) by (rule cstr_length)
  then have len: "unat ?len = length ?ps" by (rule unat_of_nat_small)
  have "0 < length ts" using \<open>ts \<noteq> []\<close> by simp
  then have "0 < length ?ps" using path_string_length [of ts] by (rule order_less_le_trans)
  then have nz: "?len \<noteq> 0" using len by auto
  have ready: "ready A b" using stock_ready [OF \<open>stock A b 1\<close>] by simp
  have sz: "unat (klmalloc_bin_size ?len) = b" using b(1) by (simp add: path_bin_def)
  obtain q s1 A1 where q: "malloc ?len s = ret (q, s1)" "heap s1 A1" "heap_only s s1" "same_kept A (mem s) (mem s1)"
    "blocks A1 = insert (q, 2 ^ (b + 2)) (blocks A)" "grown A A1 b"
    "\<forall>x. in_range q (2 ^ (b + 2)) x \<longrightarrow> \<not> kept A x"
    using keep_cell [OF assms(1) ready nz sz b(2)] by blast
  have mine: "(q, 2 ^ (b + 2)) \<in> blocks A1" using q(5) by simp
  have name1: "cstr (mem s1) filename ?ps" using same_kept_cstr [OF q(4), of ?ps filename] name by simp
  have apart: "\<forall>j \<le> length ?ps. \<not> in_range q (2 ^ (b + 2)) (filename + of_nat j)" using q(7) name(2) by blast
  obtain m where m: "split_path q (q + ?len) 0 (memcpy (mem s1) q filename ?len) = (of_nat (length ts), m)"
    "comps A1 (m(q + ?len := 0)) (q + 1) ts" "\<forall>x. \<not> in_range q (2 ^ (b + 2)) x \<longrightarrow> (m(q + ?len := 0)) x = mem s1 x"
    using split_copy [OF q(2) mine b(2) fits name1 apart slash] by blast
  define s2 where "s2 = s1\<lparr>mem := m(q + ?len := 0)\<rparr>"
  have s2: "heap s2 A1" unfolding s2_def by (rule heap_write_block(1) [OF q(2) mine]) (use m(3) in blast)
  have only: "heap_only s s2" unfolding s2_def by (rule heap_only_trans [OF q(3) heap_only_mem])
  have same: "same_kept A (mem s) (mem s2)" using q(4,7) m(3) unfolding same_kept_def s2_def by (simp del: fun_upd_apply) metis
  have comps: "comps A1 (mem s2) (q + 1) ts" using m(2) by (simp add: s2_def)
  have "length ts < 2 ^ 32" using path_string_length [of ts] long by simp
  then have depth: "unat (of_nat (length ts) :: u32) = length ts" by (rule unat_of_nat_small)
  have "fs_root s1 = fs_root s" using heap_only_fields(5) [OF q(3)] .
  then have "kopen filename flags s = walk_path (length ts) q (q + 1) (fs_root s) s2"
    using assms(2) strlen_cstr [OF name(1)] q(1) m(1) depth by (simp add: kopen_def lift_run_def s2_def)
  moreover have "(q, 2 ^ (b + 2)) \<notin> blocks A"
    using block_bytes_kept [OF assms(1), of q b q] q(7) by (auto simp: in_range_def)
  ultimately show ?thesis using q(5-7) s2 only same comps by blast
qed

lemma kopen_lookup:
  fixes s :: "'a initrd_scheme"
  assumes "heap s A" and "tree_ok 2 A s N ents" and "n \<in> N" and "dir_node A s (fs_root s) n" and "fs_root s \<noteq> 0"
    and "fun_addr s readdir_initrd_fn \<noteq> 0"
    and "cstr (mem s) filename (path_string ts)" and "\<forall>j \<le> length (path_string ts). kept A (filename + of_nat j)"
    and "ts \<noteq> []" and "\<forall>t \<in> set ts. 0x2F \<notin> set t"
    and "path_bin ts < 10" and "length (path_string ts) < 2 ^ (path_bin ts + 2)"
    and "stock A (path_bin ts) 1" and "stock A 7 (length ts + 1)"
  shows "\<exists>out s' A'. kopen filename flags s = ret (out, s') \<and> heap s' A' \<and> heap_only s s' \<and>
    same_kept A (mem s) (mem s') \<and> blocks A \<subseteq> blocks A' \<and>
    (case resolve s ents n ts of
       None \<Rightarrow> out = 0
     | Some d \<Rightarrow> node_describes (fun_addr s) (mem s) d (entry_inode s d) out (mem s') \<and> (out, 512) \<in> blocks A' - blocks A \<and>
         (\<exists>p. (p, 2 ^ (path_bin ts + 2)) \<in> blocks A' - blocks A - {(out, 512)}) \<and> (\<forall>x. in_range out 512 x \<longrightarrow> \<not> kept A x))"
proof -
  define b where "b = path_bin ts"
  note hyps = assms [folded b_def]
  obtain q s2 A1 where k: "kopen filename flags s = walk_path (length ts) q (q + 1) (fs_root s) s2" "heap s2 A1"
    "blocks A1 = insert (q, 2 ^ (b + 2)) (blocks A)" "(q, 2 ^ (b + 2)) \<notin> blocks A" "grown A A1 b"
    "\<forall>x. in_range q (2 ^ (b + 2)) x \<longrightarrow> \<not> kept A x" "heap_only s s2" "same_kept A (mem s) (mem s2)"
    "comps A1 (mem s2) (q + 1) ts"
    using kopen_copies [OF hyps(1,5,7-10) b_def [symmetric] hyps(11-13)] by blast
  note kept1 = grown_kept [OF k(5)]
  have mine: "(q, 2 ^ (b + 2)) \<in> blocks A1" using k(3) by simp
  have tree: "tree_ok 1 A1 s2 N ents" by (rule tree_later [OF hyps(2) k(7,8,5)]) simp
  have node: "dir_node A1 s2 (fs_root s) n" by (rule dir_node_later [OF hyps(4) k(7,8) kept1])
  have stock: "stock A1 7 (length ts)" using grown_stock [OF k(5) hyps(14)] by simp
  have addr: "fun_addr s2 readdir_initrd_fn \<noteq> 0" using hyps(6) heap_only_fields(4) [OF k(7)] by simp
  obtain out s' A' where w: "walk_path (length ts) q (q + 1) (fs_root s) s2 = ret (out, s')" "heap s' A'" "heap_only s2 s'"
    "kept_but A1 q (2 ^ (b + 2)) (mem s2) (mem s')" "blocks A1 - {(q, 2 ^ (b + 2))} \<subseteq> blocks A'"
    "case resolve s2 ents n ts of
       None \<Rightarrow> out = 0
     | Some d \<Rightarrow> node_describes (fun_addr s2) (mem s2) d (entry_inode s2 d) out (mem s') \<and>
         (out, 512) \<in> blocks A' - blocks A1 \<and> (q, 2 ^ (b + 2)) \<in> blocks A' \<and> (\<forall>x. in_range out 512 x \<longrightarrow> \<not> kept A1 x)"
    using walk_finds [OF k(2) stock tree hyps(3) node k(9) hyps(9) addr mine hyps(11)] by blast
  have "heap_only s s'" by (rule heap_only_trans [OF k(7) w(3)])
  moreover have "same_kept A (mem s) (mem s')"
    using k(6,8) w(4) kept1 unfolding same_kept_def kept_but_def by metis
  moreover have "blocks A \<subseteq> blocks A'" using w(5) k(3,4) by blast
  moreover have "case resolve s ents n ts of
       None \<Rightarrow> out = 0
     | Some d \<Rightarrow> node_describes (fun_addr s) (mem s) d (entry_inode s d) out (mem s') \<and> (out, 512) \<in> blocks A' - blocks A \<and>
         (\<exists>p. (p, 2 ^ (b + 2)) \<in> blocks A' - blocks A - {(out, 512)}) \<and> (\<forall>x. in_range out 512 x \<longrightarrow> \<not> kept A x)"
  proof (cases "resolve s ents n ts")
    case None
    then show ?thesis using w(6) resolve_same [OF hyps(2) k(7,8) hyps(3)] by simp
  next
    case (Some d)
    then have d: "node_describes (fun_addr s2) (mem s2) d (entry_inode s2 d) out (mem s')"
      "(out, 512) \<in> blocks A' - blocks A1" "(q, 2 ^ (b + 2)) \<in> blocks A'"
      "\<forall>x. in_range out 512 x \<longrightarrow> \<not> kept A1 x"
      using w(6) resolve_same [OF hyps(2) k(7,8) hyps(3)] by simp_all
    have "(q, 2 ^ (b + 2)) \<in> blocks A' - blocks A - {(out, 512)}" using d(2,3) mine k(4) by auto
    moreover have "(out, 512) \<in> blocks A' - blocks A" using d(2) k(3) by blast
    moreover have "\<forall>x. in_range out 512 x \<longrightarrow> \<not> kept A x" using d(4) kept1 by blast
    ultimately show ?thesis using Some resolved_later [OF hyps(2) k(7,8) hyps(3) Some d(1)] by auto
  qed
  ultimately show ?thesis unfolding b_def [symmetric] using k(1) w(1,2) by auto
qed

text \<open>C7: \<open>kopen\<close> follows a path through the directories of the ram disk.  When every component but the
  last is a directory and the last is an entry of its directory, the result is a node that describes
  that file, in a new block of the heap; when some component is missing or a component before the
  last is not a directory, the result is a null pointer.  The heap invariant holds, and no byte of a
  block in use or outside of the heap changes.  The theorem also shows the leak: after a success
  the copy of the path stays a block in use.  The path must be shorter than the cell that holds its
  copy, since its terminator is written behind the \<open>strlen\<close> bytes asked for.\<close>

theorem kopen_finds:
  fixes s :: "'a initrd_scheme"
  assumes "heap s A" and "tree_ok 2 A s N ents" and "n \<in> N" and "dir_node A s (fs_root s) n" and "fs_root s \<noteq> 0"
    and "fun_addr s readdir_initrd_fn \<noteq> 0"
    and "cstr (mem s) filename (path_string ts)" and "\<forall>j \<le> length (path_string ts). kept A (filename + of_nat j)"
    and "ts \<noteq> []" and "\<forall>t \<in> set ts. 0x2F \<notin> set t"
    and "path_bin ts < 10" and "length (path_string ts) < 2 ^ (path_bin ts + 2)"
    and "stock A (path_bin ts) 1" and "stock A 7 (length ts + 1)"
  shows "\<exists>out s' A'. kopen filename flags s = ret (out, s') \<and> heap s' A' \<and> heap_only s s' \<and>
    same_kept A (mem s) (mem s') \<and> blocks A \<subseteq> blocks A' \<and>
    (case resolve s ents n ts of
       None \<Rightarrow> out = 0
     | Some d \<Rightarrow> node_describes (fun_addr s) (mem s) d (entry_inode s d) out (mem s') \<and> (out, 512) \<in> blocks A' - blocks A \<and>
         (\<exists>p. (p, 2 ^ (path_bin ts + 2)) \<in> blocks A' - blocks A - {(out, 512)}))"
proof (cases "resolve s ents n ts")
  case None
  then show ?thesis using kopen_lookup [OF assms, of flags] by simp
next
  case (Some d)
  then show ?thesis using kopen_lookup [OF assms, of flags] by simp blast
qed

lemma chunk_stock:
  assumes "A p = Some (Small b fs)" and "distinct fs" and "n \<le> length fs"
  shows "stock A b n"
proof -
  have "stock A b (length fs)"
    unfolding stock_def free_cells_def using assms(1,2) by (intro exI [of _ fs]) blast
  then show ?thesis using assms(3) by (rule stock_mono)
qed

lemma demo_stock: "stock disk_chunks 0 2" "stock disk_chunks 7 2" "stock disk_chunks 8 2"
proof -
  have cells: "2 \<le> length (page_cells p b)" if "1 \<le> cells_available b" for p b using that by (simp add: page_cells_def)
  show "stock disk_chunks 0 2"
    by (rule chunk_stock [of _ "0x10000" _ "page_cells 0x10000 0"])
      (auto simp: disk_chunks_def two_chunks_def cells_available_def intro!: distinct_page_cells cells)
  show "stock disk_chunks 7 2"
    by (rule chunk_stock [of _ "0x20000" _ "page_cells 0x20000 7"])
      (auto simp: disk_chunks_def two_chunks_def cells_available_def intro!: distinct_page_cells cells)
  show "stock disk_chunks 8 2"
    by (rule chunk_stock [of _ "0x11000" _ "page_cells 0x11000 8"])
      (auto simp: disk_chunks_def two_chunks_def cells_available_def intro!: distinct_page_cells cells)
qed

lemma demo_root_node:
  "ld32 (mem demo_lookup) 0x1B010C = 2" "ld32 (mem demo_lookup) 0x1B0110 = 2" "ld32 (mem demo_lookup) 0x1B012C = 0x1040"
  "ld32 (mem demo_lookup) 0x1B0130 = 0x1050" "i_mode (mem demo_lookup) 0x201900 = 0x81A4"
  "fun_addr demo_lookup finddir_initrd_fn = 0x1050" "fun_addr demo_lookup readdir_initrd_fn = 0x1040"
proof -
  show "ld32 (mem demo_lookup) 0x1B010C = 2" "ld32 (mem demo_lookup) 0x1B0110 = 2" "ld32 (mem demo_lookup) 0x1B012C = 0x1040"
    "ld32 (mem demo_lookup) 0x1B0130 = 0x1050" "i_mode (mem demo_lookup) 0x201900 = 0x81A4"
    by (simp_all add: i_mode_def half_of_word demo_lookup_word demo_words_def al4_def)
qed (simp_all add: demo_lookup_def demo_initrd_def kbd.defs initrd.defs)

lemma demo_path: "cstr (mem demo_lookup) 0x1C0000 (path_string [[0x72, 0x63]])"
proof -
  have b: "mem demo_lookup (0x1C0000 + of_nat k) = ucast (drop_bit (8 * k) (0x0063722F :: u32))" if "k < 4" for k
    using byte_of_word [OF that, of "mem demo_lookup" "0x1C0000"] by (simp add: demo_lookup_word demo_words_def al4_def)
  from b [of 0] b [of 1] b [of 2] b [of 3] show ?thesis by simp
qed

lemma demo_inodes:
  "entry_inode demo_lookup 0x202800 = 0x201480" "entry_inode demo_lookup 0x20280C = 0x201900"
  "is_dir (mem demo_lookup) 0x201480" "\<not> is_dir (mem demo_lookup) 0x201900"
  by (simp_all add: entry_inode_def demo_lookup_inode is_dir_def demo_lookup_disk demo_root_node EXT2_S_IFDIR_def)

lemma demo_dir_node: "dir_node disk_chunks demo_lookup (fs_root demo_lookup) 2"
proof -
  have "kept disk_chunks (0x1B0000 + f + of_nat j)" if "f \<in> {FS_FLAGS, FS_INODE, FS_READDIR, FS_FINDDIR}" "j < 4" for f j
    using that by (intro demo_lookup_kept_at) (auto simp: field_offsets)
  then show ?thesis
    by (simp add: dir_node_def demo_lookup_fields(10) field_offsets FS_DIRECTORY_def demo_root_node)
qed

lemma demo_tree: "tree_ok 2 disk_chunks demo_lookup {2} (\<lambda>_. [0x202800, 0x20280C])"
proof -
  let ?s = demo_lookup and ?A = "disk_chunks" and ?ds = "[0x202800, 0x20280C :: u32]"
  have kept: "kept ?A (p + of_nat j)" if "p \<in> {0x200418, 0x201480, 0x201900, 0x202800, 0x20280C}" "j < 128" for p j
    using that by (intro demo_lookup_kept_at) auto
  have "dir_ok 2 ?A ?s 2 ?ds"
    unfolding dir_ok_def Let_def
    using demo_lookup_chain demo_stock(1) kept
    by (simp add: demo_lookup_inode demo_inodes demo_lookup_bins demo_lookup_bytes del: dir_chain.simps)
  moreover have "kept ?A 0x200458" "kept ?A 0x200459" by (rule demo_lookup_kept(1); simp)+
  moreover have "\<forall>j < 4. kept ?A (0x200418 + of_nat j)" using kept by simp
  ultimately show ?thesis
    unfolding tree_ok_def by (simp add: demo_lookup_fields(3) demo_inodes demo_lookup_disk)
qed

theorem kopen_finds_witness:
  "\<exists>out s'. kopen 0x1C0000 0 demo_lookup = ret (out, s') \<and> cstr (mem s') out [0x72, 0x63] \<and>
    ld32 (mem s') (out + FS_INODE) = 11 \<and> ld32 (mem s') (out + FS_LENGTH) = 2000"
proof -
  let ?s = demo_lookup and ?A = "disk_chunks" and ?ents = "\<lambda>_ :: u32. [0x202800, 0x20280C :: u32]" and ?ts = "[[0x72, 0x63 :: u8]]"
  have bin: "path_bin ?ts = 0" using bin_size_value [of 1 3] by (simp add: path_bin_def)
  have kept: "\<forall>j \<le> length (path_string ?ts). kept ?A (0x1C0000 + of_nat j)" using demo_lookup_kept_at by simp
  have stock: "stock ?A (path_bin ?ts) 1" "stock ?A 7 (length ?ts + 1)"
    using demo_stock(2) stock_mono [OF demo_stock(1), of 1] by (simp_all add: bin numeral_2_eq_2)
  have "resolve ?s ?ents 2 ?ts = Some 0x20280C" by (simp add: demo_lookup_names)
  moreover note demo_inodes(2)
  moreover have "fs_root ?s \<noteq> 0" "fun_addr ?s readdir_initrd_fn \<noteq> 0" by (simp_all add: demo_lookup_fields demo_root_node)
  ultimately obtain out s' where "kopen 0x1C0000 0 ?s = ret (out, s')"
    "node_describes (fun_addr ?s) (mem ?s) 0x20280C 0x201900 out (mem s')"
    using kopen_finds [OF demo_lookup_heap demo_tree _ demo_dir_node _ _ demo_path kept _ _ _ _ stock, of 0] bin by auto
  then show ?thesis unfolding node_describes_def demo_lookup_names(2) by (auto simp: demo_lookup_disk)
qed

end
