(* ===== verification/Shell.thy ===== *)
theory Shell
  imports Vfs
begin

text \<open>
  The shell, \<^verbatim>\<open>kernel/core/shell.c\<close>.  The arrays \<^verbatim>\<open>path\<close> and \<^verbatim>\<open>buffer\<close> of the stack frame are at the
  addresses \<open>path\<close> and \<open>buffer\<close>; \<^verbatim>\<open>argv\<close> is the list of the token addresses.  The characters typed are an
  argument: \<^verbatim>\<open>kgets\<close> waits forever once they are used up.
\<close>

section \<open>Tokens\<close>

definition kputs :: "string \<Rightarrow> u32 list \<Rightarrow> 'a interrupts_scheme \<Rightarrow> 'a interrupts_scheme run" where
  "kputs fmt args s = kprintf (lit s fmt) args s"

partial_function (option) tokenize :: "u32 \<Rightarrow> u32 \<Rightarrow> u32 \<Rightarrow> mem \<Rightarrow> (u32 list \<times> mem) option" where
  "tokenize str delim save m =
     Option.bind (strtok_r m str delim save) (\<lambda>(pch, save1, m1).
       if pch = 0 then Some ([], m1)
       else Option.bind (tokenize 0 delim save1 m1) (\<lambda>(rest, m2). Some (pch # rest, m2)))"

section \<open>Commands\<close>

text \<open>The absolute name of an argument, in a block of 1024 bytes.\<close>

definition full_name :: "u32 \<Rightarrow> u32 \<Rightarrow> 'a initrd_scheme \<Rightarrow> (u32 \<times> 'a initrd_scheme) run" where
  "full_name path arg s =
     bind_run (malloc 1024 s) (\<lambda>(filename, s1).
       if mem s1 arg = 0x2F then bind_run (lift_run (strlen (mem s1) arg)) (\<lambda>alen.
         ret (filename, s1\<lparr>mem := memcpy (mem s1) filename arg (alen + 1)\<rparr>))
       else bind_run (lift_run (strlen (mem s1) path)) (\<lambda>plen.
         let m1 = memcpy (mem s1) filename path plen in
         bind_run (lift_run (strcmp m1 path (lit s1 ''/''))) (\<lambda>r.
         bind_run (lift_run (strlen m1 path)) (\<lambda>plen1.
           if r = 0 then bind_run (lift_run (strlen m1 arg)) (\<lambda>alen1.
             ret (filename, s1\<lparr>mem := memcpy m1 (filename + plen1) arg (alen1 + 1)\<rparr>))
           else let m2 = m1(filename + plen1 := 0x2F) in
             bind_run (lift_run (strlen m2 path)) (\<lambda>plen2.
             bind_run (lift_run (strlen m2 arg)) (\<lambda>alen2.
               ret (filename, s1\<lparr>mem := memcpy m2 (filename + plen2 + 1) arg (alen2 + 1)\<rparr>)))))))"

definition sh_cd :: "u32 \<Rightarrow> u32 list \<Rightarrow> u32 \<Rightarrow> 'a initrd_scheme \<Rightarrow> (u32 \<times> 'a initrd_scheme) run" where
  "sh_cd path argv node s =
     (if length argv < 2 then bind_run (kputs ''cd: argument expected\<newline>'' [] s) (\<lambda>s1. ret (node, s1))
      else bind_run (full_name path (argv ! 1) s) (\<lambda>(filename, s1).
           bind_run (kopen filename 0 s1) (\<lambda>(chd, s2).
             if chd \<noteq> 0 then
               (if ld32 (mem s2) (chd + FS_FLAGS) AND FS_DIRECTORY = 0 then
                  bind_run (kputs ''cd: %s is not a directory\<newline>'' [filename] s2) (\<lambda>s3. ret (node, s3))
                else bind_run (lift_run (strlen (mem s2) filename)) (\<lambda>n.
                  let m1 = memcpy (mem s2) path filename n in
                  bind_run (lift_run (strlen m1 filename)) (\<lambda>n1.
                    ret (chd, s2\<lparr>mem := m1(path + n1 := 0)\<rparr>))))
             else bind_run (kputs ''cd: could not change directory\<newline>'' [] s2) (\<lambda>s3. ret (node, s3)))))"

fun write_bytes :: "nat \<Rightarrow> u32 \<Rightarrow> 'a console_scheme \<Rightarrow> 'a console_scheme option" where
  "write_bytes 0 p s = Some s"
| "write_bytes (Suc n) p s = Option.bind (writech (mem s p) s) (write_bytes n (p + 1))"

definition sh_cat :: "u32 \<Rightarrow> u32 list \<Rightarrow> 'a initrd_scheme \<Rightarrow> 'a initrd_scheme run" where
  "sh_cat path argv s =
     (if length argv < 2 then kputs ''cat: argument expected\<newline>'' [] s
      else bind_run (full_name path (argv ! 1) s) (\<lambda>(filename, s1).
           bind_run (kopen filename 0 s1) (\<lambda>(file, s2).
             if file = 0 then kputs ''cat: could not open file `%s`\<newline>'' [argv ! 1] s2
             else bind_run (malloc (ld32 (mem s2) (file + FS_LENGTH) + 200) s2) (\<lambda>(bufferb, s3).
                  bind_run (read_fs file 0 (ld32 (mem s3) (file + FS_LENGTH)) bufferb s3) (\<lambda>(bytes_read, s4).
                  bind_run (lift_run (write_bytes (unat bytes_read) bufferb s4)) (\<lambda>s5.
                  bind_run (free bufferb s5) (close_fs file)))))))"

fun echo_args :: "u32 list \<Rightarrow> 'a interrupts_scheme \<Rightarrow> 'a interrupts_scheme run" where
  "echo_args [] s = ret s"
| "echo_args (a # as) s = bind_run (kputs ''%s '' [a] s) (echo_args as)"

definition sh_echo :: "u32 list \<Rightarrow> 'a interrupts_scheme \<Rightarrow> 'a interrupts_scheme run" where
  "sh_echo argv s = (if length argv < 2 then ret s else bind_run (echo_args (tl argv) s) (kputs ''\<newline>'' []))"

partial_function (option) list_entries :: "u32 \<Rightarrow> u32 \<Rightarrow> 'a initrd_scheme \<Rightarrow> 'a initrd_scheme run" where
  "list_entries node i s =
     bind_run (readdir_fs node i s) (\<lambda>x.
       if fst x = 0 then ret (snd x)
       else bind_run (kputs ''%s\<newline>'' [fst x] (snd x)) (\<lambda>s2.
            bind_run (free (fst x) s2) (\<lambda>s3. list_entries node (i + 1) s3)))"

definition sh_out :: "u32 list \<Rightarrow> 'a interrupts_scheme \<Rightarrow> 'a interrupts_scheme run" where
  "sh_out argv s =
     (if length argv < 3 then kputs ''Need a port and a character (both as numbers, please) to write...\<newline>'' [] s
      else bind_run (lift_run (atoi (mem s) (argv ! 1))) (\<lambda>port.
           bind_run (lift_run (atoi (mem s) (argv ! 2))) (\<lambda>val.
           bind_run (kputs ''Writing %d (%c) to port %d\<newline>'' [val, val AND 0xFF, port] s) (\<lambda>s1.
             ret (outportb (ucast port) (ucast val) s1)))))"

text \<open>The inner loop of the command \<^verbatim>\<open>serial\<close> evaluates \<^verbatim>\<open>strlen\<close> before every character.\<close>

partial_function (option) serial_chars :: "u32 \<Rightarrow> u32 \<Rightarrow> 'a console_scheme \<Rightarrow> 'a console_scheme option" where
  "serial_chars p j s =
     Option.bind (strlen (mem s) p) (\<lambda>n.
       if sint j < sint n then
         Option.bind (serial_send (mem s (p + j)) s) (\<lambda>s1.
         Option.bind (writech (mem s1 (p + j)) s1) (\<lambda>s2. serial_chars p (j + 1) s2))
       else Some s)"

fun serial_args :: "u32 list \<Rightarrow> 'a console_scheme \<Rightarrow> 'a console_scheme option" where
  "serial_args [] s = Some s"
| "serial_args (a # as) s =
     Option.bind (serial_chars a 0 s) (\<lambda>s1. Option.bind (writech 0x20 s1) (serial_args as))"

definition sh_serial :: "u32 list \<Rightarrow> 'a interrupts_scheme \<Rightarrow> 'a interrupts_scheme run" where
  "sh_serial argv s =
     (if length argv < 2 then kputs ''Need some arguments.\<newline>'' [] s
      else bind_run (lift_run (serial_args (tl argv) s)) (\<lambda>s1.
           bind_run (lift_run (serial_send 10 s1)) (\<lambda>s2. lift_run (writech 10 s2))))"

text \<open>The command \<^verbatim>\<open>crash\<close> dereferences an invalid pointer.\<close>

definition sh_crash :: "'a interrupts_scheme \<Rightarrow> 'a interrupts_scheme run" where
  "sh_crash s = bind_run (kputs ''Going to dereference some invalid pointer.\<newline>'' [] s)
     (\<lambda>s1. halt (Undefined ''*(int *)0xFFFFFFF''))"

section \<open>The loop\<close>

text \<open>The names the command is compared with, one after the other.\<close>

fun first_match :: "mem \<Rightarrow> u32 \<Rightarrow> (string \<Rightarrow> u32) \<Rightarrow> string list \<Rightarrow> string option option" where
  "first_match m cmd addr [] = Some None"
| "first_match m cmd addr (n # ns) =
     Option.bind (strcmp m cmd (addr n)) (\<lambda>r. if r = 0 then Some (Some n) else first_match m cmd addr ns)"

definition run_command :: "u32 \<Rightarrow> u32 list \<Rightarrow> u32 \<Rightarrow> 'a initrd_scheme \<Rightarrow> (u32 \<times> 'a initrd_scheme) run" where
  "run_command path argv node s =
     (let cmd = (case argv of [] \<Rightarrow> 0 | a # as \<Rightarrow> a) in
      bind_run (lift_run (first_match (mem s) cmd (lit s)
                  [''cd'', ''cat'', ''echo'', ''ls'', ''info'', ''help'', ''out'', ''serial'', ''crash'']))
        (\<lambda>which.
          if which = Some ''cd'' then sh_cd path argv node s
          else bind_run
            (if which = Some ''cat'' then sh_cat path argv s
             else if which = Some ''echo'' then sh_echo argv s
             else if which = Some ''ls'' then list_entries node 0 s
             else if which = Some ''info'' then kputs ''Flags: 0x%x\<newline>'' [ld32 (mem s) (node + FS_FLAGS)] s
             else if which = Some ''help'' then
               bind_run (kputs ''TODO: this\<newline>'' [] (settextcolor 9 0 s)) (\<lambda>s1. ret (resettextcolor s1))
             else if which = Some ''out'' then sh_out argv s
             else if which = Some ''serial'' then sh_serial argv s
             else if which = Some ''crash'' then sh_crash s
             else kputs ''Unrecognized command: %s\<newline>'' [cmd] s)
            (\<lambda>s1. ret (node, s1))))"

definition shell_step :: "u32 \<Rightarrow> u32 \<Rightarrow> u8 list \<Rightarrow> u32 \<Rightarrow> 'a initrd_scheme \<Rightarrow>
    (u8 list \<times> u32 \<times> 'a initrd_scheme) run" where
  "shell_step path buffer chars node s =
     bind_run (kputs ''MyaXOS %s> '' [path] s) (\<lambda>s1.
     bind_run (lift_run (kgets buffer 1023 chars s1)) (\<lambda>(n, rest, s2).
       if n < 1 then ret (rest, node, s2)
       else bind_run (lift_run (tokenize buffer (lit s2 '' '') 0 (mem s2))) (\<lambda>(argv, m).
            bind_run (run_command path argv node (s2\<lparr>mem := m\<rparr>)) (\<lambda>(node1, s3). ret (rest, node1, s3)))))"

partial_function (option) shell_loop :: "u32 \<Rightarrow> u32 \<Rightarrow> u8 list \<Rightarrow> u32 \<Rightarrow> 'a initrd_scheme \<Rightarrow> unit run" where
  "shell_loop path buffer chars node s =
     bind_run (shell_step path buffer chars node s) (\<lambda>x.
       shell_loop path buffer (fst x) (fst (snd x)) (snd (snd x)))"

text \<open>The initialiser of \<^verbatim>\<open>path\<close> also clears the rest of the array.\<close>

definition start_shell :: "u32 \<Rightarrow> u32 \<Rightarrow> u8 list \<Rightarrow> 'a initrd_scheme \<Rightarrow> unit run" where
  "start_shell path buffer chars s =
     shell_loop path buffer chars (fs_root s) (s\<lparr>mem := (memset (mem s) path 0 1024)(path := 0x2F)\<rparr>)"

end
