(* ===== verification/Boot.thy ===== *)
theory Boot
  imports Shell
begin

text \<open>
  Stopping the machine (\<^verbatim>\<open>kernel/core/panic.c\<close>), the boot information
  (\<^verbatim>\<open>kernel/core/multiboot.c\<close>), and the order in which \<^verbatim>\<open>kernel/main.c\<close> starts everything.
\<close>

section \<open>panic.c\<close>

definition panic_report :: "string \<Rightarrow> u32 \<Rightarrow> u32 \<Rightarrow> u32 \<Rightarrow> 'a interrupts_scheme \<Rightarrow> 'a interrupts_scheme run" where
  "panic_report fmt message file line s =
     bind_run (kputs fmt [message] (settextcolor 14 4 (s\<lparr>interrupt_flag := False\<rparr>))) (\<lambda>s1.
     bind_run (kputs ''File: %s\<newline>'' [file] s1) (kputs ''Line: %d\<newline>'' [line]))"

definition halt_and_catch_fire :: "u32 \<Rightarrow> u32 \<Rightarrow> u32 \<Rightarrow> 'a interrupts_scheme \<Rightarrow> 'a interrupts_scheme run" where
  "halt_and_catch_fire error_message file line s = panic_report ''PANIC! %s\<newline>'' error_message file line s"

definition assert_failed :: "u32 \<Rightarrow> u32 \<Rightarrow> u32 \<Rightarrow> 'a interrupts_scheme \<Rightarrow> 'a interrupts_scheme run" where
  "assert_failed file line desc s = panic_report ''ASSERTION FAILED! %s\<newline>'' desc file line s"

section \<open>multiboot.c\<close>

text \<open>The 24 words of \<^verbatim>\<open>struct multiboot\<close>, by their index.\<close>

definition mb_word :: "mem \<Rightarrow> u32 \<Rightarrow> u32 \<Rightarrow> u32" where
  "mb_word m p i = ld32 m (p + 4 * i)"

definition mb_flags :: "mem \<Rightarrow> u32 \<Rightarrow> u32" where "mb_flags m p = mb_word m p 0"
definition mb_mem_lower :: "mem \<Rightarrow> u32 \<Rightarrow> u32" where "mb_mem_lower m p = mb_word m p 1"
definition mb_mem_upper :: "mem \<Rightarrow> u32 \<Rightarrow> u32" where "mb_mem_upper m p = mb_word m p 2"
definition mb_cmdline :: "mem \<Rightarrow> u32 \<Rightarrow> u32" where "mb_cmdline m p = mb_word m p 4"
definition mb_mods_count :: "mem \<Rightarrow> u32 \<Rightarrow> u32" where "mb_mods_count m p = mb_word m p 5"
definition mb_mods_addr :: "mem \<Rightarrow> u32 \<Rightarrow> u32" where "mb_mods_addr m p = mb_word m p 6"
definition mb_boot_loader_name :: "mem \<Rightarrow> u32 \<Rightarrow> u32" where "mb_boot_loader_name m p = mb_word m p 16"

definition copy_multiboot :: "u32 \<Rightarrow> 'a kmm_scheme \<Rightarrow> u32 \<times> 'a kmm_scheme" where
  "copy_multiboot mboot_ptr s = (case kmalloc 96 s of (new_header, s1) \<Rightarrow>
     (new_header, s1\<lparr>mem := memcpy (mem s1) new_header mboot_ptr 96\<rparr>))"

text \<open>The lines of the header dump: a format and the index of the word it prints.\<close>

definition dump_fields :: "(string \<times> u32) list" where
  "dump_fields =
     [(''Flags : 0x%x '', 0), (''Mem Lo: 0x%x '', 1), (''Mem Hi: 0x%x '', 2), (''Boot d: 0x%x\<newline>'', 3),
      (''cmdlin: 0x%x '', 4), (''Mods  : 0x%x '', 5), (''Addr  : 0x%x '', 6), (''Syms  : 0x%x\<newline>'', 7),
      (''Syms  : 0x%x '', 8), (''Syms  : 0x%x '', 9), (''Syms  : 0x%x '', 10), (''MMap  : 0x%x\<newline>'', 11),
      (''Addr  : 0x%x '', 12), (''Drives: 0x%x '', 13), (''Addr  : 0x%x '', 14), (''Config: 0x%x\<newline>'', 15),
      (''Loader: 0x%x '', 16), (''APM   : 0x%x '', 17), (''VBE Co: 0x%x '', 18), (''VBE Mo: 0x%x\<newline>'', 19),
      (''VBE In: 0x%x '', 20), (''VBE se: 0x%x '', 21), (''VBE of: 0x%x '', 22), (''VBE le: 0x%x\<newline>'', 23)]"

fun dump_words :: "(string \<times> u32) list \<Rightarrow> u32 \<Rightarrow> 'a interrupts_scheme \<Rightarrow> 'a interrupts_scheme run" where
  "dump_words [] p s = ret s"
| "dump_words ((fmt, i) # fs) p s = bind_run (kputs fmt [mb_word (mem s) p i] s) (dump_words fs p)"

text \<open>
  The start of module \<open>i\<close> is read at \<^verbatim>\<open>(uint32_t*)mods_addr + 8 * i\<close>, where the pointer arithmetic
  counts in words, and its end at the byte offset \<^verbatim>\<open>8 * i + 4\<close>.
\<close>

definition module_start_at :: "u32 \<Rightarrow> u32 \<Rightarrow> u32" where
  "module_start_at mods i = mods + 4 * (8 * i)"

definition module_end_at :: "u32 \<Rightarrow> u32 \<Rightarrow> u32" where
  "module_end_at mods i = mods + 8 * i + 4"

partial_function (option) dump_modules :: "u32 \<Rightarrow> u32 \<Rightarrow> 'a interrupts_scheme \<Rightarrow> 'a interrupts_scheme run" where
  "dump_modules i p s =
     (if i < mb_mods_count (mem s) p then
        bind_run (kputs ''Module %d is at 0x%x:0x%x\<newline>''
            [i + 1, ld32 (mem s) (module_start_at (mb_mods_addr (mem s) p) i),
             ld32 (mem s) (module_end_at (mb_mods_addr (mem s) p) i)] s)
          (\<lambda>s1. dump_modules (i + 1) p s1)
      else ret s)"

definition when_flag :: "nat \<Rightarrow> u32 \<Rightarrow> ('a interrupts_scheme \<Rightarrow> 'a interrupts_scheme run) \<Rightarrow>
    'a interrupts_scheme \<Rightarrow> 'a interrupts_scheme run" where
  "when_flag n p f s = (if mb_flags (mem s) p AND push_bit n 1 \<noteq> 0 then f s else ret s)"

definition dump_multiboot :: "u32 \<Rightarrow> 'a interrupts_scheme \<Rightarrow> 'a interrupts_scheme run" where
  "dump_multiboot p s =
     bind_run (kputs ''MULTIBOOT header at 0x%x:\<newline>'' [p] (resettextcolor s)) (\<lambda>s1.
     bind_run (dump_words dump_fields p (settextcolor 7 0 s1)) (\<lambda>s2.
     bind_run (when_flag 2 p (\<lambda>s. kputs ''Started with: %s\<newline>'' [mb_cmdline (mem s) p] s) (resettextcolor s2)) (\<lambda>s3.
     bind_run (when_flag 9 p (\<lambda>s. kputs ''Booted from: %s\<newline>'' [mb_boot_loader_name (mem s) p] s) s3) (\<lambda>s4.
     bind_run (when_flag 0 p (\<lambda>s.
         bind_run (kputs ''%dkB lower memory\<newline>'' [mb_mem_lower (mem s) p] s) (\<lambda>s1.
         bind_run (kputs ''%dkB higher memory '' [mb_mem_upper (mem s1) p] s1) (\<lambda>s2.
           kputs ''(%dMB)\<newline>'' [mb_mem_upper (mem s2) p div 1024] s2))) s4) (\<lambda>s5.
       when_flag 3 p (\<lambda>s.
         bind_run (kputs ''Found %d module(s).\<newline>'' [mb_mods_count (mem s) p] s) (\<lambda>s1.
           if mb_mods_count (mem s1) p > 0 then dump_modules 0 p s1 else ret s1)) s5)))))"

section \<open>main.c\<close>

datatype bootmode = unknown | mrboots | multiboot

definition MULTIBOOT_EAX_MAGIC :: u32 where "MULTIBOOT_EAX_MAGIC = 0x2BADB002"

text \<open>The boot mode, the address of the ram disk and the state after the first conditional.\<close>

definition boot_modules :: "u32 \<Rightarrow> u32 \<Rightarrow> 'a kmm_scheme \<Rightarrow> bootmode \<times> u32 \<times> 'a kmm_scheme" where
  "boot_modules p mag s =
     (if mag = MULTIBOOT_EAX_MAGIC then
        let s1 = kmalloc_startat 0x200000 s in
        if mb_flags (mem s1) p AND push_bit 3 1 \<noteq> 0 then
          (if mb_mods_count (mem s1) p > 0 then
             let module_start = ld32 (mem s1) (mb_mods_addr (mem s1) p);
                 module_end = ld32 (mem s1) (mb_mods_addr (mem s1) p + 4)
             in case kmalloc (module_end - module_start) s1 of (ramdisk, s2) \<Rightarrow>
               (multiboot, ramdisk, s2\<lparr>mem := memcpy (mem s2) ramdisk module_start (module_end - module_start)\<rparr>)
           else (multiboot, 0, s1))
        else (mrboots, 0, s1)
      else (unknown, 0, s))"

definition core_install :: "u32 \<Rightarrow> 'a kmm_scheme \<Rightarrow> 'a kmm_scheme run" where
  "core_install p s =
     (let s1 = init_video (irq_install (isrs_install (idt_install (gdt_install s)))) in
      bind_run (timer_install s1) (\<lambda>s2.
      bind_run (keyboard_install s2) (\<lambda>s3.
      bind_run (serial_install s3) (\<lambda>s4.
      bind_run (paging_install (mb_mem_upper (mem s4) p) s4) (\<lambda>s5. ret (heap_install s5))))))"

definition main :: "u32 \<Rightarrow> u32 \<Rightarrow> u32 \<Rightarrow> u32 \<Rightarrow> u8 list \<Rightarrow> 'a initrd_scheme \<Rightarrow> unit run" where
  "main p mag path buffer chars s =
     (case boot_modules p mag s of (boot_mode, ramdisk, s1) \<Rightarrow>
      bind_run (core_install p s1) (\<lambda>s2.
      bind_run (kputs ''[%s %s]\<newline>'' [lit s2 ''MyaXOS'', lit s2 ''0.0.1''] (settextcolor 12 0 s2)) (\<lambda>s3.
      bind_run (if boot_mode = multiboot then
          bind_run (dump_multiboot p s3) (\<lambda>s4.
            if mb_flags (mem s4) p AND push_bit 3 1 \<noteq> 0 \<and> mb_mods_count (mem s4) p > 0
            then initrd_mount ramdisk 0 s4 else ret s4)
        else ret s3) (start_shell path buffer chars))))"

end
