(* ===== verification/Command.thy ===== *)
theory Command
  imports Path Boot
begin

text \<open>
  The parts of the shell that work on strings: splitting the typed line into words and making the
  absolute name of an argument, and changing the directory.
\<close>

section \<open>Words of a line\<close>

text \<open>One word: the string \<open>s1\<close> that follows it lies inside of the string, behind the word.\<close>

lemma strtok_r_step:
  fixes ds :: "u8 list"
  defines "D \<equiv> set ds"
  assumes d: "cstr m d ds" and p: "cstr m p s" and arg: "(if str0 = 0 then save else str0) = p"
    and nowrap: "unat p + length s < 2 ^ 32" and nz: "p \<noteq> 0" and w: "tok_word D s \<noteq> []"
  shows "\<exists>q p1 m1 s1 l. strtok_r m str0 d save = Some (q, p1, m1) \<and> q \<noteq> 0 \<and> cstr m1 q (tok_word D s) \<and> cstr m1 p1 s1 \<and>
    tokens D s = tok_word D s # tokens D s1 \<and> length s1 < length s \<and>
    p1 = p + of_nat l \<and> 0 < l \<and> l + length s1 = length s \<and>
    (\<forall>x. \<not> in_range p (length s) x \<longrightarrow> m1 x = m x) \<and>
    (\<forall>k \<le> length (tok_word D s). in_range p (Suc (length s)) (q + of_nat k)) \<and>
    (\<forall>k \<le> length (tok_word D s). s1 = [] \<or> \<not> in_range p1 (length s1) (q + of_nat k))"
proof -
  define q where "q = p + of_nat (length (tok_skip D s))"
  define e where "e = q + of_nat (length (tok_word D s))"
  let ?w = "tok_word D s" and ?r = "tok_rest D s" and ?l = "length (tok_skip D s) + length (tok_word D s)"
  note len = tok_length [of D s]
  have q: "unat q = unat p + length (tok_skip D s)"
    unfolding q_def using nowrap len by (intro unat_add_small) linarith
  then have qnz: "q \<noteq> 0" using nz by (auto simp: unat_eq_0)
  have wpos: "0 < length ?w" using w by simp
  have toks: "tokens D s = ?w # tokens D (tl ?r)" using w by (subst tokens.simps) simp
  have e: "e = p + of_nat ?l" by (simp add: e_def q_def)
  have call: "strtok_r m str0 d save = Some (if ?r = [] then (q, e, m) else (q, e + 1, m(e := 0)))"
    unfolding e_def q_def D_def by (rule strtok_r_token [OF d p w [unfolded D_def] arg nowrap])
  have inside: "\<forall>k \<le> length ?w. in_range p (Suc (length s)) (q + of_nat k)"
  proof (intro allI impI)
    fix k assume "k \<le> length ?w"
    then have "in_range p (Suc (length s)) (p + of_nat (length (tok_skip D s) + k))"
      using len nowrap by (intro in_range_offset) linarith+
    then show "in_range p (Suc (length s)) (q + of_nat k)" by (simp add: q_def add.assoc)
  qed
  show ?thesis
  proof (cases "?r = []")
    case True
    have "strtok_r m str0 d save = Some (q, e, m)" using call True by simp
    moreover have strs: "cstr m q ?w" "cstr m e []" using strtok_r_strings(1) [OF p True] by (simp_all add: q_def e_def)
    moreover have "tokens D s = ?w # tokens D []" using toks True by simp
    moreover have "?l + length ([] :: u8 list) = length s" "length ([] :: u8 list) < length s" "0 < ?l"
      using len wpos unfolding True list.size by linarith+
    ultimately show ?thesis using qnz e inside by blast
  next
    case False
    let ?m1 = "m(e := 0)" and ?p1 = "e + 1" and ?s1 = "tl ?r"
    have strs: "cstr ?m1 q ?w" "cstr ?m1 ?p1 ?s1" using strtok_r_strings(2) [OF p False] by (simp_all add: q_def e_def)
    have ls: "length ?r = Suc (length ?s1)" using False by (cases ?r) simp_all
    then have sum: "Suc ?l + length ?s1 = length s" using len by linarith
    have p1: "?p1 = p + of_nat (Suc ?l)" unfolding e by (simp add: algebra_simps)
    have "in_range p (length s) e" unfolding e using sum nowrap by (intro in_range_offset) linarith+
    then have frame: "\<forall>x. \<not> in_range p (length s) x \<longrightarrow> ?m1 x = m x" by auto
    have "unat ?p1 = unat p + Suc ?l" unfolding p1 using sum nowrap by (intro unat_add_small) linarith
    then have off: "\<not> in_range ?p1 (length ?s1) (q + of_nat k)" if "k \<le> length ?w" for k
      using that sum nowrap q by (intro range_apart [where l = "Suc (length ?w)"]) linarith+
    have "strtok_r m str0 d save = Some (q, ?p1, ?m1)" using call False by simp
    moreover have "length ?s1 < length s" "0 < Suc ?l" using sum by linarith+
    ultimately show ?thesis using qnz strs toks p1 sum frame off inside by blast
  qed
qed

text \<open>The string \<open>w\<close> at \<open>q\<close> lies, terminator included, in the \<open>n\<close> bytes at \<open>p\<close>.\<close>

definition word_in :: "mem \<Rightarrow> u32 \<Rightarrow> nat \<Rightarrow> u32 \<Rightarrow> u8 list \<Rightarrow> bool" where
  "word_in m p n q w \<longleftrightarrow> cstr m q w \<and> (\<forall>k \<le> length w. in_range p n (q + of_nat k))"

text \<open>All words of a string are found, each one terminated; nothing outside of the string is written.\<close>

lemma tokenize_all:
  assumes "cstr m d ds" and "cstr m p s" and "(if str0 = 0 then save else str0) = p"
    and "unat p + length s < 2 ^ 32" and "p \<noteq> 0" and "apart_from_string p s d ds"
  shows "\<exists>argv m'. tokenize str0 d save m = Some (argv, m') \<and> 0 \<notin> set argv \<and>
    list_all2 (word_in m' p (Suc (length s))) argv (tokens (set ds) s) \<and> (\<forall>x. \<not> in_range p (length s) x \<longrightarrow> m' x = m x)"
  using assms
proof (induction "length s" arbitrary: s m p str0 save rule: less_induct)
  case less
  note hyps = less.prems
  let ?D = "set ds"
  show ?case
  proof (cases "tok_word ?D s = []")
    case True
    have "strtok_r m str0 d save = Some (0, p + of_nat (length s), m)" by (rule strtok_r_none [OF hyps(1,2) True hyps(3)])
    then show ?thesis using True by (subst tokenize.simps) (simp add: tokens_Nil_iff)
  next
    case False
    obtain q p1 m1 s1 l where w: "strtok_r m str0 d save = Some (q, p1, m1)" "q \<noteq> 0" "cstr m1 q (tok_word ?D s)"
      "cstr m1 p1 s1" "tokens ?D s = tok_word ?D s # tokens ?D s1" "length s1 < length s"
      "p1 = p + of_nat l" "0 < l" "l + length s1 = length s" "\<forall>x. \<not> in_range p (length s) x \<longrightarrow> m1 x = m x"
      "\<forall>k \<le> length (tok_word ?D s). in_range p (Suc (length s)) (q + of_nat k)"
      "\<forall>k \<le> length (tok_word ?D s). s1 = [] \<or> \<not> in_range p1 (length s1) (q + of_nat k)"
      using strtok_r_step [OF hyps(1-5) False] by blast
    have sub: "in_range p (length s + i) x" if x: "in_range p1 (length s1 + i) x" and i: "i \<le> 1" for x i
    proof -
      obtain j where j: "j < length s1 + i" "x = p1 + of_nat j" using x by (rule in_range_obtain)
      then have "x = p + of_nat (l + j)" "l + j < length s + i" using w(7,9) by (simp_all add: algebra_simps)
      then show ?thesis using hyps(4) i by (simp only:) (rule in_range_offset; simp)
    qed
    have "unat p1 = unat p + l" unfolding w(7) using w(9) hyps(4) by (intro unat_add_small) linarith
    then have next_ok: "unat p1 + length s1 < 2 ^ 32" "unat p1 \<noteq> 0" using w(8,9) hyps(4) by linarith+
    then have nz1: "p1 \<noteq> 0" by auto
    have "m1 (d + of_nat k) = m (d + of_nat k)" if k: "k \<le> length ds" for k
    proof -
      have "\<not> in_range p (length s) (d + of_nat k)"
        using hyps(6) k in_range_mono [of p "length s" "d + of_nat k" "Suc (length s)"] by (auto simp: apart_from_string_def)
      then show ?thesis using w(10) by simp
    qed
    then have d1: "cstr m1 d ds" using hyps(1) cstr_cong [of ds m d m1] by simp
    have apart1: "apart_from_string p1 s1 d ds" using hyps(6) sub [of 1] unfolding apart_from_string_def by auto
    obtain argv m' where r: "tokenize 0 d p1 m1 = Some (argv, m')" "0 \<notin> set argv"
      "list_all2 (word_in m' p1 (Suc (length s1))) argv (tokens ?D s1)" "\<forall>x. \<not> in_range p1 (length s1) x \<longrightarrow> m' x = m1 x"
      using less.hyps [OF w(6) d1 w(4) _ next_ok(1) nz1 apart1, of 0 p1] by auto
    have "tokenize str0 d save m = Some (q # argv, m')" using w(1,2) r(1) by (subst tokenize.simps) simp
    moreover have "m' (q + of_nat k) = m1 (q + of_nat k)" if "k \<le> length (tok_word ?D s)" for k
      using that w(12) r(4) by (cases "s1 = []") simp_all
    then have "word_in m' p (Suc (length s)) q (tok_word ?D s)"
      using w(3,11) cstr_cong [of "tok_word ?D s" m1 q m'] by (simp add: word_in_def)
    moreover have "list_all2 (word_in m' p (Suc (length s))) argv (tokens ?D s1)"
      using r(3) by (rule list_all2_mono) (use sub [of 1] in \<open>simp add: word_in_def\<close>)
    moreover have "m' x = m x" if x: "\<not> in_range p (length s) x" for x
    proof -
      have "\<not> in_range p1 (length s1) x" using sub [of 0 x] x by auto
      then show ?thesis using r(4) w(10) x by simp
    qed
    ultimately show ?thesis using r(2) w(2,5) by (intro exI [of _ "q # argv"] exI [of _ m']) simp
  qed
qed

text \<open>C13: The shell splits the line that was typed at its spaces: \<open>argv\<close> lists the addresses of all words
  of the line in order, none of them null, each one terminated inside the line buffer, and no byte
  outside of the line is written.\<close>

theorem tokenize_words:
  assumes "cstr m d ds" and "cstr m p s" and "unat p + length s < 2 ^ 32" and "p \<noteq> 0" and "apart_from_string p s d ds"
  shows "\<exists>argv m'. tokenize p d save m = Some (argv, m') \<and> 0 \<notin> set argv \<and>
    list_all2 (cstr m') argv (tokens (set ds) s) \<and> (\<forall>x. \<not> in_range p (length s) x \<longrightarrow> m' x = m x)"
proof -
  obtain argv m' where r: "tokenize p d save m = Some (argv, m')" "0 \<notin> set argv"
    "list_all2 (word_in m' p (Suc (length s))) argv (tokens (set ds) s)" "\<forall>x. \<not> in_range p (length s) x \<longrightarrow> m' x = m x"
    using tokenize_all [OF assms(1,2) _ assms(3-5), of p save] assms(4) by auto
  have "list_all2 (cstr m') argv (tokens (set ds) s)"
    using r(3) by (rule list_all2_mono) (simp add: word_in_def)
  with r show ?thesis by blast
qed

theorem tokenize_words_witness:
  "\<exists>argv m'. tokenize 16 32 0 words_string = Some (argv, m') \<and> list_all2 (cstr m') argv [[0x61], [0x62]]"
proof -
  have "tokens {0x20} [0x20, 0x61, 0x20, 0x62] = [[0x61 :: u8], [0x62]]"
    by (simp add: tokens.simps tok_word_def tok_rest_def)
  then show ?thesis
    using tokenize_words [of words_string 32 "[0x20]" 16 "[0x20, 0x61, 0x20, 0x62]" 0]
    by (auto simp: words_string_def apart_from_string_def in_range_def le_Suc_eq)
qed

section \<open>The name of an argument\<close>

text \<open>The absolute name: the argument itself, or the working directory, a slash and the argument.\<close>

definition abs_name :: "u8 list \<Rightarrow> u8 list \<Rightarrow> u8 list" where
  "abs_name ps as =
     (if as \<noteq> [] \<and> hd as = 0x2F then as else if ps = [0x2F] then ps @ as else ps @ 0x2F # as)"

lemma filled_snoc:
  assumes "n < 2 ^ 32"
  shows "(filled m f q n)(q + of_nat n := f n) = filled m f q (Suc n)"
proof
  fix x
  have n: "unat (of_nat n :: u32) = n" using assms by (rule unat_of_nat_small)
  have "in_range q (Suc n) x \<longleftrightarrow> x = q + of_nat n \<or> in_range q n x"
  proof
    assume "in_range q (Suc n) x"
    then obtain k where "k < Suc n" "x = q + of_nat k" by (rule in_range_obtain)
    then show "x = q + of_nat n \<or> in_range q n x" using assms by (cases "k = n") simp_all
  qed (use n in \<open>auto simp: in_range_def\<close>)
  then show "((filled m f q n)(q + of_nat n := f n)) x = filled m f q (Suc n) x" using n by (auto simp: filled_def)
qed

lemma filled_string:
  assumes "0 \<notin> set t" and "length t < 2 ^ 32"
  shows "cstr (filled m (\<lambda>j. (t @ [0]) ! j) q (Suc (length t))) q t"
proof -
  have "filled m (\<lambda>j. (t @ [0]) ! j) q (Suc (length t)) (q + of_nat k) = (t @ [0]) ! k" if "k \<le> length t" for k
  proof -
    have "unat (of_nat k :: u32) = k" using that assms(2) by (intro unat_of_nat_small) simp
    then show ?thesis using that by (simp add: filled_def in_range_def)
  qed
  then show ?thesis using assms(1) by (auto simp: cstr_nth nth_append in_set_conv_nth)
qed

text \<open>Copying a string into a buffer that does not overlap it.\<close>

lemma copy_string:
  assumes "cstr m p t" and "\<forall>j \<le> length t. \<not> in_range q l (p + of_nat j)" and "k \<le> Suc (length t)"
    and "c + k \<le> l" "l < 2 ^ 32" and "\<And>j. j < k \<Longrightarrow> f (c + j) = (t @ [0]) ! j"
  shows "memcpy (filled m f q c) (q + of_nat c) p (of_nat k) = filled m f q (c + k)"
proof (rule memcpy_extends [where D = "{x. \<not> in_range q l x}" and n = l])
  show "within {x. \<not> in_range q l x} p k" using assms(2,3) by (simp add: within_def)
  show "m (p + of_nat j) = f (c + j)" if "j < k" for j
    using assms(1,3) assms(6) [OF that] that by (cases "j = length t") (auto simp: cstr_nth nth_append)
qed (use assms(4,5) in auto)

text \<open>The memory the shell reads while it fills the new block.\<close>

lemma filled_cstr:
  assumes "cstr m p t" and "\<forall>j \<le> length t. \<not> in_range q l (p + of_nat j)" and "c \<le> l"
  shows "cstr (filled m f q c) p t"
proof -
  have "filled m f q c (p + of_nat k) = m (p + of_nat k)" if "k \<le> length t" for k
    using assms(2,3) that in_range_mono [of q c _ l] unfolding filled_def by auto
  then show ?thesis using assms(1) cstr_cong [of t "filled m f q c" p m] by simp
qed

lemma full_name_fills:
  fixes s1 :: "'a initrd_scheme"
  assumes run: "malloc 1024 s = ret (q, s1)" and path: "cstr (mem s1) path ps" and arg: "cstr (mem s1) arg as"
    and slash: "cstr (mem s1) (lit s1 ''/'') [0x2F]"
    and apart: "\<forall>j \<le> length ps. \<not> in_range q 1024 (path + of_nat j)" "\<forall>j \<le> length as. \<not> in_range q 1024 (arg + of_nat j)"
      "\<forall>j \<le> length [0x2F :: u8]. \<not> in_range q 1024 (lit s1 ''/'' + of_nat j)"
    and fits: "length (abs_name ps as) < 1024"
  shows "full_name path arg s = ret (q, s1\<lparr>mem := filled (mem s1) (\<lambda>j. (abs_name ps as @ [0]) ! j) q (Suc (length (abs_name ps as)))\<rparr>)"
proof -
  define f where "f = (\<lambda>j. (abs_name ps as @ [0]) ! j)"
  let ?F = "filled (mem s1) f q"
  have slash_first: "mem s1 arg = 0x2F \<longleftrightarrow> as \<noteq> [] \<and> hd as = 0x2F" using arg by (cases as) auto
  note lens = filled_cstr [OF path apart(1)] filled_cstr [OF arg apart(2)] filled_cstr [OF slash apart(3)]
  show ?thesis
  proof (cases "as \<noteq> [] \<and> hd as = 0x2F")
    case True
    then have abs: "abs_name ps as = as" by (auto simp: abs_name_def)
    have "memcpy (?F 0) (q + of_nat 0) arg (of_nat (Suc (length as))) = ?F (0 + Suc (length as))"
      using fits by (intro copy_string [OF arg apart(2)]) (simp_all add: f_def abs)
    then show ?thesis
      using run True slash_first strlen_cstr [OF arg] by (simp add: full_name_def lift_run_def f_def abs add.commute)
  next
    case False
    then have no: "mem s1 arg \<noteq> 0x2F" using slash_first by blast
    from False have abs: "abs_name ps as = (if ps = [0x2F] then ps @ as else ps @ 0x2F # as)" by (auto simp: abs_name_def)
    have lp: "length ps < 1024" using fits by (simp add: abs split: if_splits)
    have "memcpy (?F 0) (q + of_nat 0) path (of_nat (length ps)) = ?F (0 + length ps)"
      using lp by (intro copy_string [OF path apart(1)]) (auto simp: f_def abs nth_append)
    then have m1: "memcpy (mem s1) q path (of_nat (length ps)) = ?F (length ps)" by simp
    have cmp: "strcmp (?F (length ps)) path (lit s1 ''/'') = Some (strcmp_spec ps [0x2F])"
      using lp by (intro strcmp_cstr lens) simp_all
    have eq: "strcmp_spec ps [0x2F] = 0 \<longleftrightarrow> ps = [0x2F]" using cstr_no_NUL [OF path] by simp
    have n: "strlen (?F c) path = Some (of_nat (length ps))" "strlen (?F c) arg = Some (of_nat (length as))" if "c \<le> 1024" for c
      using that by (intro strlen_cstr lens; simp)+
    show ?thesis
    proof (cases "ps = [0x2F]")
      case True
      then have abs1: "abs_name [0x2F] as = 0x2F # as" using abs by simp
      have "memcpy (?F (length ps)) (q + of_nat (length ps)) arg (of_nat (Suc (length as))) = ?F (length ps + Suc (length as))"
        using fits True by (intro copy_string [OF arg apart(2)]) (simp_all add: f_def abs1 nth_append)
      then show ?thesis
        unfolding f_def [symmetric] using run no strlen_cstr [OF path] m1 cmp eq n [of "length ps"] lp True
        by (simp add: full_name_def lift_run_def Let_def abs1 add.commute)
    next
      case neq: False
      have m2: "(?F (length ps))(q + of_nat (length ps) := 0x2F) = ?F (Suc (length ps))"
        using filled_snoc [of "length ps" "mem s1" f q] lp neq by (simp add: f_def abs nth_append)
      have "memcpy (?F (Suc (length ps))) (q + of_nat (Suc (length ps))) arg (of_nat (Suc (length as))) =
          ?F (Suc (length ps) + Suc (length as))"
        using fits neq by (intro copy_string [OF arg apart(2)]) (simp_all add: f_def abs nth_append)
      then show ?thesis
        unfolding f_def [symmetric]
        using run no strlen_cstr [OF path] m1 cmp eq n [of "length ps"] n [of "Suc (length ps)"] lp neq m2
        by (simp add: full_name_def lift_run_def Let_def abs algebra_simps)
    qed
  qed
qed

lemma full_name_block:
  fixes s :: "'a initrd_scheme"
  assumes "heap s A" and "stock A 8 1" and "cstr (mem s) path ps" and "cstr (mem s) arg as"
    and "cstr (mem s) (lit s ''/'') [0x2F]" and "\<forall>j \<le> length ps. kept A (path + of_nat j)"
    and "\<forall>j \<le> length as. kept A (arg + of_nat j)" and "\<forall>j \<le> 1. kept A (lit s ''/'' + of_nat j)"
    and "length (abs_name ps as) < 1024"
  shows "\<exists>filename s' A'. full_name path arg s = ret (filename, s') \<and> cstr (mem s') filename (abs_name ps as) \<and>
    heap s' A' \<and> heap_only s s' \<and> same_kept A (mem s) (mem s') \<and>
    (filename, 1024) \<notin> blocks A \<and> blocks A' = insert (filename, 1024) (blocks A) \<and> grown A A' 8 \<and>
    (\<forall>x. in_range filename 1024 x \<longrightarrow> \<not> kept A x)"
proof -
  have bin: "unat (klmalloc_bin_size 1024) = 8" using bin_size_value [of 10 1024] by simp
  have "ready A 8" by (rule stock_ready [OF assms(2)]) simp
  then obtain q s1 A1 where q: "malloc 1024 s = ret (q, s1)" "heap s1 A1" "heap_only s s1" "same_kept A (mem s) (mem s1)"
    "blocks A1 = insert (q, 1024) (blocks A)" "\<forall>x. in_range q 1024 x \<longrightarrow> \<not> kept A x" "grown A A1 8"
    using keep_cell [OF assms(1) _ _ bin] by auto
  have lit: "lit s1 = lit s" using q(3) unfolding heap_only_def by auto
  let ?t = "abs_name ps as"
  define m where "m = filled (mem s1) (\<lambda>j. (?t @ [0]) ! j) q (Suc (length ?t))"
  have "cstr (mem s1) path ps" "cstr (mem s1) arg as" "cstr (mem s1) (lit s ''/'') [0x2F]"
    using same_kept_cstr [OF q(4), of ps path] same_kept_cstr [OF q(4), of as arg]
      same_kept_cstr [OF q(4), of "[0x2F]" "lit s ''/''"] assms(3-8) by simp_all
  moreover have "\<forall>j \<le> length ps. \<not> in_range q 1024 (path + of_nat j)" "\<forall>j \<le> length as. \<not> in_range q 1024 (arg + of_nat j)"
    "\<forall>j \<le> length [0x2F :: u8]. \<not> in_range q 1024 (lit s ''/'' + of_nat j)"
    using assms(6-8) q(6) by auto
  ultimately have run: "full_name path arg s = ret (q, s1\<lparr>mem := m\<rparr>)"
    unfolding m_def using assms(9) by (intro full_name_fills [OF q(1)]) (simp_all only: lit)
  have outside: "m x = mem s1 x" if "\<not> in_range q 1024 x" for x
    using that assms(9) in_range_mono [of q "Suc (length ?t)" x 1024] by (auto simp: m_def filled_def)
  have "heap (s1\<lparr>mem := m\<rparr>) A1" by (rule heap_write_block(1) [OF q(2)]) (use q(5) outside in auto)
  moreover have "0 \<notin> set ?t" using cstr_no_NUL [OF assms(3)] cstr_no_NUL [OF assms(4)] by (auto simp: abs_name_def)
  then have "cstr m q ?t" unfolding m_def using assms(9) by (intro filled_string) simp_all
  moreover have "same_kept A (mem s) m" using q(4,6) outside unfolding same_kept_def by metis
  moreover have "(q, 1024) \<notin> blocks A"
    using block_bytes_kept [OF assms(1), of q 8 q] q(6) by (auto simp: in_range_def)
  ultimately show ?thesis using run q(5-7) heap_only_trans [OF q(3) heap_only_mem]
    by (intro exI [of _ q] exI [of _ "s1\<lparr>mem := m\<rparr>"] exI [of _ A1]) simp
qed

text \<open>C12: For \<^verbatim>\<open>cd\<close> and \<^verbatim>\<open>cat\<close> the shell puts the absolute name of the argument, terminated, into a new
  block of 1024 bytes: the argument itself when it starts with a slash, else the working directory and
  the argument with one slash between them, none being added to the root.  Nothing else in use
  changes.  The name with its terminator must fit the block, which the code does not check.\<close>

theorem full_name_joins:
  fixes s :: "'a initrd_scheme"
  assumes "heap s A" and "stock A 8 1" and "cstr (mem s) path ps" and "cstr (mem s) arg as"
    and "cstr (mem s) (lit s ''/'') [0x2F]" and "\<forall>j \<le> length ps. kept A (path + of_nat j)"
    and "\<forall>j \<le> length as. kept A (arg + of_nat j)" and "\<forall>j \<le> 1. kept A (lit s ''/'' + of_nat j)"
    and "length (abs_name ps as) < 1024"
  shows "\<exists>filename s' A'. full_name path arg s = ret (filename, s') \<and> cstr (mem s') filename (abs_name ps as) \<and>
    heap s' A' \<and> heap_only s s' \<and> same_kept A (mem s) (mem s') \<and>
    (filename, 1024) \<notin> blocks A \<and> blocks A' = insert (filename, 1024) (blocks A)"
  using full_name_block [OF assms] by blast

text \<open>On the disk of Lookup: the literal \<open>/\<close>, also taken for the working directory, is at 0x1D0000.\<close>

lemma demo_strings:
  "cstr (mem demo_lookup) 0x1D0000 [0x2F]" "cstr (mem demo_lookup) 0x1A0000 [0x72, 0x63]"
  "cstr (mem demo_lookup) 0x202808 [0x2E]"
proof -
  have b: "mem demo_lookup (a + of_nat k) = ucast (drop_bit (8 * k) (case map_of (rev demo_words) a of Some w \<Rightarrow> w | None \<Rightarrow> 0))"
    if "k < 4" "a \<in> {0x1A0000, 0x1D0000, 0x202808}" for a k
  proof -
    have "0x30000 \<le> a" "al4 a" using that(2) by (auto simp: al4_def)
    then show ?thesis using byte_of_word [OF that(1), of "mem demo_lookup" a] demo_lookup_word by simp
  qed
  show "cstr (mem demo_lookup) 0x1D0000 [0x2F]" using b [of 0 "0x1D0000"] b [of 1 "0x1D0000"] by (simp add: demo_words_def)
  show "cstr (mem demo_lookup) 0x1A0000 [0x72, 0x63]"
    using b [of 0 "0x1A0000"] b [of 1 "0x1A0000"] b [of 2 "0x1A0000"] by (simp add: demo_words_def)
  show "cstr (mem demo_lookup) 0x202808 [0x2E]"
    using b [of 0 "0x202808"] b [of 1 "0x202808"] by (simp add: demo_words_def)
qed

lemma demo_strings_kept:
  "\<forall>j < 1024. kept disk_chunks (0x1D0000 + of_nat j)" "\<forall>j \<le> 2. kept disk_chunks (0x1A0000 + of_nat j)"
  "\<forall>j \<le> 1. kept disk_chunks (0x202808 + of_nat j)" "\<forall>j \<le> 1. kept disk_chunks (0x1D0000 + of_nat j)"
  using demo_lookup_kept_at by simp_all

lemma demo_slash:
  "cstr (mem demo_lookup) (lit demo_lookup ''/'') [0x2F]"
  "\<forall>j \<le> 1. kept disk_chunks (lit demo_lookup ''/'' + of_nat j)"
  using demo_strings(1) demo_strings_kept(4) by (simp_all only: demo_lookup_fields(11))

theorem full_name_joins_witness:
  "\<exists>filename s'. full_name 0x1D0000 0x1A0000 demo_lookup = ret (filename, s') \<and> cstr (mem s') filename [0x2F, 0x72, 0x63]"
proof -
  have stock: "stock disk_chunks 8 1" using demo_stock(3) by (rule stock_mono) simp
  have kept: "\<forall>j \<le> length [0x2F :: u8]. kept disk_chunks (0x1D0000 + of_nat j)"
    "\<forall>j \<le> length [0x72, 0x63 :: u8]. kept disk_chunks (0x1A0000 + of_nat j)"
    using demo_strings_kept(2,4) by (simp_all add: numeral_2_eq_2)
  have name: "abs_name [0x2F] [0x72, 0x63] = [0x2F, 0x72, 0x63]" by (simp add: abs_name_def)
  then have "length (abs_name [0x2F] [0x72, 0x63]) < 1024" by simp
  from full_name_joins [OF demo_lookup_heap stock demo_strings(1,2) demo_slash(1) kept demo_slash(2) this]
  show ?thesis unfolding name by blast
qed

section \<open>Changing the directory\<close>

text \<open>The description of a node is in its own bytes.\<close>

lemma node_describes_bytes:
  assumes "node_describes addr m d i node m'" and same: "\<And>x. in_range node 512 x \<Longrightarrow> m'' x = m' x"
  shows "node_describes addr m d i node m''"
proof -
  have at: "m'' (node + of_nat k) = m' (node + of_nat k)" if "k < 512" for k using same that by simp
  have "ld32 m'' (node + f) = ld32 m' (node + f)" if "unat f + 4 \<le> 512" for f
  proof (rule ld32_cong)
    fix x assume "in_range (node + f) 4 x"
    then obtain j where "j < 4" "x = node + f + of_nat j" by (rule in_range_obtain)
    then show "m'' x = m' x" using at [of "unat f + j"] that by (simp add: add.assoc)
  qed
  moreover have name: "length (dent_name m d) \<le> unat (d_name_len m d)"
    unfolding dent_name_def by (rule order_trans [OF length_takeWhile_le]) simp
  have "unat (d_name_len m d) < 256" using unsigned_less [of "d_name_len m d"] by simp
  with name have "length (dent_name m d) < 256" by (rule order_le_less_trans)
  then have "cstr m'' node (dent_name m d) = cstr m' node (dent_name m d)" using at by (intro cstr_cong) simp
  ultimately show ?thesis using assms(1) unfolding node_describes_def by (simp add: field_offsets)
qed

text \<open>The directory is remembered: the name is copied into the buffer of the working directory.\<close>

lemma cd_remembers:
  assumes "cstr m q t" and "\<forall>j \<le> length t. \<not> in_range path 1024 (q + of_nat j)" and "length t < 1024"
  shows "\<exists>m'. bind_run (lift_run (strlen m q)) (\<lambda>n. let m1 = memcpy m path q n in
      bind_run (lift_run (strlen m1 q)) (\<lambda>n1. ret (f (m1(path + n1 := 0))))) = ret (f m') \<and> cstr m' path t \<and>
    (\<forall>x. \<not> in_range path 1024 x \<longrightarrow> m' x = m x)"
proof -
  define g where "g = (\<lambda>j. (t @ [0]) ! j)"
  let ?n = "length t"
  have "memcpy (filled m g path 0) (path + of_nat 0) q (of_nat ?n) = filled m g path (0 + ?n)"
    using assms(3) by (intro copy_string [OF assms(1,2)]) (simp_all add: g_def)
  then have copy: "memcpy m path q (of_nat ?n) = filled m g path ?n" by simp
  have "strlen (filled m g path ?n) q = Some (of_nat ?n)"
    using assms(3) by (intro strlen_cstr filled_cstr [OF assms(1,2)]) simp
  moreover have "(filled m g path ?n)(path + of_nat ?n := 0) = filled m g path (Suc ?n)"
    using filled_snoc [of ?n m g path] assms(3) by (simp add: g_def nth_append)
  moreover have "cstr (filled m g path (Suc ?n)) path t"
    unfolding g_def using assms(3) cstr_no_NUL [OF assms(1)] by (intro filled_string) simp_all
  moreover have "filled m g path (Suc ?n) x = m x" if "\<not> in_range path 1024 x" for x
    using that assms(3) in_range_mono [of path "Suc ?n" x 1024] by (auto simp: filled_def)
  ultimately show ?thesis
    using strlen_cstr [OF assms(1)] copy by (intro exI [of _ "filled m g path (Suc ?n)"]) (simp add: lift_run_def Let_def)
qed

lemma cd_opens:
  fixes s :: "'a initrd_scheme"
  assumes "heap s A" and "tree_ok 2 A s N ents" and "n \<in> N" and "dir_node A s (fs_root s) n" and "fs_root s \<noteq> 0"
    and "fun_addr s readdir_initrd_fn \<noteq> 0"
    and strings: "cstr (mem s) path ps" "cstr (mem s) arg as" "cstr (mem s) (lit s ''/'') [0x2F]" "length ps < 1024"
    and kept: "\<forall>j < 1024. kept A (path + of_nat j)" "\<forall>j \<le> length as. kept A (arg + of_nat j)"
      "\<forall>j \<le> 1. kept A (lit s ''/'' + of_nat j)"
    and name: "abs_name ps as = path_string ts" "length (path_string ts) < 1024" "ts \<noteq> []" "\<forall>t \<in> set ts. 0x2F \<notin> set t"
      "path_bin ts < 10" "length (path_string ts) < 2 ^ (path_bin ts + 2)"
    and stock: "stock A 8 1" "stock A (path_bin ts) 2" "stock A 7 (length ts + 1)"
    and target: "resolve s ents n ts = Some d" "is_dir (mem s) (entry_inode s d)"
  shows "\<exists>q s1 out s2. full_name path arg s = ret (q, s1) \<and> kopen q 0 s1 = ret (out, s2) \<and> out \<noteq> 0 \<and>
    node_describes (fun_addr s) (mem s) d (entry_inode s d) out (mem s2) \<and> cstr (mem s2) q (path_string ts) \<and>
    (\<forall>j \<le> length (path_string ts). \<not> kept A (q + of_nat j)) \<and> (\<forall>x. in_range out 512 x \<longrightarrow> \<not> kept A x)"
proof -
  let ?t = "path_string ts"
  have keptp: "\<forall>j \<le> length ps. kept A (path + of_nat j)" using kept(1) strings(4) by simp
  obtain q s1 A1 where q: "full_name path arg s = ret (q, s1)" "cstr (mem s1) q ?t" "heap s1 A1" "heap_only s s1"
    "same_kept A (mem s) (mem s1)" "blocks A1 = insert (q, 1024) (blocks A)" "grown A A1 8"
    "\<forall>x. in_range q 1024 x \<longrightarrow> \<not> kept A x"
    using full_name_block [OF assms(1) stock(1) strings(1-3) keptp kept(2,3)] name(1,2) by auto
  note later = heap_only_fields [OF q(4)] and kept1 = grown_kept [OF q(7)]
  have tree1: "tree_ok 2 A1 s1 N ents"
  proof (rule tree_later [OF assms(2) q(4,5,7)])
    fix n' d' assume "n' \<in> N" "d' \<in> set (ents n')"
    have "entry_bin (mem s) d' \<le> 6" unfolding entry_bin_def by (rule name_bin(2) [OF refl])
    then show "2 + (if entry_bin (mem s) d' = 8 then 1 else 0) \<le> (2 :: nat)" by simp
  qed
  have node1: "dir_node A1 s1 (fs_root s1) n"
    unfolding later(5) by (rule dir_node_later [OF assms(4) q(4,5) kept1])
  have keptq: "\<forall>j \<le> length ?t. kept A1 (q + of_nat j)"
    using block_bytes_kept [OF q(3), of q 8] q(6) name(2) in_range_offset [of 1024 _ q] by simp
  have stock1: "stock A1 (path_bin ts) 1" "stock A1 7 (length ts + 1)"
    using grown_stock [OF q(7) stock(2), of 1] grown_stock [OF q(7) stock(3)] by simp_all
  have nz: "fs_root s1 \<noteq> 0" "fun_addr s1 readdir_initrd_fn \<noteq> 0" using assms(5,6) later by simp_all
  have res: "resolve s1 ents n ts = Some d" using target(1) resolve_same [OF assms(2) q(4,5) assms(3)] by simp
  obtain out s2 A2 where k: "kopen q 0 s1 = ret (out, s2)" "heap s2 A2" "same_kept A1 (mem s1) (mem s2)"
    "node_describes (fun_addr s1) (mem s1) d (entry_inode s1 d) out (mem s2)" "(out, 512) \<in> blocks A2"
    "\<forall>x. in_range out 512 x \<longrightarrow> \<not> kept A1 x"
    using kopen_lookup [OF q(3) tree1 assms(3) node1 nz q(2) keptq name(3-6) stock1, of 0] unfolding res by auto
  have described: "node_describes (fun_addr s) (mem s) d (entry_inode s d) out (mem s2)"
    by (rule resolved_later [OF assms(2) q(4,5) assms(3) target(1) k(4)])
  have nzo: "out \<noteq> 0" using block_valid(1) [OF k(2,5)] .
  have "cstr (mem s2) q ?t" using same_kept_cstr [OF k(3), of ?t q] keptq q(2) by simp
  moreover have "\<forall>j \<le> length ?t. \<not> kept A (q + of_nat j)" using q(8) name(2) in_range_offset [of 1024 _ q] by simp
  moreover have "\<forall>x. in_range out 512 x \<longrightarrow> \<not> kept A x" using k(6) kept1 by blast
  ultimately show ?thesis using q(1) k(1) described nzo by blast
qed

text \<open>C6: \<^verbatim>\<open>cd\<close> through all the layers: when the absolute name of its argument leads, through the
  directories of the ram disk, to a directory, then the shell goes on with a node that describes that
  directory, and the buffer of the working directory holds the name.\<close>

theorem cd_enters_directory:
  fixes s :: "'a initrd_scheme"
  assumes "heap s A" and "tree_ok 2 A s N ents" and "n \<in> N" and "dir_node A s (fs_root s) n" and "fs_root s \<noteq> 0"
    and "fun_addr s readdir_initrd_fn \<noteq> 0"
    and strings: "cstr (mem s) path ps" "cstr (mem s) arg as" "cstr (mem s) (lit s ''/'') [0x2F]" "length ps < 1024"
    and kept: "\<forall>j < 1024. kept A (path + of_nat j)" "\<forall>j \<le> length as. kept A (arg + of_nat j)"
      "\<forall>j \<le> 1. kept A (lit s ''/'' + of_nat j)"
    and name: "abs_name ps as = path_string ts" "length (path_string ts) < 1024" "ts \<noteq> []" "\<forall>t \<in> set ts. 0x2F \<notin> set t"
      "path_bin ts < 10" "length (path_string ts) < 2 ^ (path_bin ts + 2)"
    and stock: "stock A 8 1" "stock A (path_bin ts) 2" "stock A 7 (length ts + 1)"
    and target: "resolve s ents n ts = Some d" "is_dir (mem s) (entry_inode s d)"
  shows "\<exists>out s'. sh_cd path (cmd # arg # rest) node s = ret (out, s') \<and> cstr (mem s') path (abs_name ps as) \<and>
    node_describes (fun_addr s) (mem s) d (entry_inode s d) out (mem s')"
proof -
  let ?t = "path_string ts"
  obtain q s1 out s2 where k: "full_name path arg s = ret (q, s1)" "kopen q 0 s1 = ret (out, s2)" "out \<noteq> 0"
    "node_describes (fun_addr s) (mem s) d (entry_inode s d) out (mem s2)" "cstr (mem s2) q ?t"
    "\<forall>j \<le> length ?t. \<not> kept A (q + of_nat j)" "\<forall>x. in_range out 512 x \<longrightarrow> \<not> kept A x"
    using cd_opens [OF assms] by blast
  have flag: "ld32 (mem s2) (out + FS_FLAGS) AND FS_DIRECTORY \<noteq> 0"
    using k(4) target(2) directory_flag [of "i_mode (mem s) (entry_inode s d)"] unfolding node_describes_def is_dir_def by simp
  have path_kept: "kept A x" if "in_range path 1024 x" for x using that kept(1) by (elim in_range_obtain) simp
  then have "\<forall>j \<le> length ?t. \<not> in_range path 1024 (q + of_nat j)" using k(6) by blast
  then obtain m' where m': "bind_run (lift_run (strlen (mem s2) q)) (\<lambda>n. let m1 = memcpy (mem s2) path q n in
      bind_run (lift_run (strlen m1 q)) (\<lambda>n1. ret (out, s2\<lparr>mem := m1(path + n1 := 0)\<rparr>))) = ret (out, s2\<lparr>mem := m'\<rparr>)"
    "cstr m' path ?t" "\<forall>x. \<not> in_range path 1024 x \<longrightarrow> m' x = mem s2 x"
    using cd_remembers [of "mem s2" q ?t path "\<lambda>m. (out, s2\<lparr>mem := m\<rparr>)"] name(2) k(5) by blast
  have "sh_cd path (cmd # arg # rest) node s = ret (out, s2\<lparr>mem := m'\<rparr>)"
    using k(1-3) flag m'(1) by (simp add: sh_cd_def)
  moreover have "node_describes (fun_addr s) (mem s) d (entry_inode s d) out m'"
    using node_describes_bytes [OF k(4), of m'] m'(3) k(7) path_kept by blast
  ultimately show ?thesis using m'(2) name(1) by (intro exI [of _ out] exI [of _ "s2\<lparr>mem := m'\<rparr>"]) simp
qed

theorem cd_enters_directory_witness:
  "\<exists>out s'. sh_cd 0x1D0000 [0, 0x202808] 0x1B0000 demo_lookup = ret (out, s') \<and> cstr (mem s') 0x1D0000 [0x2F, 0x2E] \<and>
    ld32 (mem s') (out + FS_INODE) = 2"
proof -
  let ?s = demo_lookup and ?A = disk_chunks and ?ents = "\<lambda>_ :: u32. [0x202800, 0x20280C :: u32]" and ?ts = "[[0x2E :: u8]]"
  have bin: "path_bin ?ts = 0" using bin_size_value [of 1 2] by (simp add: path_bin_def)
  have stock: "stock ?A 8 1" "stock ?A (path_bin ?ts) 2" "stock ?A 7 (length ?ts + 1)"
    using demo_stock stock_mono [OF demo_stock(3), of 1] by (simp_all add: bin numeral_2_eq_2)
  have name: "abs_name [0x2F] [0x2E] = path_string ?ts" by (simp add: abs_name_def)
  have res: "resolve ?s ?ents 2 ?ts = Some 0x202800" "is_dir (mem ?s) (entry_inode ?s 0x202800)"
    by (simp_all add: demo_lookup_names demo_inodes)
  have root: "fs_root ?s \<noteq> 0" "fun_addr ?s readdir_initrd_fn \<noteq> 0" by (simp_all add: demo_lookup_fields(10) demo_root_node)
  have fits: "length [0x2F :: u8] < 1024" "length (path_string ?ts) < 1024" "?ts \<noteq> []" "\<forall>t \<in> set ?ts. 0x2F \<notin> set t"
    "path_bin ?ts < 10" "length (path_string ?ts) < 2 ^ (path_bin ?ts + 2)" by (simp_all add: bin)
  have arg: "\<forall>j \<le> length [0x2E :: u8]. kept ?A (0x202808 + of_nat j)" using demo_strings_kept(3) by simp
  show ?thesis
    using cd_enters_directory [OF demo_lookup_heap demo_tree _ demo_dir_node root demo_strings(1,3) demo_slash(1) fits(1)
        demo_strings_kept(1) arg demo_slash(2) name fits(2-6) stock res, of 0 "[]" "0x1B0000"]
    unfolding node_describes_def name demo_lookup_disk by auto
qed

end
