(* ===== verification/Session.thy ===== *)
theory Session
  imports Command
begin

text \<open>
  One round of the shell from the keyboard to the screen: the prompt, the line the typed characters
  edit, its words, and the answer of the command.
\<close>

section \<open>What a round shows\<close>

definition command_names :: "string list" where
  "command_names = [''cd'', ''cat'', ''echo'', ''ls'', ''info'', ''help'', ''out'', ''serial'', ''crash'']"

text \<open>
  The answer to a line, for the lines whose command does not use the file system or a port: an empty
  line, \<^verbatim>\<open>echo\<close>, and a word that is not a command.  A longer unknown word would overflow the buffer
  of \<^verbatim>\<open>kprintf\<close>, and the words of a line of spaces are none, so that the code compares a null pointer.
\<close>

definition answer :: "u8 list \<Rightarrow> u8 list option" where
  "answer line =
     (if line = [] then Some []
      else case tokens {0x20} line of
          [] \<Rightarrow> None
        | c # ws \<Rightarrow>
            if c = bytes ''echo''
            then Some (if ws = [] then [] else concat (map (\<lambda>w. w @ [0x20]) ws) @ [0x0A])
            else if c \<notin> bytes ` set command_names \<and> length c \<le> 1000
            then Some (bytes ''Unrecognized command: '' @ c @ [0x0A])
            else None)"

definition prompt :: "u8 list \<Rightarrow> u8 list" where
  "prompt ps = bytes ''MyaXOS '' @ ps @ bytes ''> ''"

section \<open>What a round needs\<close>

text \<open>
  The string \<open>cs\<close> at \<open>p\<close> lies apart from what a round writes: the buffer of \<^verbatim>\<open>kprintf\<close>, the text buffer
  of the screen, and the \<open>n\<close> bytes at \<open>b\<close>.
\<close>

definition safe :: "u32 \<Rightarrow> nat \<Rightarrow> 'a interrupts_scheme \<Rightarrow> u32 \<Rightarrow> bool" where
  "safe b n s x \<longleftrightarrow> \<not> in_kbuf s x \<and> \<not> in_range (textmemptr s) 4000 x \<and> \<not> in_range b n x"

definition text_at :: "u32 \<Rightarrow> nat \<Rightarrow> 'a interrupts_scheme \<Rightarrow> u32 \<Rightarrow> u8 list \<Rightarrow> bool" where
  "text_at b n s p cs \<longleftrightarrow> cstr (mem s) p cs \<and> (\<forall>k \<le> length cs. safe b n s (p + of_nat k))"

definition shell_literals :: "string list" where
  "shell_literals = [''MyaXOS %s> '', '' '', ''%s '', ''\<newline>'', ''Unrecognized command: %s\<newline>''] @ command_names"

definition shell_ready :: "u32 \<Rightarrow> u8 list \<Rightarrow> u32 \<Rightarrow> 'a interrupts_scheme \<Rightarrow> bool" where
  "shell_ready path ps buffer s \<longleftrightarrow>
     console_ok s \<and> uart_live s \<and> kbuf_apart s \<and>
     (\<forall>t \<in> set shell_literals. text_at buffer 1024 s (lit s t) (bytes t)) \<and>
     text_at buffer 1024 s path ps \<and> length ps \<le> 1000 \<and>
     buffer \<noteq> 0 \<and> unat buffer + 1024 < 2 ^ 32 \<and>
     (\<forall>k < 1024. \<not> in_kbuf s (buffer + of_nat k) \<and> \<not> in_range (textmemptr s) 4000 (buffer + of_nat k))"

section \<open>Steps that only print\<close>

text \<open>
  \<open>shown b n s s'\<close>: from \<open>s\<close> to \<open>s'\<close> the console stayed alive, and no byte has changed but those of the
  buffer of \<^verbatim>\<open>kprintf\<close>, of the text buffer, and the \<open>n\<close> bytes at \<open>b\<close>.
\<close>

definition shown :: "u32 \<Rightarrow> nat \<Rightarrow> 'a interrupts_scheme \<Rightarrow> 'a interrupts_scheme \<Rightarrow> bool" where
  "shown b n s s' \<longleftrightarrow> console_live s' \<and> textmemptr s' = textmemptr s \<and> kbuf s' = kbuf s \<and>
     kprintf_state.more s' = kprintf_state.more s \<and> (\<forall>x. safe b n s x \<longrightarrow> mem s' x = mem s x)"

lemma safe_0 [simp]: "safe b 0 s x \<longleftrightarrow> \<not> in_kbuf s x \<and> \<not> in_range (textmemptr s) 4000 x"
  by (simp add: safe_def)

lemma shown_same:
  assumes "shown b n s s'"
  shows "safe c k s' = safe c k s" and "kbuf_apart s' = kbuf_apart s" and "lit s' = lit s"
proof -
  have kb: "in_kbuf s' = in_kbuf s" using assms by (simp add: shown_def in_kbuf_def fun_eq_iff)
  with assms show "safe c k s' = safe c k s" "kbuf_apart s' = kbuf_apart s"
    by (simp_all add: shown_def safe_def kbuf_apart_def fun_eq_iff)
  show "lit s' = lit s" using assms lit_more unfolding shown_def by blast
qed

lemma shown_trans:
  assumes "shown b n s s'" and "shown b n s' s''"
  shows "shown b n s s''"
  using assms shown_same(1) [OF assms(1)] by (simp add: shown_def)

lemma shown_mono: "shown b 0 s s' \<Longrightarrow> shown b n s s'"
  by (simp add: shown_def safe_def)

lemma text_at_shown:
  assumes "shown b n s s'" and "text_at b n s p cs"
  shows "text_at b n s' p cs"
proof -
  have "cstr (mem s') p cs = cstr (mem s) p cs"
    using assms by (intro cstr_cong) (simp add: shown_def text_at_def)
  then show ?thesis using assms(2) by (simp add: text_at_def shown_same(1) [OF assms(1)])
qed

lemma text_at_less: "text_at b n s p cs \<Longrightarrow> text_at b 0 s p cs"
  by (auto simp: text_at_def safe_def)

lemma text_at_apart: "text_at b n s p cs \<Longrightarrow> str_apart s p cs"
  by (auto simp: text_at_def safe_def str_apart_def)

lemma kputs_shows:
  assumes "console_live s" and "kbuf_apart s" and "text_at b n s (lit s fmt) (bytes fmt)"
    and "render str (bytes fmt) args = Some out" and "length out < 1024" and "0 \<notin> set out"
    and "\<And>a cs. str a = Some cs \<Longrightarrow> text_at b n s a cs"
  shows "\<exists>s'. kputs fmt args s = ret s' \<and> shown b n s s' \<and> term_of s' = fold term_put out (term_of s)"
proof -
  have "strings_apart s str" using assms(7) text_at_apart unfolding strings_apart_def by blast
  then obtain s' where s': "kprintf (lit s fmt) args s = ret s'" "console_live s'"
    "term_of s' = fold term_put out (term_of s)"
    "\<And>x. \<not> in_kbuf s x \<Longrightarrow> \<not> in_range (textmemptr s) 4000 x \<Longrightarrow> mem s' x = mem s x"
    "textmemptr s' = textmemptr s" "kbuf s' = kbuf s" "kprintf_state.more s' = kprintf_state.more s"
    by (rule kprintf_render [OF assms(1,2,4-6) text_at_apart [OF assms(3)]]) blast
  then have "shown b n s s'" by (simp add: shown_def safe_def)
  with s'(1,3) show ?thesis unfolding kputs_def by blast
qed

text \<open>The formats of the shell.\<close>

lemma render_formats:
  "str a = Some cs \<Longrightarrow> render str (bytes ''MyaXOS %s> '') [a] = Some (prompt cs)"
  "str a = Some cs \<Longrightarrow> render str (bytes ''%s '') [a] = Some (cs @ [0x20])"
  "render str (bytes ''\<newline>'') [] = Some [0x0A]"
  "str a = Some cs \<Longrightarrow> render str (bytes ''Unrecognized command: %s\<newline>'') [a] =
     Some (bytes ''Unrecognized command: '' @ cs @ [0x0A])"
  by (simp_all add: bytes_def prompt_def conv_text_def)

lemma print_string:
  assumes "console_live s" and "kbuf_apart s" and "text_at b n s (lit s fmt) (bytes fmt)" and "text_at b n s a cs"
    and "render [a \<mapsto> cs] (bytes fmt) [a] = Some out" and "length out < 1024" and "0 \<notin> set out"
  shows "\<exists>s'. kputs fmt [a] s = ret s' \<and> shown b n s s' \<and> term_of s' = fold term_put out (term_of s)"
  using assms(4) by (intro kputs_shows [OF assms(1-3,5-7)]) (simp split: if_splits)

section \<open>The command echo\<close>

lemma echo_args_show:
  assumes "list_all2 (text_at b n s) as ws" and "console_live s" and "kbuf_apart s"
    and "text_at b n s (lit s ''%s '') (bytes ''%s '')" and "\<forall>w \<in> set ws. length w < 1023"
  shows "\<exists>s'. echo_args as s = ret s' \<and> shown b n s s' \<and>
    term_of s' = fold term_put (concat (map (\<lambda>w. w @ [0x20]) ws)) (term_of s)"
  using assms
proof (induction as arbitrary: ws s)
  case Nil
  then show ?case by (simp add: shown_def)
next
  case (Cons a as)
  obtain w vs where ws: "ws = w # vs" and w: "text_at b n s a w" and vs: "list_all2 (text_at b n s) as vs"
    using Cons.prems(1) by (auto simp: list_all2_Cons1)
  have "0 \<notin> set w" using w cstr_no_NUL unfolding text_at_def by blast
  then obtain s1 where s1: "kputs ''%s '' [a] s = ret s1" "shown b n s s1"
    "term_of s1 = fold term_put (w @ [0x20]) (term_of s)"
    using print_string [OF Cons.prems(2-4) w render_formats(2)] Cons.prems(5) ws by auto
  note same = shown_same [OF s1(2)]
  have "text_at b n s1 (lit s1 ''%s '') (bytes ''%s '')" using text_at_shown [OF s1(2) Cons.prems(4)] by (simp add: same)
  moreover have "console_live s1" "kbuf_apart s1" using s1(2) Cons.prems(3) by (simp_all add: same shown_def)
  moreover have "list_all2 (text_at b n s1) as vs" using vs by (rule list_all2_mono) (rule text_at_shown [OF s1(2)])
  moreover have "\<forall>w \<in> set vs. length w < 1023" using Cons.prems(5) ws by simp
  ultimately obtain s' where "echo_args as s1 = ret s'" "shown b n s1 s'"
    "term_of s' = fold term_put (concat (map (\<lambda>w. w @ [0x20]) vs)) (term_of s1)"
    using Cons.IH by blast
  then show ?case using s1 shown_trans [OF s1(2)] by (simp add: ws)
qed

section \<open>Finding the command\<close>

lemma first_match_find:
  assumes "cstr m cmd c" and "\<forall>t \<in> set ns. cstr m (addr t) (bytes t)"
  shows "first_match m cmd addr ns = Some (find (\<lambda>t. c = bytes t) ns)"
  using assms(2)
proof (induction ns)
  case (Cons t ns)
  then have t: "cstr m (addr t) (bytes t)" by simp
  have "strcmp_spec c (bytes t) = 0 \<longleftrightarrow> c = bytes t" using cstr_no_NUL [OF assms(1)] cstr_no_NUL [OF t] by simp
  then show ?case using strcmp_cstr [OF assms(1) t] Cons by simp
qed simp

lemma find_echo: "find (\<lambda>t. bytes ''echo'' = bytes t) command_names = Some ''echo''"
  by (simp add: command_names_def bytes_def)

lemma find_unknown: "c \<notin> bytes ` set command_names \<Longrightarrow> find (\<lambda>t. c = bytes t) command_names = None"
  unfolding find_None_iff by blast

text \<open>The words of a line are not longer than the line.\<close>

lemma tokens_length: "sum_list (map length (tokens D s)) \<le> length s"
proof (induction "length s" arbitrary: s rule: less_induct)
  case less
  show ?case
  proof (cases "tok_word D s = []")
    case True
    then show ?thesis by (simp add: tokens.simps [of D s])
  next
    case False
    have len: "length (tok_skip D s) + length (tok_word D s) + length (tok_rest D s) = length s"
      using tok_length [of D s] by simp
    then have "length (tl (tok_rest D s)) < length s" using False by (cases "tok_rest D s") auto
    then have "sum_list (map length (tokens D (tl (tok_rest D s)))) \<le> length (tl (tok_rest D s))" by (rule less)
    then show ?thesis using False len by (subst tokens.simps) simp
  qed
qed

text \<open>\<^verbatim>\<open>echo\<close> with its arguments; alone it prints nothing.\<close>

lemma sh_echo_shows:
  fixes s :: "'a initrd_scheme"
  assumes live: "console_live s" and apart: "kbuf_apart s"
    and lits: "\<forall>t \<in> set shell_literals. text_at b 0 s (lit s t) (bytes t)"
    and words: "list_all2 (text_at b 0 s) args ws" "\<forall>w \<in> set ws. length w < 1023"
  shows "\<exists>s'. sh_echo (cmd # args) s = ret s' \<and> shown b 0 s s' \<and>
    term_of s' = fold term_put (if ws = [] then [] else concat (map (\<lambda>w. w @ [0x20]) ws) @ [0x0A]) (term_of s)"
proof (cases "ws = []")
  case True
  then have "args = []" using words(1) by simp
  then show ?thesis using True live by (simp add: sh_echo_def shown_def)
next
  case False
  have lit: "text_at b 0 s (lit s t) (bytes t)" if "t \<in> set shell_literals" for t using lits that by blast
  obtain s1 where s1: "echo_args args s = ret s1" "shown b 0 s s1"
    "term_of s1 = fold term_put (concat (map (\<lambda>w. w @ [0x20]) ws)) (term_of s)"
    using echo_args_show [OF words(1) live apart lit words(2)] by (auto simp: shell_literals_def)
  note same = shown_same [OF s1(2)]
  have "console_live s1" "kbuf_apart s1" "text_at b 0 s1 (lit s1 ''\<newline>'') (bytes ''\<newline>'')"
    using s1(2) apart text_at_shown [OF s1(2) lit [of "''\<newline>''"]] by (simp_all add: same shell_literals_def shown_def)
  then obtain s2 where s2: "kputs ''\<newline>'' [] s1 = ret s2" "shown b 0 s1 s2" "term_of s2 = fold term_put [0x0A] (term_of s1)"
    using kputs_shows [where str = Map.empty, OF _ _ _ render_formats(3)] by fastforce
  have "args \<noteq> []" using False words(1) by auto
  then have "sh_echo (cmd # args) s = ret s2" using s1(1) s2(1) by (cases args) (simp_all add: sh_echo_def)
  then show ?thesis using False s1(3) s2(3) shown_trans [OF s1(2) s2(2)] by simp
qed

lemma run_command_answers:
  fixes s :: "'a initrd_scheme"
  assumes live: "console_live s" and apart: "kbuf_apart s"
    and lits: "\<forall>t \<in> set shell_literals. text_at b 0 s (lit s t) (bytes t)"
    and words: "list_all2 (text_at b 0 s) argv (c # ws)" "length c + sum_list (map length ws) < 1024"
    and out: "(c = bytes ''echo'' \<and> out = (if ws = [] then [] else concat (map (\<lambda>w. w @ [0x20]) ws) @ [0x0A])) \<or>
      (c \<notin> bytes ` set command_names \<and> length c \<le> 1000 \<and> out = bytes ''Unrecognized command: '' @ c @ [0x0A])"
  shows "\<exists>s'. run_command path argv node s = ret (node, s') \<and> shown b 0 s s' \<and>
    term_of s' = fold term_put out (term_of s)"
proof -
  obtain cmd args where argv: "argv = cmd # args" and cmd: "text_at b 0 s cmd c"
    and args: "list_all2 (text_at b 0 s) args ws"
    using words(1) by (auto simp: list_all2_Cons2)
  have "\<forall>t \<in> set command_names. cstr (mem s) (lit s t) (bytes t)"
    using lits by (simp add: shell_literals_def text_at_def)
  then have which: "first_match (mem s) cmd (lit s) command_names = Some (find (\<lambda>t. c = bytes t) command_names)"
    using cmd unfolding text_at_def by (intro first_match_find) auto
  from out show ?thesis
  proof (elim disjE conjE)
    assume c: "c = bytes ''echo''" and o: "out = (if ws = [] then [] else concat (map (\<lambda>w. w @ [0x20]) ws) @ [0x0A])"
    have run: "run_command path argv node s = bind_run (sh_echo (cmd # args) s) (\<lambda>s1. ret (node, s1))"
      using which unfolding c find_echo by (simp add: run_command_def lift_run_def argv flip: command_names_def)
    have "length w \<le> sum_list (map length ws)" if "w \<in> set ws" for w using that by (intro member_le_sum_list) simp_all
    then have "\<forall>w \<in> set ws. length w < 1023" using words(2) by (fastforce simp: c bytes_def)
    from sh_echo_shows [OF live apart lits args this, of cmd] show ?thesis unfolding o by (auto simp: run)
  next
    assume c: "c \<notin> bytes ` set command_names" "length c \<le> 1000" "out = bytes ''Unrecognized command: '' @ c @ [0x0A]"
    have run: "run_command path argv node s = bind_run (kputs ''Unrecognized command: %s\<newline>'' [cmd] s) (\<lambda>s1. ret (node, s1))"
      using which unfolding find_unknown [OF c(1)] by (simp add: run_command_def lift_run_def argv flip: command_names_def)
    have "text_at b 0 s (lit s ''Unrecognized command: %s\<newline>'') (bytes ''Unrecognized command: %s\<newline>'')"
      using lits by (simp add: shell_literals_def)
    moreover have "0 \<notin> set c" using cmd cstr_no_NUL unfolding text_at_def by blast
    then have "0 \<notin> set out" "length out < 1024" using c(2,3) by (simp_all add: bytes_def)
    ultimately obtain s1 where "kputs ''Unrecognized command: %s\<newline>'' [cmd] s = ret s1" "shown b 0 s s1"
      "term_of s1 = fold term_put out (term_of s)"
      using print_string [OF live apart _ cmd render_formats(4)] c(3) by auto
    then show ?thesis by (simp add: run)
  qed
qed

section \<open>A round\<close>

text \<open>The line is read into the buffer of the round.\<close>

lemma kgets_shows:
  fixes s :: "'a initrd_scheme"
  assumes "console_live s" and "\<forall>k < 1024. \<not> in_range (textmemptr s) 4000 (buffer + of_nat k)"
  shows "case edit_line 1023 [] chars of
      None \<Rightarrow> kgets buffer 1023 chars s = None
    | Some (line, rest) \<Rightarrow> \<exists>s'. kgets buffer 1023 chars s = Some (int (length line), rest, s') \<and>
        cstr (mem s') buffer line \<and> length line < 1024 \<and> shown buffer 1024 s s' \<and>
        term_of s' = fold term_put (echo_line 1023 [] chars) (term_of s)"
proof -
  have "\<not> in_range (textmemptr s) 4000 (buffer + of_nat k)" if "k \<le> nat 1023" for k using assms(2) that by simp
  note line = kgets_line [OF assms(1) _ _ this, of 1023 chars]
  have "Suc 1023 = 1024" by simp
  then show ?thesis using line unfolding shown_def safe_def by (fastforce split: option.splits)
qed

text \<open>The words of the line lie in the buffer, where nothing but the round writes.\<close>

lemma line_words:
  fixes s :: "'a initrd_scheme"
  assumes live: "console_live s" and line: "cstr (mem s) buffer line" "length line < 1024"
    and delim: "text_at buffer 1024 s (lit s '' '') [0x20]"
    and buffer: "buffer \<noteq> 0" "unat buffer + 1024 < 2 ^ 32"
      "\<forall>k < 1024. \<not> in_kbuf s (buffer + of_nat k) \<and> \<not> in_range (textmemptr s) 4000 (buffer + of_nat k)"
  shows "\<exists>argv m'. tokenize buffer (lit s '' '') 0 (mem s) = Some (argv, m') \<and>
    list_all2 (text_at buffer 0 (s\<lparr>mem := m'\<rparr>)) argv (tokens {0x20} line) \<and>
    shown buffer 1024 s (s\<lparr>mem := m'\<rparr>) \<and> term_of (s\<lparr>mem := m'\<rparr>) = term_of s"
proof -
  have "\<not> in_range buffer (Suc (length line)) (lit s '' '' + of_nat k)" if "k \<le> 1" for k
    using delim that line(2) in_range_mono [of buffer "Suc (length line)" _ 1024] by (auto simp: text_at_def safe_def)
  then have "apart_from_string buffer line (lit s '' '') [0x20]" by (simp add: apart_from_string_def)
  moreover have "cstr (mem s) (lit s '' '') [0x20]" using delim by (simp add: text_at_def)
  ultimately obtain argv m' where t: "tokenize buffer (lit s '' '') 0 (mem s) = Some (argv, m')"
    "list_all2 (word_in m' buffer (Suc (length line))) argv (tokens (set [0x20]) line)"
    "\<forall>x. \<not> in_range buffer (length line) x \<longrightarrow> m' x = mem s x"
    using tokenize_all [OF _ line(1), of "lit s '' ''" "[0x20]" buffer 0] buffer(1,2) line(2) by auto
  have inside: "\<not> in_kbuf s x \<and> \<not> in_range (textmemptr s) 4000 x" if "in_range buffer 1024 x" for x
    using that buffer(3) by (elim in_range_obtain) simp
  have le: "in_range buffer 1024 x" if "in_range buffer (Suc (length line)) x" for x
    using that line(2) in_range_mono by (metis Suc_leI)
  have kb: "in_kbuf (s\<lparr>mem := m'\<rparr>) = in_kbuf s" by (simp add: in_kbuf_def fun_eq_iff)
  have "list_all2 (text_at buffer 0 (s\<lparr>mem := m'\<rparr>)) argv (tokens (set [0x20]) line)"
    using t(2) by (rule list_all2_mono) (use inside le in \<open>simp add: word_in_def text_at_def kb\<close>)
  moreover have frame: "m' x = mem s x" if "\<not> in_range buffer 1024 x" for x
    using t(3) that line(2) in_range_mono [of buffer "length line" x 1024] by auto
  then have "shown buffer 1024 s (s\<lparr>mem := m'\<rparr>)" using live by (simp add: shown_def safe_def)
  moreover have "term_of (s\<lparr>mem := m'\<rparr>) = term_of s"
  proof (rule term_of_mem_cong)
    fix x assume "in_range (textmemptr s) 4000 x"
    then have "\<not> in_range buffer 1024 x" using inside by blast
    then show "mem s x = mem (s\<lparr>mem := m'\<rparr>) x" using frame by simp
  qed simp_all
  ultimately show ?thesis using t(1) by auto
qed

lemma shell_ready_shown:
  assumes "shell_ready path ps buffer s" and s': "shown buffer 1024 s s'"
  shows "shell_ready path ps buffer s'"
proof -
  note same = shown_same [OF s']
  have "in_kbuf s' = in_kbuf s" using s' by (simp add: shown_def in_kbuf_def fun_eq_iff)
  moreover have "\<forall>t \<in> set shell_literals. text_at buffer 1024 s' (lit s' t) (bytes t)" "text_at buffer 1024 s' path ps"
    using assms(1) text_at_shown [OF s'] unfolding shell_ready_def same by blast+
  ultimately show ?thesis using assms(1) s' same(2) by (simp add: shell_ready_def shown_def console_live_def)
qed

text \<open>The prompt, and reading the line.\<close>

lemma shell_prompts:
  fixes s :: "'a initrd_scheme"
  assumes ready: "shell_ready path ps buffer s"
  shows "\<exists>s1. kputs ''MyaXOS %s> '' [path] s = ret s1 \<and> shown buffer 1024 s s1 \<and>
    term_of s1 = fold term_put (prompt ps) (term_of s) \<and>
    (case edit_line 1023 [] chars of
      None \<Rightarrow> kgets buffer 1023 chars s1 = None
    | Some (line, rest) \<Rightarrow> \<exists>s2. kgets buffer 1023 chars s1 = Some (int (length line), rest, s2) \<and>
        cstr (mem s2) buffer line \<and> length line < 1024 \<and> shown buffer 1024 s1 s2 \<and>
        term_of s2 = fold term_put (echo_line 1023 [] chars) (term_of s1))"
proof -
  have live: "console_live s" and apart: "kbuf_apart s" and path: "text_at buffer 1024 s path ps" "length ps \<le> 1000"
    and fmt: "text_at buffer 1024 s (lit s ''MyaXOS %s> '') (bytes ''MyaXOS %s> '')"
    using ready by (simp_all add: shell_ready_def shell_literals_def console_live_def)
  have "0 \<notin> set (prompt ps)" "length (prompt ps) < 1024"
    using path cstr_no_NUL unfolding text_at_def by (auto simp: prompt_def bytes_def)
  then obtain s1 where s1: "kputs ''MyaXOS %s> '' [path] s = ret s1" "shown buffer 1024 s s1"
    "term_of s1 = fold term_put (prompt ps) (term_of s)"
    using print_string [OF live apart fmt path(1) render_formats(1)] by auto
  have "shell_ready path ps buffer s1" using ready s1(2) by (rule shell_ready_shown)
  then have "console_live s1" "\<forall>k < 1024. \<not> in_range (textmemptr s1) 4000 (buffer + of_nat k)"
    by (simp_all add: shell_ready_def console_live_def)
  then show ?thesis using s1 kgets_shows [of s1 buffer chars] by blast
qed

lemma shell_step_waits:
  "shell_ready path ps buffer s \<Longrightarrow> edit_line 1023 [] chars = None \<Longrightarrow> shell_step path buffer chars node s = None"
  using shell_prompts [of path ps buffer s chars] by (auto simp: shell_step_def lift_run_def)

lemma shell_step_answers:
  fixes s :: "'a initrd_scheme"
  assumes ready: "shell_ready path ps buffer s" and line: "edit_line 1023 [] chars = Some (line, rest)"
    and out: "answer line = Some out"
  shows "\<exists>s'. shell_step path buffer chars node s = ret (rest, node, s') \<and> shown buffer 1024 s s' \<and>
    term_of s' = fold term_put (prompt ps @ echo_line 1023 [] chars @ out) (term_of s)"
proof -
  obtain s1 s2 where s1: "kputs ''MyaXOS %s> '' [path] s = ret s1" "shown buffer 1024 s s1"
    "term_of s1 = fold term_put (prompt ps) (term_of s)"
    and s2: "kgets buffer 1023 chars s1 = Some (int (length line), rest, s2)" "cstr (mem s2) buffer line"
    "length line < 1024" "shown buffer 1024 s1 s2" "term_of s2 = fold term_put (echo_line 1023 [] chars) (term_of s1)"
    using shell_prompts [OF ready, of chars] line by auto
  have r1: "shell_ready path ps buffer s1" using ready s1(2) by (rule shell_ready_shown)
  have r2: "shell_ready path ps buffer s2" using r1 s2(4) by (rule shell_ready_shown)
  have sh2: "shown buffer 1024 s s2" using s1(2) s2(4) by (rule shown_trans)
  show ?thesis
  proof (cases "line = []")
    case True
    then have "shell_step path buffer chars node s = ret (rest, node, s2)" "out = []"
      using s1(1) s2(1) out by (simp_all add: shell_step_def lift_run_def answer_def)
    then show ?thesis using sh2 s1(3) s2(5) by simp
  next
    case False
    then obtain c ws where words: "tokens {0x20} line = c # ws" and
      ans: "(c = bytes ''echo'' \<and> out = (if ws = [] then [] else concat (map (\<lambda>w. w @ [0x20]) ws) @ [0x0A])) \<or>
        (c \<notin> bytes ` set command_names \<and> length c \<le> 1000 \<and> out = bytes ''Unrecognized command: '' @ c @ [0x0A])"
      using out by (auto simp: answer_def split: list.splits if_splits)
    have live2: "console_live s2" and buf: "buffer \<noteq> 0" "unat buffer + 1024 < 2 ^ 32"
      "\<forall>k < 1024. \<not> in_kbuf s2 (buffer + of_nat k) \<and> \<not> in_range (textmemptr s2) 4000 (buffer + of_nat k)"
      using r2 by (simp_all add: shell_ready_def console_live_def)
    have "text_at buffer 1024 s2 (lit s2 '' '') [0x20]"
      using r2 by (simp add: shell_ready_def shell_literals_def bytes_def)
    then obtain argv m' where t: "tokenize buffer (lit s2 '' '') 0 (mem s2) = Some (argv, m')"
      "list_all2 (text_at buffer 0 (s2\<lparr>mem := m'\<rparr>)) argv (c # ws)"
      "shown buffer 1024 s2 (s2\<lparr>mem := m'\<rparr>)" "term_of (s2\<lparr>mem := m'\<rparr>) = term_of s2"
      using line_words [OF live2 s2(2,3) _ buf] unfolding words by blast
    let ?s3 = "s2\<lparr>mem := m'\<rparr>"
    have r3: "shell_ready path ps buffer ?s3" using r2 t(3) by (rule shell_ready_shown)
    then have env: "console_live ?s3" "kbuf_apart ?s3" by (simp_all only: shell_ready_def console_live_def)
    have "\<forall>t \<in> set shell_literals. text_at buffer 0 ?s3 (lit ?s3 t) (bytes t)"
      using r3 text_at_less unfolding shell_ready_def by blast
    moreover have "length c + sum_list (map length ws) < 1024"
      using tokens_length [of "{0x20}" line] s2(3) unfolding words by simp
    ultimately obtain s4 where s4: "run_command path argv node ?s3 = ret (node, s4)" "shown buffer 0 ?s3 s4"
      "term_of s4 = fold term_put out (term_of ?s3)"
      using run_command_answers [OF env _ t(2) _ ans] by blast
    have "\<not> int (length line) < 1" using False by (cases line) simp_all
    then have "shell_step path buffer chars node s = ret (rest, node, s4)"
      using s1(1) s2(1) t(1) s4(1) by (simp add: shell_step_def lift_run_def)
    moreover have "shown buffer 1024 s s4" using shown_trans [OF shown_trans [OF sh2 t(3)] shown_mono [OF s4(2)]] .
    ultimately show ?thesis using s1(3) s2(5) t(4) s4(3) by simp
  qed
qed

text \<open>C14: a round of the shell, from the characters typed to the screen: when they end before the line
  does, the shell waits for ever.  Otherwise the screen shows the prompt with the working directory, the
  echo of the line as it is edited, and the answer to its first word: for \<^verbatim>\<open>echo\<close> the other words, each with a
  space behind it, for a word that is not a command the message with this word, for an empty line
  nothing.  The loop goes on with the characters that are left, in a state where all this holds again;
  no byte has changed but those of the line buffer, the output buffer and the text buffer.\<close>

theorem shell_answers:
  fixes s :: "'a initrd_scheme"
  assumes "shell_ready path ps buffer s"
  shows "case edit_line 1023 [] chars of
      None \<Rightarrow> shell_loop path buffer chars node s = None
    | Some (line, rest) \<Rightarrow> \<forall>out. answer line = Some out \<longrightarrow>
        (\<exists>s'. shell_loop path buffer chars node s = shell_loop path buffer rest node s' \<and>
          shell_step path buffer chars node s = ret (rest, node, s') \<and>
          term_of s' = fold term_put (prompt ps @ echo_line 1023 [] chars @ out) (term_of s) \<and>
          shell_ready path ps buffer s' \<and> (\<forall>x. safe buffer 1024 s x \<longrightarrow> mem s' x = mem s x))"
proof (cases "edit_line 1023 [] chars")
  case None
  then have "shell_step path buffer chars node s = None" by (rule shell_step_waits [OF assms])
  then show ?thesis using None by (simp add: shell_loop.simps [of path buffer chars])
next
  case (Some r)
  obtain line rest where r: "r = (line, rest)" by (cases r)
  show ?thesis
    unfolding Some r option.case prod.case
  proof (intro allI impI)
    fix out assume "answer line = Some out"
    then obtain s' where s': "shell_step path buffer chars node s = ret (rest, node, s')" "shown buffer 1024 s s'"
      "term_of s' = fold term_put (prompt ps @ echo_line 1023 [] chars @ out) (term_of s)"
      using shell_step_answers [OF assms Some [unfolded r]] by blast
    moreover have "shell_loop path buffer chars node s = shell_loop path buffer rest node s'"
      using s'(1) by (simp add: shell_loop.simps [of path buffer chars])
    moreover have "\<forall>x. safe buffer 1024 s x \<longrightarrow> mem s' x = mem s x" using s'(2) by (simp add: shown_def)
    ultimately show "\<exists>s'. shell_loop path buffer chars node s = shell_loop path buffer rest node s' \<and>
        shell_step path buffer chars node s = ret (rest, node, s') \<and>
        term_of s' = fold term_put (prompt ps @ echo_line 1023 [] chars @ out) (term_of s) \<and>
        shell_ready path ps buffer s' \<and> (\<forall>x. safe buffer 1024 s x \<longrightarrow> mem s' x = mem s x)"
      using shell_ready_shown [OF assms s'(2)] by blast
  qed
qed

section \<open>An example\<close>

text \<open>The literals, and the working directory \<open>/\<close>, are from 0x10000 on, 64 bytes apart.\<close>

definition shell_strings :: "string list" where
  "shell_strings = shell_literals @ [''/'']"

definition string_addr :: "string \<Rightarrow> u32" where
  "string_addr t = 0x10000 + of_nat (64 * length (takeWhile (\<lambda>u. u \<noteq> t) shell_strings))"

definition string_image :: mem where
  "string_image x =
     (let d = unat (x - 0x10000); i = d div 64; j = d mod 64 in
      if i < length shell_strings \<and> j < length (shell_strings ! i) then of_char (shell_strings ! i ! j) else 0)"

definition demo_shell :: initrd where
  "demo_shell = demo_initrd\<lparr>mem := string_image, lit := string_addr, env := \<lambda>_ _. 0x20\<rparr>"

lemma demo_shell_fields:
  "mem demo_shell = string_image" "lit demo_shell = string_addr" "env demo_shell = (\<lambda>_ _. 0x20)"
  "textmemptr demo_shell = 0xB8000" "kbuf demo_shell = 0x4000" "csr_x demo_shell = 0" "csr_y demo_shell = 0"
  by (simp_all add: demo_shell_def demo_initrd_def demo_kbd_def demo_heap_def demo_kmm_def kmm.defs kheap.defs kbd.defs initrd.defs)

lemma shell_strings_short: "\<forall>t \<in> set shell_strings. length t < 30 \<and> 0 \<notin> set (bytes t)" "length shell_strings = 15"
  by (simp_all add: shell_strings_def shell_literals_def command_names_def bytes_def)

lemma string_at:
  assumes "t \<in> set shell_strings"
  shows "text_at 0x20000 1024 demo_shell (string_addr t) (bytes t)"
proof -
  define i where "i = length (takeWhile (\<lambda>u. u \<noteq> t) shell_strings)"
  have "dropWhile (\<lambda>u. u \<noteq> t) shell_strings \<noteq> []" using assms by (auto simp: dropWhile_eq_Nil_conv)
  moreover have "i + length (dropWhile (\<lambda>u. u \<noteq> t) shell_strings) = length shell_strings"
    unfolding i_def by (simp flip: length_append)
  ultimately have i: "i < 15" using shell_strings_short(2) by (cases "dropWhile (\<lambda>u. u \<noteq> t) shell_strings") auto
  then have it: "shell_strings ! i = t"
    using nth_length_takeWhile [of "\<lambda>u. u \<noteq> t" shell_strings] shell_strings_short(2) by (simp add: i_def)
  have t: "length t < 30" "0 \<notin> set (bytes t)" using shell_strings_short(1) assms by blast+
  have addr: "string_addr t + of_nat k = 0x10000 + of_nat (64 * i + k)" for k by (simp add: string_addr_def i_def)
  have byte: "string_image (string_addr t + of_nat k) = (if k < length t then bytes t ! k else 0)" if "k < 64" for k
  proof -
    have "unat (0x10000 + of_nat (64 * i + k) - 0x10000 :: u32) = 64 * i + k"
      using i that by (simp only: add_diff_cancel_left') (rule unat_of_nat_small, simp)
    then show ?thesis unfolding addr string_image_def Let_def using that i it shell_strings_short(2) by (simp add: bytes_def)
  qed
  have "cstr string_image (string_addr t) (bytes t)"
    unfolding cstr_nth using byte t by (auto simp: bytes_def)
  moreover have "\<not> in_range p n (string_addr t + of_nat k)"
    if "unat p + n \<le> 0x10000 \<or> 0x10400 \<le> unat p" "unat p + n \<le> 2 ^ 32" "k \<le> length t" for p n k
    unfolding addr using that i t(1) by (intro range_apart [where l = 1024]) auto
  ultimately show ?thesis
    by (auto simp: text_at_def safe_def in_kbuf_def demo_shell_fields bytes_def)
qed

lemma demo_shell_ready: "shell_ready (string_addr ''/'') (bytes ''/'') 0x20000 demo_shell"
proof -
  have strings: "\<forall>t \<in> set shell_literals. text_at 0x20000 1024 demo_shell (lit demo_shell t) (bytes t)"
    "text_at 0x20000 1024 demo_shell (string_addr ''/'') (bytes ''/'')"
    unfolding demo_shell_fields by (auto intro: string_at simp: shell_strings_def)
  have kbuf: "\<not> in_range 0xB8000 4000 ((0x4000 :: u32) + of_nat k)" "\<not> in_range 0xB8000 4000 ((0x20000 :: u32) + of_nat k)"
    "\<not> in_range 0x4000 1024 ((0x20000 :: u32) + of_nat k)" if "k < 1024" for k
    using that by (intro range_apart [where l = 1024]; simp)+
  have "kbuf_apart demo_shell"
    unfolding kbuf_apart_def in_kbuf_def demo_shell_fields using kbuf(1) by (auto elim: in_range_obtain)
  moreover have "console_ok demo_shell" "uart_live demo_shell"
    by (auto simp: console_ok_def uart_live_def tx_ready_def demo_shell_fields)
  ultimately show ?thesis
    using strings kbuf by (simp add: shell_ready_def in_kbuf_def demo_shell_fields) (simp add: bytes_def)
qed

lemma demo_line:
  "edit_line 1023 [] (bytes ''echo hi\<newline>'') = Some (bytes ''echo hi'', [])"
  "echo_line 1023 [] (bytes ''echo hi\<newline>'') = bytes ''echo hi\<newline>''" "edit_line 1023 [] [] = None"
  by (simp_all add: bytes_def edit_line.simps echo_line.simps edit_char_def echo_char_def)

lemma demo_answer: "answer (bytes ''echo hi'') = Some (bytes ''hi \<newline>'')"
proof -
  have "tokens {0x20} (bytes ''echo hi'') = [bytes ''echo'', bytes ''hi'']"
    by (simp add: tokens.simps tok_word_def tok_rest_def tok_skip_def bytes_def)
  then show ?thesis by (simp add: answer_def bytes_def)
qed

theorem shell_answers_witness:
  "\<exists>s'. shell_step (string_addr ''/'') 0x20000 (bytes ''echo hi\<newline>'') 0 demo_shell = ret ([], 0, s') \<and>
    term_of s' = fold term_put (bytes ''MyaXOS /> echo hi\<newline>hi \<newline>'') (term_of demo_shell)"
proof -
  have "prompt (bytes ''/'') @ bytes ''echo hi\<newline>'' @ bytes ''hi \<newline>'' = bytes ''MyaXOS /> echo hi\<newline>hi \<newline>''"
    by (simp add: prompt_def bytes_def)
  then show ?thesis
    using shell_answers [OF demo_shell_ready, of "bytes ''echo hi\<newline>''" 0] unfolding demo_line option.case prod.case
    using demo_answer by metis
qed

end
