(* ===== verification/Spec2Isabelle.thy ===== *)
theory Spec2Isabelle
  imports Prelude Memory CString Console Kprintf Interrupts KMem SkipList KMalloc HeapInv HeapOps HeapGrow Heap Malloc
    Keyboard Ext2 Ramdisk Borrow Lookup Vfs Path Shell Boot Command Session
begin

text \<open>
  A model of the MyaXOS kernel.

  MyaXOS is a small i386 kernel loaded by a multiboot loader.  \<^verbatim>\<open>kernel/main.c\<close> installs the
  descriptor tables and interrupt handlers, starts the console, the timer, the keyboard and
  the serial port, turns paging on, installs the heap, mounts an ext2 ram disk and starts a
  shell.  The parts call each other directly and share global variables, so the model threads
  one state record, extended by each component in turn.

  \<^item> \<^verbatim>\<open>Prelude\<close>: the C integer types, the outcome type of kernel code, word lemmas.
  \<^item> \<^verbatim>\<open>Memory\<close>: the flat byte memory, little-endian accesses, when two accesses are apart, and
    the machine record with its I/O ports.
  \<^item> \<^verbatim>\<open>CString\<close> (\<^verbatim>\<open>core/system.c\<close>): \<^verbatim>\<open>memcpy\<close>, \<^verbatim>\<open>memset\<close>, \<^verbatim>\<open>memsetw\<close>, the string functions,
    \<^verbatim>\<open>strtok_r\<close>, \<^verbatim>\<open>atoi\<close> and port I/O, with what each computes on strings in memory.
  \<^item> \<^verbatim>\<open>Console\<close> (\<^verbatim>\<open>core/serial.c\<close>, \<^verbatim>\<open>core/vga.c\<close>): polling output and the text console, refined to
    an abstract terminal; the locale \<open>char_device\<close> is what the printing code uses.
  \<^item> \<^verbatim>\<open>Kprintf\<close> (\<^verbatim>\<open>core/kprintf.c\<close>): formatted output against the text a format describes, and
    line input against an abstract line editor.
  \<^item> \<^verbatim>\<open>Interrupts\<close> (\<^verbatim>\<open>core/gdt.c\<close>, \<^verbatim>\<open>core/idt.c\<close>, \<^verbatim>\<open>core/isrs.c\<close>, \<^verbatim>\<open>core/irq.c\<close>, \<^verbatim>\<open>core/timer.c\<close>):
    descriptor tables in memory as the processor decodes them, dispatch, the timer.
  \<^item> \<^verbatim>\<open>KMem\<close> (\<^verbatim>\<open>core/mem.c\<close>): the placement allocator, the frame bitmap as a set of frames, page
    tables and \<^verbatim>\<open>sbrk\<close>; the locale \<open>frame_allocator\<close> is what a client of the frames uses.
  \<^item> \<^verbatim>\<open>SkipList\<close>, \<^verbatim>\<open>KMalloc\<close> (\<^verbatim>\<open>core/alloc.c\<close>): the skip list of free big blocks, the bins, and the
    allocator's entry points \<^verbatim>\<open>malloc\<close>, \<^verbatim>\<open>free\<close>, \<^verbatim>\<open>realloc\<close>, \<^verbatim>\<open>calloc\<close>.
  \<^item> \<^verbatim>\<open>HeapInv\<close>, \<^verbatim>\<open>HeapOps\<close>, \<^verbatim>\<open>HeapGrow\<close>, \<^verbatim>\<open>Heap\<close>: the invariant that relates the memory to an
    abstract map of chunks, and its preservation by taking and returning cells and big blocks and
    by growing the heap with \<^verbatim>\<open>sbrk\<close>.
  \<^item> \<^verbatim>\<open>Malloc\<close>: what a client may rely on, as the locale \<open>heap_contract\<close> interpreted on the code,
    and the errors of \<^verbatim>\<open>realloc\<close> and of huge requests.  \<^verbatim>\<open>Borrow\<close>: a block taken and given back
    leaves the abstract heap and all bytes outside of it as they were.
  \<^item> \<^verbatim>\<open>Keyboard\<close> (\<^verbatim>\<open>core/kbd.c\<close>): the scancode tables, the modifier state, and the characters keys give.
  \<^item> \<^verbatim>\<open>Ext2\<close> (\<^verbatim>\<open>core/fs/ext2_initrd.c\<close>): the driver of the ram disk.  \<^verbatim>\<open>Ramdisk\<close>: reading a file
    against the bytes its block table describes, directory entries, the flags of nodes.
    \<^verbatim>\<open>Lookup\<close>: finding a name in a directory, with the heap blocks this takes.  \<^verbatim>\<open>Path\<close>: \<^verbatim>\<open>kopen\<close>
    against the lookup of a list of names in the tree of directories.
  \<^item> \<^verbatim>\<open>Vfs\<close> (\<^verbatim>\<open>core/vfs.c\<close>), \<^verbatim>\<open>Shell\<close> (\<^verbatim>\<open>core/shell.c\<close>), \<^verbatim>\<open>Boot\<close> (\<^verbatim>\<open>core/panic.c\<close>,
    \<^verbatim>\<open>core/multiboot.c\<close>, \<^verbatim>\<open>main.c\<close>): calls through nodes, opening a path, the commands, stopping
    the machine, the boot information, and the order in which everything is started.  \<^verbatim>\<open>Command\<close>:
    the words of a line, the absolute name of an argument, and \<^verbatim>\<open>cd\<close> through all the layers below it.
    \<^verbatim>\<open>Session\<close>: a round of the shell from the characters typed to the text on the screen, and the
    invariant under which the next round behaves the same.

  Conventions.  A function that always returns is a HOL function; one that can loop is a
  \<open>partial_function\<close> whose \<open>None\<close> is not returning; one that can stop the machine returns a
  \<open>run\<close>.  No fuel is used.  Addresses and \<^verbatim>\<open>unsigned\<close> values are 32-bit words that wrap
  around; \<^verbatim>\<open>int\<close> variables that index the screen or count characters are \<open>int\<close>.  What the
  devices answer, where the linker put the static objects, and which characters are typed are
  parameters: fields of the state or arguments.

  A call through a function pointer of a node is the driver function the linker put at that
  address; a call of another address, and a read through an invalid pointer, is the outcome
  \<open>Undefined\<close>.  The arrays of a stack frame are at addresses that are arguments.

  Not modelled: \<^verbatim>\<open>start.asm\<close> beyond the loading of the two table registers; the boot loader, which
  is 16-bit code that only calls the BIOS; \<^verbatim>\<open>timer_wait\<close>, a busy loop on a variable that only an
  interrupt changes; the parts of \<^verbatim>\<open>alloc.c\<close> under \<^verbatim>\<open>#if 0\<close>.  Interrupts happen at the points where
  the code waits for them.  A \<^verbatim>\<open>log_block_size\<close> of 32 or more, where C leaves the shift undefined,
  gives the block size 0; reading a file with the block size 0 divides by it and is \<open>Undefined\<close>.
\<close>

end
